(* ===== verification/Prelude_AF.thy ===== *)
theory Prelude_AF
  imports Main "HOL-Library.Word" "HOL-Library.Multiset"
begin

text \<open>
  Shared material of the development: the widths of the C types the machine uses, memory as
  lists of bytes (slices, overwriting a region, C strings), little-endian words, the outcome type
  for steps that may touch memory they do not own, and the collections of rewrite rules.
\<close>

unbundle bit_operations_syntax

named_theorems codec_simps \<open>reading back what was written: bytes, words and struct layouts\<close>
named_theorems model_defs \<open>definitions of straight-line operations, unfolded by simp\<close>

section \<open>C types\<close>

type_synonym byte = "8 word"
type_synonym u16 = "16 word"
type_synonym u32 = "32 word"
type_synonym u64 = "64 word"

section \<open>Outcomes of a step\<close>

text \<open>
  \<open>Fault\<close> stands for an access outside the object the code owns, \<open>Exit n\<close> for a call
  of exit(n), which ends the process.
\<close>

datatype 'a outcome = Ok 'a | Exit u32 | Fault

fun outcome_bind :: "'a outcome \<Rightarrow> ('a \<Rightarrow> 'b outcome) \<Rightarrow> 'b outcome" where
  "outcome_bind (Ok x) f = f x"
| "outcome_bind (Exit n) f = Exit n"
| "outcome_bind Fault f = Fault"

fun is_ok :: "'a outcome \<Rightarrow> bool" where
  "is_ok (Ok x) = True"
| "is_ok (Exit n) = False"
| "is_ok Fault = False"

lemma outcome_bind_Ok_iff:
  "outcome_bind r f = Ok y \<longleftrightarrow> (\<exists>x. r = Ok x \<and> f x = Ok y)"
  by (cases r) auto

lemma outcome_bind_Fault_iff:
  "outcome_bind r f = Fault \<longleftrightarrow> r = Fault \<or> (\<exists>x. r = Ok x \<and> f x = Fault)"
  by (cases r) auto

lemma outcome_bind_assoc:
  "outcome_bind (outcome_bind r f) g = outcome_bind r (\<lambda>x. outcome_bind (f x) g)"
  by (cases r) auto

lemma outcome_bind_Exit_iff:
  "outcome_bind r f = Exit e \<longleftrightarrow> r = Exit e \<or> (\<exists>x. r = Ok x \<and> f x = Exit e)"
  by (cases r) auto

lemma is_ok_bind: "is_ok (outcome_bind r f) \<longleftrightarrow> (\<exists>x. r = Ok x \<and> is_ok (f x))"
  by (cases r) auto

lemma is_ok_iff: "is_ok r \<longleftrightarrow> (\<exists>x. r = Ok x)"
  by (cases r) auto

section \<open>Memory regions\<close>

definition slice :: "nat \<Rightarrow> nat \<Rightarrow> 'a list \<Rightarrow> 'a list" where
  "slice off n xs = take n (drop off xs)"

definition blit :: "nat \<Rightarrow> 'a list \<Rightarrow> 'a list \<Rightarrow> 'a list" where
  "blit off ys xs = take off xs @ ys @ drop (off + length ys) xs"

lemma length_slice [simp]: "off + n \<le> length xs \<Longrightarrow> length (slice off n xs) = n"
  by (simp add: slice_def)

lemma length_slice_min: "length (slice off n xs) = min n (length xs - off)"
  by (simp add: slice_def min.commute)

lemma length_blit [simp]: "off + length ys \<le> length xs \<Longrightarrow> length (blit off ys xs) = length xs"
  by (simp add: blit_def)

lemma nth_slice [simp]: "i < n \<Longrightarrow> off + n \<le> length xs \<Longrightarrow> slice off n xs ! i = xs ! (off + i)"
  by (simp add: slice_def)

lemma nth_blit:
  assumes "off + length ys \<le> length xs" and "i < length xs"
  shows "blit off ys xs ! i
       = (if off \<le> i \<and> i < off + length ys then ys ! (i - off) else xs ! i)"
  using assms by (auto simp: blit_def nth_append min_def)

lemma slice_blit_same [codec_simps]:
  "off + length ys \<le> length xs \<Longrightarrow> n = length ys \<Longrightarrow> slice off n (blit off ys xs) = ys"
  by (simp add: slice_def blit_def)

lemma slice_blit_disjoint:
  assumes "off + length ys \<le> length xs" and "off' + n \<le> length xs"
    and "off' + n \<le> off \<or> off + length ys \<le> off'"
  shows "slice off' n (blit off ys xs) = slice off' n xs"
proof (rule nth_equalityI)
  show "length (slice off' n (blit off ys xs)) = length (slice off' n xs)"
    using assms(1,2) by simp
  fix i
  assume "i < length (slice off' n (blit off ys xs))"
  with assms(1,2) have i: "i < n" by simp
  with assms(3) have "\<not> (off \<le> off' + i \<and> off' + i < off + length ys)" by arith
  with i assms(1,2) show "slice off' n (blit off ys xs) ! i = slice off' n xs ! i"
    by (simp add: nth_blit imp_conjL)
qed

lemma slice_append_here [codec_simps]:
  "length xs = off \<Longrightarrow> n = length ys \<Longrightarrow> slice off n (xs @ ys @ zs) = ys"
  by (simp add: slice_def)

lemma slice_slice:
  "a + m \<le> n \<Longrightarrow> slice a m (slice off n xs) = slice (off + a) m xs"
  by (simp add: slice_def drop_take add.commute)

section \<open>C strings\<close>

text \<open>The bytes a C string function reads: up to the first NUL, or to the end of the buffer.\<close>

definition c_string :: "byte list \<Rightarrow> byte list" where
  "c_string bs = takeWhile (\<lambda>b. b \<noteq> 0) bs"

lemma c_string_no_nul: "0 \<notin> set (c_string bs)"
  by (auto simp: c_string_def dest: set_takeWhileD)

lemma length_c_string: "length (c_string bs) \<le> length bs"
  by (simp add: c_string_def length_takeWhile_le)

lemma c_string_append_nul [codec_simps]: "0 \<notin> set s \<Longrightarrow> c_string (s @ 0 # rest) = s"
  by (auto simp: c_string_def takeWhile_append)

lemma c_string_stops: "0 \<in> set xs \<Longrightarrow> c_string (xs @ ys) = c_string xs"
  by (auto simp: c_string_def takeWhile_append)

lemma c_string_all: "0 \<notin> set xs \<Longrightarrow> c_string (xs @ ys) = xs @ c_string ys"
  by (auto simp: c_string_def takeWhile_append)

section \<open>Little-endian words\<close>

definition le_bytes :: "nat \<Rightarrow> 'a::len word \<Rightarrow> byte list" where
  "le_bytes n w = map (\<lambda>i. ucast (drop_bit (8 * i) w)) [0..<n]"

fun le_word :: "byte list \<Rightarrow> 'a::len word" where
  "le_word [] = 0"
| "le_word (b # bs) = ucast b OR push_bit 8 (le_word bs)"

lemma length_le_bytes [simp]: "length (le_bytes n w) = n"
  by (simp add: le_bytes_def)

lemma bit_byte_bound: "bit (b :: byte) k \<Longrightarrow> k < 8"
  using bit_imp_le_length [of b k] by simp

lemma bit_le_word:
  "bit (le_word bs :: 'a::len word) k \<longleftrightarrow>
     k < LENGTH('a) \<and> k div 8 < length bs \<and> bit (bs ! (k div 8)) (k mod 8)"
proof (induction bs arbitrary: k)
  case Nil
  then show ?case by simp
next
  case (Cons b bs)
  show ?case
  proof (cases "k < 8")
    case True
    then show ?thesis by (auto simp: bit_simps)
  next
    case False
    then have "k div 8 = Suc ((k - 8) div 8)" and "k mod 8 = (k - 8) mod 8"
      by (simp_all add: le_div_geq le_mod_geq)
    with False Cons.IH [of "k - 8"] show ?thesis
      by (auto simp: bit_simps dest: bit_byte_bound)
  qed
qed

lemma nth_le_bytes [simp]: "i < n \<Longrightarrow> le_bytes n w ! i = ucast (drop_bit (8 * i) w)"
  by (simp add: le_bytes_def)

text \<open>Writing a word and reading it back, and the converse for enough bytes.\<close>

lemma le_word_le_bytes [codec_simps]:
  fixes w :: "'a::len word"
  assumes "LENGTH('a) \<le> 8 * n"
  shows "le_word (le_bytes n w) = w"
proof (rule bit_word_eqI)
  fix k
  assume "k < LENGTH('a)"
  moreover from this assms have "k div 8 < n" by auto
  ultimately show "bit (le_word (le_bytes n w) :: 'a word) k = bit w k"
    by (simp add: bit_le_word bit_simps)
qed

lemma le_bytes_le_word:
  assumes "length bs = n" and "8 * n \<le> LENGTH('a)"
  shows "le_bytes n (le_word bs :: 'a::len word) = bs"
proof (rule nth_equalityI)
  fix i
  assume "i < length (le_bytes n (le_word bs :: 'a word))"
  then have i: "i < n" by simp
  show "le_bytes n (le_word bs :: 'a word) ! i = bs ! i"
  proof (rule bit_word_eqI)
    fix k
    assume k: "k < LENGTH(8)"
    with i assms have "8 * i + k < LENGTH('a)" by simp
    with i k assms(1) show "bit (le_bytes n (le_word bs :: 'a word) ! i) k = bit (bs ! i) k"
      by (simp add: bit_simps bit_le_word)
  qed
qed (use assms in simp)

lemma c_string_le_bytes_0: "c_string (le_bytes n (0 :: 'a::len word)) = []"
  by (cases n) (simp_all add: c_string_def le_bytes_def upt_conv_Cons del: upt_Suc)

section \<open>Bits of small words\<close>

lemma small_word_bit:
  fixes w :: "'a::len word"
  assumes "take_bit n w = w" and "bit w k"
  shows "k < n"
  using assms by (metis bit_take_bit_iff)

lemma small_word_take_bit:
  fixes w :: "'a::len word"
  assumes "uint w < 2 ^ n"
  shows "take_bit n w = w"
  by (rule word_uint_eqI) (use assms in \<open>simp add: unsigned_take_bit_eq take_bit_int_eq_self\<close>)

lemma bit_word_double [bit_simps]:
  "bit (w * 2 :: 'a::len word) k \<longleftrightarrow> 0 < k \<and> k < LENGTH('a) \<and> bit w (k - 1)"
  using bit_double_iff [of w k] by (auto simp: mult.commute)

lemma bit_int_eq_mask: "m = (mask n :: int) \<Longrightarrow> bit m k \<longleftrightarrow> k < n"
  by (simp add: bit_mask_iff)

lemma bit_int_eq_exp: "m = (2 ^ n :: int) \<Longrightarrow> bit m k \<longleftrightarrow> k = n"
  by (auto simp: bit_exp_iff)

lemma bit_int_masks [bit_simps]:
  "bit (3 :: int) k \<longleftrightarrow> k < 2"
  "bit (0xf :: int) k \<longleftrightarrow> k < 4"
  "bit (0xffff :: int) k \<longleftrightarrow> k < 16"
  "bit (0xffffffff :: int) k \<longleftrightarrow> k < 32"
  by (rule bit_int_eq_mask, simp add: mask_eq_exp_minus_1)+

lemma bit_int_exps [bit_simps]:
  "bit (2 :: int) k \<longleftrightarrow> k = 1"
  "bit (4 :: int) k \<longleftrightarrow> k = 2"
  "bit (8 :: int) k \<longleftrightarrow> k = 3"
  "bit (16 :: int) k \<longleftrightarrow> k = 4"
  "bit (32 :: int) k \<longleftrightarrow> k = 5"
  "bit (0x80 :: int) k \<longleftrightarrow> k = 7"
  by (rule bit_int_eq_exp, simp)+

lemma word_eq_0_bits: "w \<noteq> 0 \<longleftrightarrow> (\<exists>k. bit w k)" for w :: "'a::len word"
  by (metis bit_0_eq bit_eq_iff bot_apply bot_bool_def)

section \<open>Widening\<close>

lemma unat_ucast_u32_u64 [simp]: "unat (ucast (w :: u32) :: u64) = unat w"
proof -
  have "unat w < 2 ^ LENGTH(32)" by (rule unsigned_less)
  then have "unat w < 2 ^ 64" by (rule less_trans) simp
  then show ?thesis by (simp add: unsigned_ucast_eq take_bit_nat_eq_self)
qed

end
