(* ===== verification/Ring_Process.thy ===== *)
theory Ring_Process
  imports Prelude_AF
begin

text \<open>
  The loop that the five processes of the machine have in common: queue_remove, work, queue_add for each
  result. The locale is the interface between a process and the ring: how its turn reads and writes the
  machine; inside it are proved once what a turn can change, when it has to wait, and that turns of other
  processes do not disturb it.
\<close>

section \<open>The loop\<close>

definition MAX_QUEUE_SIZE :: nat where
  "MAX_QUEUE_SIZE = 1024"

text \<open>
  The loop every process runs: put what is pending, when the queue behind has room; else take from the
  queue before, when it has something, and compute. None when the process has to wait, or computes for
  ever.
\<close>

fun queue_turn :: "('i \<Rightarrow> ('s \<times> 'o list) outcome option) \<Rightarrow> 's \<Rightarrow> 'o list \<Rightarrow> 'i list \<Rightarrow> 'o list
    \<Rightarrow> ('s \<times> 'o list \<times> 'i list \<times> 'o list) outcome option" where
  "queue_turn work st (p # ps) inq outq =
     (if length outq < MAX_QUEUE_SIZE then Some (Ok (st, ps, inq, outq @ [p])) else None)"
| "queue_turn work st [] [] outq = None"
| "queue_turn work st [] (x # inq) outq =
     map_option (\<lambda>r. outcome_bind r (\<lambda>(st', out). Ok (st', out, inq, outq))) (work x)"

section \<open>Laws of a turn\<close>

lemma queue_turn_effect:
  assumes "queue_turn work st pend inq outq = Some (Ok (st', pend', inq', outq'))"
  shows "set inq' \<subseteq> set inq \<and> set outq' \<subseteq> set outq \<union> set pend
    \<and> (st' = st \<and> set pend' \<subseteq> set pend \<or> (\<exists>x\<in>set inq. work x = Some (Ok (st', pend'))))
    \<and> (length outq \<le> MAX_QUEUE_SIZE \<longrightarrow> length outq' \<le> MAX_QUEUE_SIZE) \<and> length inq' \<le> length inq"
  using assms
  by (cases "(work, st, pend, inq, outq)" rule: queue_turn.cases)
    (auto simp: outcome_bind_Ok_iff split: if_splits)

text \<open>What a process does is not disturbed by more input behind, or by room made in its output.\<close>

lemma queue_turn_more_input:
  assumes "queue_turn work st pend inq outq = Some r"
  shows "queue_turn work st pend (inq @ ys) outq
    = Some (outcome_bind r (\<lambda>(st', pend', inq', outq'). Ok (st', pend', inq' @ ys, outq')))"
  using assms
  by (cases "(work, st, pend, inq, outq)" rule: queue_turn.cases)
    (auto simp: outcome_bind_assoc split_def split: if_splits)

lemma queue_turn_more_room:
  assumes "queue_turn work st pend inq outq = Some r" and "k \<le> length outq"
  shows "queue_turn work st pend inq (drop k outq)
    = Some (outcome_bind r (\<lambda>(st', pend', inq', outq'). Ok (st', pend', inq', drop k outq')))"
  using assms
  by (cases "(work, st, pend, inq, outq)" rule: queue_turn.cases)
    (auto simp: outcome_bind_assoc split_def split: if_splits)

lemma queue_turn_parts:
  assumes "queue_turn work st pend inq outq = Some (Ok (st', pend', inq', outq'))"
  shows "\<exists>k ys. k \<le> length inq \<and> inq' = drop k inq \<and> outq' = outq @ ys"
proof (cases pend)
  case (Cons p ps)
  with assms show ?thesis by (intro exI [of _ 0] exI [of _ "[p]"]) (auto split: if_splits)
next
  case Nil
  with assms show ?thesis
    by (cases inq) (auto simp: outcome_bind_Ok_iff intro!: exI [of _ "1 :: nat"])
qed

lemma queue_turn_None:
  "queue_turn work st pend inq outq = None \<longleftrightarrow> pend \<noteq> [] \<and> MAX_QUEUE_SIZE \<le> length outq
     \<or> pend = [] \<and> (inq = [] \<or> work (hd inq) = None)"
  by (cases "(work, st, pend, inq, outq)" rule: queue_turn.cases) auto

lemma queue_turn_shifted:
  assumes "queue_turn work st pend inq outq = Some r" and "k \<le> length outq"
  shows "queue_turn work st pend (inq @ ys) (drop k outq)
    = Some (outcome_bind r (\<lambda>(st', pend', inq', outq'). Ok (st', pend', inq' @ ys, drop k outq')))"
  using queue_turn_more_room [OF queue_turn_more_input [OF assms(1), of ys] assms(2)]
  by (simp add: outcome_bind_assoc split_def)

section \<open>A process in the ring\<close>

text \<open>
  The machine \<open>'m\<close> holds the process's own state, its pending results, the queue before it and the queue
  behind it; \<open>put_back\<close> replaces these four.
\<close>

locale ring_process =
  fixes turn :: "'m \<Rightarrow> 'm outcome option"
    and work :: "'m \<Rightarrow> 'i \<Rightarrow> ('s \<times> 'o list) outcome option"
    and own :: "'m \<Rightarrow> 's" and pend :: "'m \<Rightarrow> 'o list" and inq :: "'m \<Rightarrow> 'i list" and outq :: "'m \<Rightarrow> 'o list"
    and put_back :: "'s \<Rightarrow> 'o list \<Rightarrow> 'i list \<Rightarrow> 'o list \<Rightarrow> 'm \<Rightarrow> 'm"
  assumes turn_loop: "turn m = map_option (\<lambda>r. outcome_bind r (\<lambda>(s, p, i, q). Ok (put_back s p i q m)))
      (queue_turn (work m) (own m) (pend m) (inq m) (outq m))"
    and read_back: "own (put_back s p i q m) = s" "pend (put_back s p i q m) = p" "inq (put_back s p i q m) = i"
      "outq (put_back s p i q m) = q"
begin

lemma turn_writes:
  assumes "turn m = Some (Ok m')"
  shows "\<exists>s p i q. m' = put_back s p i q m
    \<and> queue_turn (work m) (own m) (pend m) (inq m) (outq m) = Some (Ok (s, p, i, q))"
  using assms by (auto simp: turn_loop outcome_bind_Ok_iff)

text \<open>A turn puts the next result behind the output, or takes an element and works on it.\<close>

lemma moves:
  assumes "turn m = Some (Ok m')"
  shows "\<exists>s p i q. m' = put_back s p i q m
    \<and> ((\<exists>x. pend m = x # p \<and> q = outq m @ [x] \<and> s = own m \<and> i = inq m)
       \<or> (\<exists>x. pend m = [] \<and> inq m = x # i \<and> q = outq m \<and> work m x = Some (Ok (s, p))))"
proof -
  from turn_writes [OF assms] obtain s p i q where m': "m' = put_back s p i q m"
    and turn: "queue_turn (work m) (own m) (pend m) (inq m) (outq m) = Some (Ok (s, p, i, q))" by blast
  from turn have "(\<exists>x. pend m = x # p \<and> q = outq m @ [x] \<and> s = own m \<and> i = inq m)
       \<or> (\<exists>x. pend m = [] \<and> inq m = x # i \<and> q = outq m \<and> work m x = Some (Ok (s, p)))"
    by (cases "(work m, own m, pend m, inq m, outq m)" rule: queue_turn.cases)
      (auto simp: outcome_bind_Ok_iff split: if_splits)
  with m' show ?thesis by blast
qed

lemma frame:
  assumes "turn m = Some (Ok m')"
  shows "\<exists>s p k ys. k \<le> length (inq m) \<and> m' = put_back s p (drop k (inq m)) (outq m @ ys) m"
proof -
  from turn_writes [OF assms] obtain s p i q where m': "m' = put_back s p i q m"
    and turn: "queue_turn (work m) (own m) (pend m) (inq m) (outq m) = Some (Ok (s, p, i, q))" by blast
  from queue_turn_parts [OF turn] m' show ?thesis by auto
qed

lemma effect:
  assumes "turn m = Some (Ok m')"
  shows "\<exists>s p i q. m' = put_back s p i q m \<and> set i \<subseteq> set (inq m) \<and> set q \<subseteq> set (outq m) \<union> set (pend m)
    \<and> (s = own m \<and> set p \<subseteq> set (pend m) \<or> (\<exists>x\<in>set (inq m). work m x = Some (Ok (s, p))))
    \<and> (length (outq m) \<le> MAX_QUEUE_SIZE \<longrightarrow> length q \<le> MAX_QUEUE_SIZE) \<and> length i \<le> length (inq m)"
proof -
  from turn_writes [OF assms] obtain s p i q where m': "m' = put_back s p i q m"
    and turn: "queue_turn (work m) (own m) (pend m) (inq m) (outq m) = Some (Ok (s, p, i, q))" by blast
  from queue_turn_effect [OF turn] m' show ?thesis
    by (intro exI [of _ s] exI [of _ p] exI [of _ i] exI [of _ q]) (rule conjI)
qed

lemma waits:
  "turn m = None \<longleftrightarrow> pend m \<noteq> [] \<and> MAX_QUEUE_SIZE \<le> length (outq m)
     \<or> pend m = [] \<and> (inq m = [] \<or> work m (hd (inq m)) = None)"
  by (simp add: turn_loop queue_turn_None)

text \<open>A turn that ends the process is one in which it works on an element.\<close>

lemma dies:
  assumes "turn m = Some r" and "\<not> is_ok r"
  shows "\<exists>x xs r0. inq m = x # xs \<and> work m x = Some r0 \<and> \<not> is_ok r0
    \<and> r = outcome_bind r0 (\<lambda>(s, p). Ok (put_back s p xs (outq m) m))"
  using assms
  by (cases "(work m, own m, pend m, inq m, outq m)" rule: queue_turn.cases)
    (auto simp: turn_loop outcome_bind_assoc split_def is_ok_bind is_ok_iff split: if_splits)

text \<open>
  A process that can take its turn can still take it, with the same result, after another process has
  put something behind its input or taken something from its output.
\<close>

lemma after:
  assumes "turn m = Some r" and "k \<le> length (outq m)" and "work m' = work m" and "own m' = own m"
    and "pend m' = pend m" and "inq m' = inq m @ ys" and "outq m' = drop k (outq m)"
  shows "turn m' = Some (outcome_bind r (\<lambda>m2.
    Ok (put_back (own m2) (pend m2) (inq m2 @ ys) (drop k (outq m2)) m')))"
proof -
  from assms(1) obtain r0 where r0: "queue_turn (work m) (own m) (pend m) (inq m) (outq m) = Some r0"
    and r: "r = outcome_bind r0 (\<lambda>(s, p, i, q). Ok (put_back s p i q m))" by (auto simp: turn_loop)
  show ?thesis
    using queue_turn_shifted [OF r0 assms(2), of ys]
    by (simp add: turn_loop assms(3-7) r outcome_bind_assoc split_def read_back)
qed

end

end
