(* ===== verification/Machine_Types.thy ===== *)
theory Machine_Types
  imports Prelude_AF
begin

text \<open>
  types.h and types.c: the opcodes and their arity table, destinations and tags with the macros
  that pack them, and the structs that travel between the units. Opcodes and literal markers stay
  the 32-bit values a loaded file holds; the datatypes name the values of the C enums.
\<close>

section \<open>Opcodes\<close>

datatype opcode_type =
    ADD | SUB | BRR | LT | EQ | DUP | NEG | MER | NTG | ITG | GT | SIL | CTG | RTD | ETG | MUL
  | XOR_op | AND_op | OR_op | SHL | SHR | NEQ | OPN | RED | WRT | CLS | GTE | LTE | HLT | LOD | LS
  | SDF | ULK | LSK | RND

definition all_opcodes :: "opcode_type list" where
  "all_opcodes = [ADD, SUB, BRR, LT, EQ, DUP, NEG, MER, NTG, ITG, GT, SIL, CTG, RTD, ETG, MUL,
     XOR_op, AND_op, OR_op, SHL, SHR, NEQ, OPN, RED, WRT, CLS, GTE, LTE, HLT, LOD, LS,
     SDF, ULK, LSK, RND]"

text \<open>The value of an enum constant, and the constant a 32-bit value names, if any.\<close>

fun opcode_val :: "opcode_type \<Rightarrow> u32" where
  "opcode_val ADD = 0"
| "opcode_val SUB = 1"
| "opcode_val BRR = 2"
| "opcode_val LT = 3"
| "opcode_val EQ = 4"
| "opcode_val DUP = 5"
| "opcode_val NEG = 6"
| "opcode_val MER = 7"
| "opcode_val NTG = 8"
| "opcode_val ITG = 9"
| "opcode_val GT = 10"
| "opcode_val SIL = 11"
| "opcode_val CTG = 12"
| "opcode_val RTD = 13"
| "opcode_val ETG = 14"
| "opcode_val MUL = 15"
| "opcode_val XOR_op = 16"
| "opcode_val AND_op = 17"
| "opcode_val OR_op = 18"
| "opcode_val SHL = 19"
| "opcode_val SHR = 20"
| "opcode_val NEQ = 21"
| "opcode_val OPN = 22"
| "opcode_val RED = 23"
| "opcode_val WRT = 24"
| "opcode_val CLS = 25"
| "opcode_val GTE = 26"
| "opcode_val LTE = 27"
| "opcode_val HLT = 28"
| "opcode_val LOD = 29"
| "opcode_val LS = 30"
| "opcode_val SDF = 31"
| "opcode_val ULK = 32"
| "opcode_val LSK = 33"
| "opcode_val RND = 34"

definition opcode_of :: "u32 \<Rightarrow> opcode_type option" where
  "opcode_of v = (if unat v < length all_opcodes then Some (all_opcodes ! unat v) else None)"

lemma length_all_opcodes [simp]: "length all_opcodes = 35"
  by (simp add: all_opcodes_def)

lemma opcode_of_val [simp]: "opcode_of (opcode_val op) = Some op"
  by (cases op) (simp_all add: opcode_of_def all_opcodes_def)

lemma opcode_val_inject [simp]: "opcode_val a = opcode_val b \<longleftrightarrow> a = b"
  by (metis opcode_of_val option.inject)

lemma unat_opcode_val: "unat (opcode_val op) < 35"
  by (cases op) simp_all

lemma opcode_val_nth: "n < 35 \<Longrightarrow> opcode_val (all_opcodes ! n) = of_nat n"
proof -
  have "\<forall>n \<in> set [0..<35]. opcode_val (all_opcodes ! n) = of_nat n"
    by (simp add: all_opcodes_def upt_rec)
  then show "n < 35 \<Longrightarrow> ?thesis" by simp
qed

lemma opcode_of_Some: "opcode_of v = Some op \<longleftrightarrow> v = opcode_val op"
proof
  assume "opcode_of v = Some op"
  then have "unat v < 35" and "op = all_opcodes ! unat v"
    by (auto simp: opcode_of_def split: if_splits)
  then show "v = opcode_val op"
    by (simp add: opcode_val_nth)
qed simp

lemma opcode_of_None: "opcode_of v = None \<longleftrightarrow> 35 \<le> unat v"
  by (simp add: opcode_of_def not_less)

text \<open>The enum is finite, in the order of its values.\<close>

lemma in_all_opcodes: "op \<in> set all_opcodes"
  by (cases op) (simp_all add: all_opcodes_def)

instantiation opcode_type :: enum
begin

definition "enum_opcode_type = all_opcodes"

definition "enum_all_opcode_type P \<longleftrightarrow> list_all P all_opcodes"

definition "enum_ex_opcode_type P \<longleftrightarrow> list_ex P all_opcodes"

instance
proof
  show "(UNIV :: opcode_type set) = set enum_class.enum"
    by (auto simp: enum_opcode_type_def in_all_opcodes)
  show "distinct (enum_class.enum :: opcode_type list)"
    by (simp add: enum_opcode_type_def all_opcodes_def)
qed (auto simp: enum_all_opcode_type_def enum_ex_opcode_type_def list_all_iff list_ex_iff in_all_opcodes)

end

instantiation opcode_type :: linorder
begin

definition less_eq_opcode_type :: "opcode_type \<Rightarrow> opcode_type \<Rightarrow> bool" where
  "less_eq_opcode_type a b \<longleftrightarrow> opcode_val a \<le> opcode_val b"

definition less_opcode_type :: "opcode_type \<Rightarrow> opcode_type \<Rightarrow> bool" where
  "less_opcode_type a b \<longleftrightarrow> opcode_val a < opcode_val b"

instance
  by standard (auto simp: less_eq_opcode_type_def less_opcode_type_def order_less_le)

end

lemma sorted_all_opcodes: "sorted all_opcodes"
  by (simp add: all_opcodes_def less_eq_opcode_type_def)

text \<open>Comparisons with a constant of the enum, as the code writes them.\<close>

lemma opcode_val_eq_iff [simp]:
  "opcode_val op = 2 \<longleftrightarrow> op = BRR"
  "opcode_val op = 5 \<longleftrightarrow> op = DUP"
  "opcode_val op = 8 \<longleftrightarrow> op = NTG"
  "opcode_val op = 13 \<longleftrightarrow> op = RTD"
  "opcode_val op = 22 \<longleftrightarrow> op = OPN"
  "opcode_val op = 23 \<longleftrightarrow> op = RED"
  "opcode_val op = 24 \<longleftrightarrow> op = WRT"
  "opcode_val op = 25 \<longleftrightarrow> op = CLS"
  "opcode_val op = 28 \<longleftrightarrow> op = HLT"
  "opcode_val op = 29 \<longleftrightarrow> op = LOD"
  "opcode_val op = 30 \<longleftrightarrow> op = LS"
  "opcode_val op = 31 \<longleftrightarrow> op = SDF"
  "opcode_val op = 32 \<longleftrightarrow> op = ULK"
  "opcode_val op = 33 \<longleftrightarrow> op = LSK"
  "opcode_val op = 34 \<longleftrightarrow> op = RND"
  by (cases op; simp)+

text \<open>
  The arity table of types.c is an array of 35 bytes indexed by the opcode of an instruction,
  which is not checked: an index past its end is a read outside the array.
\<close>

definition opcode_to_num_inputs :: "byte list" where
  "opcode_to_num_inputs =
    [2, 2, 2, 2, 2, 1, 1, 1, 1, 1, 2, 2, 2, 2, 1, 2, 2, 2, 2, 2, 2, 2, 2, 1, 2, 1, 2, 2, 1, 2, 1,
     2, 1, 2, 1]"

definition num_inputs_of :: "u32 \<Rightarrow> byte outcome" where
  "num_inputs_of v = (if unat v < length opcode_to_num_inputs
     then Ok (opcode_to_num_inputs ! unat v) else Fault)"

definition privileged_opcodes :: "opcode_type list" where
  "privileged_opcodes = [OPN, RED, WRT, CLS, HLT, LOD, LS, SDF, ULK, LSK, RND]"

lemma length_opcode_to_num_inputs [simp]: "length opcode_to_num_inputs = 35"
  by (simp add: opcode_to_num_inputs_def)

lemma num_inputs_cases: "n < 35 \<Longrightarrow> opcode_to_num_inputs ! n = 1 \<or> opcode_to_num_inputs ! n = 2"
proof -
  have "\<forall>n \<in> set [0..<35]. opcode_to_num_inputs ! n = 1 \<or> opcode_to_num_inputs ! n = 2"
    by (simp add: opcode_to_num_inputs_def upt_rec)
  then show "n < 35 \<Longrightarrow> ?thesis" by simp
qed

section \<open>Tags\<close>

type_synonym tag_type = u64
type_synonym tag_area_type = u32
type_synonym iteration_count_type = u32
type_synonym data_type = u64
type_synonym destination_type = u32
type_synonym marker_type = byte

definition CREATE_TAG :: "tag_area_type \<Rightarrow> iteration_count_type \<Rightarrow> tag_type" where
  "CREATE_TAG tag_area iteration_count = push_bit 32 (ucast tag_area) XOR ucast iteration_count"

definition TAG_TO_TAG_AREA :: "tag_type \<Rightarrow> tag_area_type" where
  "TAG_TO_TAG_AREA t = ucast (drop_bit 32 t)"

definition TAG_TO_ITERATION_COUNT :: "tag_type \<Rightarrow> iteration_count_type" where
  "TAG_TO_ITERATION_COUNT t = ucast (0xffffffff AND t)"

definition NO_TAG :: tag_type where
  "NO_TAG = 0"

section \<open>Destinations\<close>

definition DESTINATION_TO_ADDRESS :: "destination_type \<Rightarrow> u32" where
  "DESTINATION_TO_ADDRESS d = drop_bit 4 d"

definition DESTINATION_TO_INPUT :: "destination_type \<Rightarrow> u32" where
  "DESTINATION_TO_INPUT d = drop_bit 3 d AND 1"

definition DESTINATION_TO_MATCHING_FUNCTION :: "destination_type \<Rightarrow> u32" where
  "DESTINATION_TO_MATCHING_FUNCTION d = d AND 3"

definition CREATE_DESTINATION :: "u32 \<Rightarrow> u32 \<Rightarrow> u32 \<Rightarrow> destination_type" where
  "CREATE_DESTINATION a input m = push_bit 3 (push_bit 1 a XOR input) XOR m"

definition MATCHING_ANY :: u32 where "MATCHING_ANY = 2"
definition MATCHING_BOTH :: u32 where "MATCHING_BOTH = 1"
definition MATCHING_ONE :: u32 where "MATCHING_ONE = 0"
definition INPUT_ONE :: u32 where "INPUT_ONE = 0"
definition INPUT_TWO :: u32 where "INPUT_TWO = 1"
definition TRUE :: data_type where "TRUE = 1"
definition FALSE :: data_type where "FALSE = 0"
definition BOTH_OUTPUT_MARKER :: marker_type where "BOTH_OUTPUT_MARKER = 1"
definition ONE_OUTPUT_MARKER :: marker_type where "ONE_OUTPUT_MARKER = 0"

definition OUTPUTD_DESTINATION :: destination_type where
  "OUTPUTD_DESTINATION = CREATE_DESTINATION (push_bit 28 1 - 1) 0 MATCHING_ONE"

definition OUTPUTS_DESTINATION :: destination_type where
  "OUTPUTS_DESTINATION = CREATE_DESTINATION (push_bit 28 1 - 2) 0 MATCHING_ONE"

definition REGISTER_INPUT_HANDLER_DESTINATION :: destination_type where
  "REGISTER_INPUT_HANDLER_DESTINATION = CREATE_DESTINATION (push_bit 28 1 - 3) 0 MATCHING_ONE"

definition DEREGISTER_INPUT_HANDLER_DESTINATION :: destination_type where
  "DEREGISTER_INPUT_HANDLER_DESTINATION = CREATE_DESTINATION (push_bit 28 1 - 4) 0 MATCHING_ONE"

definition DEV_NULL_DESTINATION :: destination_type where
  "DEV_NULL_DESTINATION = CREATE_DESTINATION (push_bit 28 1 - 5) 0 MATCHING_ONE"

lemmas constant_defs = MATCHING_ANY_def MATCHING_BOTH_def MATCHING_ONE_def INPUT_ONE_def
  INPUT_TWO_def TRUE_def FALSE_def BOTH_OUTPUT_MARKER_def ONE_OUTPUT_MARKER_def NO_TAG_def

lemmas destination_defs = DESTINATION_TO_ADDRESS_def DESTINATION_TO_INPUT_def
  DESTINATION_TO_MATCHING_FUNCTION_def CREATE_DESTINATION_def

section \<open>Structs\<close>

datatype instruction_literal_type = NONE | ONE | TWO

fun literal_val :: "instruction_literal_type \<Rightarrow> u32" where
  "literal_val NONE = 0"
| "literal_val ONE = 1"
| "literal_val TWO = 2"

record instruction =
  inst_opcode :: u32
  inst_destination_1 :: destination_type
  inst_destination_2 :: destination_type
  inst_marker :: marker_type
  inst_literal_1 :: data_type
  inst_literal_2 :: data_type
  inst_instruction_literal :: u32

record execution_packet =
  pkt_data_1 :: data_type
  pkt_data_2 :: data_type
  pkt_opcode :: u32
  pkt_tag :: tag_type
  pkt_destination_1 :: destination_type
  pkt_destination_2 :: destination_type
  pkt_input :: destination_type
  pkt_marker :: marker_type

record token_type =
  tok_destination :: destination_type
  tok_data :: data_type
  tok_tag :: tag_type

record ready_token_pair_type =
  token_1 :: token_type
  token_2 :: token_type

record execution_result =
  output_1 :: token_type
  output_2 :: token_type
  res_marker :: marker_type

section \<open>Packing and unpacking\<close>

text \<open>
  Packing a destination and taking it apart returns each part, for every address of 28 bits,
  input bit and matching function the machine uses.
\<close>

theorem destination_roundtrip:
  assumes "a < 2 ^ 28" and "i < 2" and "m < 4"
  shows "DESTINATION_TO_ADDRESS (CREATE_DESTINATION a i m) = a
       \<and> DESTINATION_TO_INPUT (CREATE_DESTINATION a i m) = i
       \<and> DESTINATION_TO_MATCHING_FUNCTION (CREATE_DESTINATION a i m) = m"
proof -
  have a: "take_bit 28 a = a" and i: "take_bit 1 i = i" and m: "take_bit 2 m = m"
    by (rule small_word_take_bit, use assms in \<open>simp add: word_less_def\<close>)+
  note small = small_word_bit [OF a] small_word_bit [OF i] small_word_bit [OF m]
  show ?thesis
    by (intro conjI bit_word_eqI) (auto simp: destination_defs bit_simps dest: small)
qed

theorem destination_roundtrip_witness:
  "DESTINATION_TO_ADDRESS (CREATE_DESTINATION 4660 1 2) = 4660
   \<and> DESTINATION_TO_INPUT (CREATE_DESTINATION 4660 1 2) = 1
   \<and> DESTINATION_TO_MATCHING_FUNCTION (CREATE_DESTINATION 4660 1 2) = 2"
  by (rule destination_roundtrip) simp_all

text \<open>
  Taking any 32-bit destination apart and packing the parts again clears bit 2 and keeps every
  other bit: of the three bits the type reserves for the matching function the macros carry two.
\<close>

theorem destination_recompose:
  "CREATE_DESTINATION (DESTINATION_TO_ADDRESS d) (DESTINATION_TO_INPUT d)
     (DESTINATION_TO_MATCHING_FUNCTION d) = d AND NOT 4"
proof (rule bit_word_eqI)
  fix n
  assume n: "n < LENGTH(32)"
  consider "n < 2" | "n = 2" | "n = 3" | "4 \<le> n" by linarith
  then show "bit (CREATE_DESTINATION (DESTINATION_TO_ADDRESS d) (DESTINATION_TO_INPUT d)
     (DESTINATION_TO_MATCHING_FUNCTION d)) n = bit (d AND NOT 4) n"
    using n by cases (auto simp: destination_defs bit_simps)
qed

lemma tag_parts [simp]:
  "TAG_TO_TAG_AREA (CREATE_TAG a c) = a" "TAG_TO_ITERATION_COUNT (CREATE_TAG a c) = c"
  by (rule bit_word_eqI; auto simp: TAG_TO_TAG_AREA_def TAG_TO_ITERATION_COUNT_def CREATE_TAG_def
      bit_simps dest: bit_imp_le_length)+

text \<open>
  A tag area and an iteration count packed into a tag are both read back, and every tag is the
  packing of its two halves.
\<close>

theorem tag_roundtrip:
  "TAG_TO_TAG_AREA (CREATE_TAG a c) = a \<and> TAG_TO_ITERATION_COUNT (CREATE_TAG a c) = c
   \<and> CREATE_TAG (TAG_TO_TAG_AREA t) (TAG_TO_ITERATION_COUNT t) = t"
  by (intro conjI bit_word_eqI)
     (auto simp: TAG_TO_TAG_AREA_def TAG_TO_ITERATION_COUNT_def CREATE_TAG_def bit_simps
       dest: bit_imp_le_length)

end
