(* ===== verification/Store_Interface.thy ===== *)
theory Store_Interface
  imports Prelude_AF
begin

text \<open>
  What the units promise each other about their tables. A store maps keys to values; the matching
  unit keeps waiting tokens in one (a table of chains), the processing unit the tokens held back in
  trap mode in another (the open-addressing table of khash.h).
\<close>

section \<open>The values a map holds\<close>

definition map_contents :: "('k \<Rightarrow> 'v option) \<Rightarrow> 'v multiset" where
  "map_contents m = image_mset (\<lambda>k. the (m k)) (mset_set (dom m))"

lemma map_contents_empty [simp]: "map_contents (\<lambda>_. None) = {#}"
  by (simp add: map_contents_def dom_def)

lemma map_contents_insert:
  assumes "finite (dom m)" and "m k = None"
  shows "map_contents (m(k \<mapsto> v)) = add_mset v (map_contents m)"
proof -
  have k: "k \<notin> dom m" using assms(2) by auto
  have "image_mset (\<lambda>x. the ((m(k \<mapsto> v)) x)) (mset_set (dom m))
      = image_mset (\<lambda>x. the (m x)) (mset_set (dom m))"
    using assms(1) k by (intro image_mset_cong) auto
  then show ?thesis
    using assms(1) k by (simp add: map_contents_def)
qed

lemma map_contents_delete:
  assumes "finite (dom m)" and "m k = Some v"
  shows "map_contents m = add_mset v (map_contents (m(k := None)))"
proof -
  have "m = (m(k := None))(k \<mapsto> v)"
    using assms(2) by auto
  moreover have "map_contents ((m(k := None))(k \<mapsto> v)) = add_mset v (map_contents (m(k := None)))"
    using assms(1) by (intro map_contents_insert) auto
  ultimately show ?thesis by simp
qed

section \<open>Stores\<close>

text \<open>
  \<open>put\<close> is promised for absent keys, \<open>del\<close> for present ones; \<open>room\<close> says that one
  more entry fits.
\<close>

locale store =
  fixes inv :: "'s \<Rightarrow> bool"
    and room :: "'s \<Rightarrow> bool"
    and lookup :: "'s \<Rightarrow> 'k \<Rightarrow> 'v option"
    and put :: "'k \<Rightarrow> 'v \<Rightarrow> 's \<Rightarrow> 's"
    and del :: "'k \<Rightarrow> 's \<Rightarrow> 's"
  assumes finite_lookup: "inv s \<Longrightarrow> finite (dom (lookup s))"
    and inv_put: "inv s \<Longrightarrow> room s \<Longrightarrow> lookup s k = None \<Longrightarrow> inv (put k v s)"
    and lookup_put: "inv s \<Longrightarrow> room s \<Longrightarrow> lookup s k = None \<Longrightarrow>
      lookup (put k v s) = (lookup s)(k \<mapsto> v)"
    and inv_del: "inv s \<Longrightarrow> lookup s k \<noteq> None \<Longrightarrow> inv (del k s)"
    and lookup_del: "inv s \<Longrightarrow> lookup s k \<noteq> None \<Longrightarrow>
      lookup (del k s) = (lookup s)(k := None)"
begin

lemma lookup_put_same:
  "inv s \<Longrightarrow> room s \<Longrightarrow> lookup s k = None \<Longrightarrow> lookup (put k v s) k = Some v"
  by (simp add: lookup_put)

lemma lookup_put_other:
  "inv s \<Longrightarrow> room s \<Longrightarrow> lookup s k = None \<Longrightarrow> j \<noteq> k \<Longrightarrow> lookup (put k v s) j = lookup s j"
  by (simp add: lookup_put)

lemma lookup_del_same: "inv s \<Longrightarrow> lookup s k \<noteq> None \<Longrightarrow> lookup (del k s) k = None"
  by (simp add: lookup_del)

lemma lookup_del_other:
  "inv s \<Longrightarrow> lookup s k \<noteq> None \<Longrightarrow> j \<noteq> k \<Longrightarrow> lookup (del k s) j = lookup s j"
  by (simp add: lookup_del)

lemma put_del:
  assumes "inv s" and "room s" and "lookup s k = None"
  shows "inv (del k (put k v s)) \<and> lookup (del k (put k v s)) = lookup s"
  using assms inv_put lookup_put inv_del lookup_del by (simp add: fun_upd_idem)

lemma contents_put:
  "inv s \<Longrightarrow> room s \<Longrightarrow> lookup s k = None \<Longrightarrow>
   map_contents (lookup (put k v s)) = add_mset v (map_contents (lookup s))"
  by (simp add: lookup_put map_contents_insert finite_lookup)

lemma contents_del:
  "inv s \<Longrightarrow> lookup s k = Some v \<Longrightarrow>
   map_contents (lookup s) = add_mset v (map_contents (lookup (del k s)))"
  by (simp add: lookup_del map_contents_delete finite_lookup)

end

text \<open>A store whose \<open>put\<close> also replaces the value of a present key.\<close>

locale overwriting_store = store inv room lookup put del
  for inv :: "'s \<Rightarrow> bool" and room :: "'s \<Rightarrow> bool" and lookup :: "'s \<Rightarrow> 'k \<Rightarrow> 'v option"
    and put :: "'k \<Rightarrow> 'v \<Rightarrow> 's \<Rightarrow> 's" and del :: "'k \<Rightarrow> 's \<Rightarrow> 's" +
  assumes inv_overwrite: "inv s \<Longrightarrow> room s \<Longrightarrow> lookup s k \<noteq> None \<Longrightarrow> inv (put k v s)"
    and lookup_overwrite: "inv s \<Longrightarrow> room s \<Longrightarrow> lookup s k \<noteq> None \<Longrightarrow>
      lookup (put k v s) = (lookup s)(k \<mapsto> v)"
begin

lemma inv_put_any: "inv s \<Longrightarrow> room s \<Longrightarrow> inv (put k v s)"
  by (cases "lookup s k = None") (auto intro: inv_put inv_overwrite)

lemma lookup_put_any: "inv s \<Longrightarrow> room s \<Longrightarrow> lookup (put k v s) = (lookup s)(k \<mapsto> v)"
  by (cases "lookup s k = None") (auto simp: lookup_put lookup_overwrite)

end

end
