(* ===== verification/Matching_Unit.thy ===== *)
theory Matching_Unit
  imports Machine_Types Store_Interface
begin

text \<open>
  matching_unit.c and matching_unit.h: the table of waiting tokens, a table of chains indexed by a
  hash of tag and instruction address, and one iteration of the loop of run_matching_unit, which
  pairs the two inputs of an instruction. A chain of heap nodes is the list of its nodes, first
  node first.
\<close>

section \<open>State and operations\<close>

record key_type =
  key_tag :: tag_type
  key_destination :: destination_type

record table_list_type =
  tl_key :: key_type
  tl_value :: token_type

datatype table_element_type = EMPTY | LIST

text \<open>In an EMPTY bucket the pointer is uninitialised or freed, and the list means nothing.\<close>

record table_elements =
  te_element_type :: table_element_type
  te_element :: "table_list_type list"

record token_waiting_table_type =
  twt_num_elements :: u64
  twt_table_size :: u64
  twt_table :: "table_elements list"

definition token_to_key :: "token_type \<Rightarrow> key_type" where
  "token_to_key token = \<lparr>key_tag = tok_tag token,
     key_destination = DESTINATION_TO_ADDRESS (tok_destination token)\<rparr>"

definition key_to_index :: "token_waiting_table_type \<Rightarrow> key_type \<Rightarrow> nat" where
  "key_to_index t key = unat ((key_tag key + ucast (key_destination key)) mod twt_table_size t)"

definition key_equal :: "key_type \<Rightarrow> key_type \<Rightarrow> bool" where
  "key_equal key1 key2 \<longleftrightarrow>
     key_tag key1 = key_tag key2 \<and> key_destination key1 = key_destination key2"

definition ready_token_pair_from_tokens :: "token_type \<Rightarrow> token_type \<Rightarrow> ready_token_pair_type" where
  "ready_token_pair_from_tokens t1 t2 =
     (if DESTINATION_TO_INPUT (tok_destination t1) = INPUT_ONE
      then \<lparr>token_1 = t1, token_2 = t2\<rparr>
      else \<lparr>token_1 = t2, token_2 = t1\<rparr>)"

text \<open>The table as run_matching_unit sets it up; \<open>junk\<close> is what malloc left in the pointers.\<close>

definition init_waiting_table :: "table_list_type list \<Rightarrow> u32 \<Rightarrow> token_waiting_table_type" where
  "init_waiting_table junk max_table_size =
     \<lparr>twt_num_elements = 0, twt_table_size = ucast max_table_size,
      twt_table = replicate (unat max_table_size) \<lparr>te_element_type = EMPTY, te_element = junk\<rparr>\<rparr>"

text \<open>The search loop over a chain.\<close>

fun find_in_chain :: "key_type \<Rightarrow> table_list_type list \<Rightarrow> token_type option" where
  "find_in_chain key [] = None"
| "find_in_chain key (cur # rest) =
     (if key_equal key (tl_key cur) then Some (tl_value cur) else find_in_chain key rest)"

definition add_to_waiting_table ::
  "key_type \<Rightarrow> token_type \<Rightarrow> token_waiting_table_type \<Rightarrow> token_waiting_table_type" where
  "add_to_waiting_table key token t =
     (let element_index = key_to_index t key;
          element = twt_table t ! element_index;
          next = (if te_element_type element = EMPTY then [] else te_element element)
      in t\<lparr>twt_table := (twt_table t)[element_index :=
            \<lparr>te_element_type = LIST,
             te_element = \<lparr>tl_key = key, tl_value = token\<rparr> # next\<rparr>]\<rparr>)"

text \<open>The loop that unlinks a node behind the first one.\<close>

fun unlink_after :: "key_type \<Rightarrow> table_list_type list \<Rightarrow> table_list_type list" where
  "unlink_after key [] = []"
| "unlink_after key (cur # rest) =
     (if key_equal (tl_key cur) key then rest else cur # unlink_after key rest)"

definition remove_from_waiting_table ::
  "key_type \<Rightarrow> token_waiting_table_type \<Rightarrow> token_waiting_table_type outcome" where
  "remove_from_waiting_table key t =
     (let element_index = key_to_index t key;
          element = twt_table t ! element_index
      in if te_element_type element = EMPTY then Fault
         else case te_element element of
           [] \<Rightarrow> Fault
         | first # rest \<Rightarrow>
             Ok (t\<lparr>twt_table := (twt_table t)[element_index :=
               (if key_equal (tl_key first) key
                then if rest = [] then element\<lparr>te_element_type := EMPTY\<rparr>
                     else element\<lparr>te_element := rest\<rparr>
                else element\<lparr>te_element := first # unlink_after key rest\<rparr>)]\<rparr>))"

text \<open>
  One iteration of the loop of run_matching_unit: the new table and what is added to the queue of
  ready pairs. \<open>junk\<close> is the uninitialised second half of the pair on the stack.
\<close>

definition matching_unit_step :: "token_type \<Rightarrow> token_type \<Rightarrow> token_waiting_table_type
    \<Rightarrow> (token_waiting_table_type \<times> ready_token_pair_type list) outcome" where
  "matching_unit_step junk next_token t =
     (let matching_function = DESTINATION_TO_MATCHING_FUNCTION (tok_destination next_token)
      in if matching_function = MATCHING_ONE \<or> matching_function = MATCHING_ANY
         then Ok (t, [\<lparr>token_1 = next_token, token_2 = junk\<rparr>])
         else if matching_function = MATCHING_BOTH
         then let key = token_to_key next_token;
                  element = twt_table t ! key_to_index t key
              in if te_element_type element = EMPTY
                 then Ok (add_to_waiting_table key next_token t, [])
                 else case find_in_chain key (te_element element) of
                     None \<Rightarrow> Ok (add_to_waiting_table key next_token t, [])
                   | Some found \<Rightarrow>
                       outcome_bind (remove_from_waiting_table key t)
                         (\<lambda>t'. Ok (t', [ready_token_pair_from_tokens next_token found]))
         else Ok (t, []))"

text \<open>The loop over a sequence of arriving tokens.\<close>

fun matching_unit_run :: "token_type \<Rightarrow> token_type list \<Rightarrow> token_waiting_table_type
    \<Rightarrow> (token_waiting_table_type \<times> ready_token_pair_type list) outcome" where
  "matching_unit_run junk [] t = Ok (t, [])"
| "matching_unit_run junk (tok # toks) t =
     outcome_bind (matching_unit_step junk tok t) (\<lambda>(t1, out1).
       outcome_bind (matching_unit_run junk toks t1) (\<lambda>(t2, out2). Ok (t2, out1 @ out2)))"

section \<open>The table as a map\<close>

definition chain_at :: "token_waiting_table_type \<Rightarrow> nat \<Rightarrow> table_list_type list" where
  "chain_at t i = (if te_element_type (twt_table t ! i) = EMPTY then []
     else te_element (twt_table t ! i))"

definition waiting_lookup :: "token_waiting_table_type \<Rightarrow> key_type \<Rightarrow> token_type option" where
  "waiting_lookup t key = find_in_chain key (chain_at t (key_to_index t key))"

text \<open>
  The invariant: the table has the size it says, a bucket marked LIST has a node, every node hangs
  in the bucket of its key, and no key occurs twice.
\<close>

definition waiting_table_inv :: "token_waiting_table_type \<Rightarrow> bool" where
  "waiting_table_inv t \<longleftrightarrow>
     twt_table t \<noteq> [] \<and> unat (twt_table_size t) = length (twt_table t) \<and>
     (\<forall>i < length (twt_table t).
        (te_element_type (twt_table t ! i) = LIST \<longrightarrow> te_element (twt_table t ! i) \<noteq> []) \<and>
        distinct (map tl_key (chain_at t i)) \<and>
        (\<forall>n \<in> set (chain_at t i). key_to_index t (tl_key n) = i))"

text \<open>The total version of removal, for keys the table holds.\<close>

definition waiting_delete :: "key_type \<Rightarrow> token_waiting_table_type \<Rightarrow> token_waiting_table_type" where
  "waiting_delete key t = (case remove_from_waiting_table key t of Ok t' \<Rightarrow> t' | _ \<Rightarrow> t)"

lemma key_equal_iff [simp]: "key_equal a b \<longleftrightarrow> a = b"
  by (cases a; cases b) (simp add: key_equal_def)

lemma find_in_chain_None: "find_in_chain key ns = None \<longleftrightarrow> key \<notin> tl_key ` set ns"
  by (induction ns) auto

lemma find_in_chain_SomeD:
  "find_in_chain key ns = Some v \<Longrightarrow> \<exists>n \<in> set ns. tl_key n = key \<and> tl_value n = v"
  by (induction ns) (auto split: if_splits)

lemma unlink_after_absent: "key \<notin> tl_key ` set ns \<Longrightarrow> unlink_after key ns = ns"
  by (induction ns) auto

lemma set_unlink_after: "set (unlink_after key ns) \<subseteq> set ns"
  by (induction ns) auto

lemma distinct_unlink_after:
  "distinct (map tl_key ns) \<Longrightarrow> distinct (map tl_key (unlink_after key ns))"
  by (induction ns) (auto dest: subsetD [OF set_unlink_after])

lemma find_unlink_after:
  "distinct (map tl_key ns) \<Longrightarrow>
   find_in_chain k (unlink_after key ns) = (if k = key then None else find_in_chain k ns)"
  by (induction ns) (auto simp: find_in_chain_None)

lemma key_to_index_less:
  assumes "waiting_table_inv t"
  shows "key_to_index t key < length (twt_table t)"
proof -
  have "0 < unat (twt_table_size t)" and "unat (twt_table_size t) = length (twt_table t)"
    using assms by (auto simp: waiting_table_inv_def)
  then show ?thesis
    by (simp add: key_to_index_def unat_mod)
qed

lemma key_to_index_table [simp]: "key_to_index (t\<lparr>twt_table := tb\<rparr>) key = key_to_index t key"
  by (simp add: key_to_index_def)

section \<open>Buckets, and the laws of the waiting table\<close>


definition bucket_chain :: "table_elements \<Rightarrow> table_list_type list" where
  "bucket_chain e = (if te_element_type e = EMPTY then [] else te_element e)"

lemma chain_at_bucket: "chain_at t i = bucket_chain (twt_table t ! i)"
  by (simp add: chain_at_def bucket_chain_def)

definition bucket_ok :: "token_waiting_table_type \<Rightarrow> nat \<Rightarrow> table_elements \<Rightarrow> bool" where
  "bucket_ok t i e \<longleftrightarrow>
     (te_element_type e = LIST \<longrightarrow> te_element e \<noteq> []) \<and> distinct (map tl_key (bucket_chain e)) \<and>
     (\<forall>n \<in> set (bucket_chain e). key_to_index t (tl_key n) = i)"

lemma bucket_ok_table [simp]: "bucket_ok (t\<lparr>twt_table := tb\<rparr>) i e = bucket_ok t i e"
  by (simp add: bucket_ok_def)

lemma waiting_table_inv_alt:
  "waiting_table_inv t \<longleftrightarrow> twt_table t \<noteq> [] \<and> unat (twt_table_size t) = length (twt_table t) \<and>
     (\<forall>i < length (twt_table t). bucket_ok t i (twt_table t ! i))"
  by (simp add: waiting_table_inv_def bucket_ok_def chain_at_bucket)

lemma bucket_update_inv:
  assumes "waiting_table_inv t" and "bucket_ok t i e"
  shows "waiting_table_inv (t\<lparr>twt_table := (twt_table t)[i := e]\<rparr>)"
  using assms by (simp add: waiting_table_inv_alt) (metis nth_list_update_eq nth_list_update_neq)

lemma lookup_bucket_update:
  assumes "waiting_table_inv t"
  shows "waiting_lookup (t\<lparr>twt_table := (twt_table t)[i := e]\<rparr>) k
       = (if key_to_index t k = i then find_in_chain k (bucket_chain e) else waiting_lookup t k)"
  using key_to_index_less [OF assms, of k]
  by (simp add: waiting_lookup_def chain_at_bucket nth_list_update)

lemma find_in_other_bucket:
  "bucket_ok t i e \<Longrightarrow> key_to_index t k \<noteq> i \<Longrightarrow> find_in_chain k (bucket_chain e) = None"
  by (auto simp: find_in_chain_None bucket_ok_def)

lemma bucket_ok_at: "waiting_table_inv t \<Longrightarrow>
  bucket_ok t (key_to_index t k) (twt_table t ! key_to_index t k)"
  using key_to_index_less by (auto simp: waiting_table_inv_alt)

lemma waiting_lookup_bucket:
  "waiting_lookup t k = find_in_chain k (bucket_chain (twt_table t ! key_to_index t k))"
  by (simp add: waiting_lookup_def chain_at_bucket)

definition put_bucket :: "key_type \<Rightarrow> token_type \<Rightarrow> table_elements \<Rightarrow> table_elements" where
  "put_bucket key token e = \<lparr>te_element_type = LIST,
     te_element = \<lparr>tl_key = key, tl_value = token\<rparr> # bucket_chain e\<rparr>"

lemma bucket_chain_put:
  "bucket_chain (put_bucket key token e) = \<lparr>tl_key = key, tl_value = token\<rparr> # bucket_chain e"
  by (simp add: put_bucket_def bucket_chain_def)

lemma add_to_waiting_table_bucket:
  "add_to_waiting_table key token t = t\<lparr>twt_table := (twt_table t)[key_to_index t key :=
     put_bucket key token (twt_table t ! key_to_index t key)]\<rparr>"
  by (simp add: add_to_waiting_table_def put_bucket_def bucket_chain_def Let_def)

lemma add_inv:
  assumes "waiting_table_inv t" and "waiting_lookup t key = None"
  shows "waiting_table_inv (add_to_waiting_table key token t)"
  using assms bucket_ok_at [OF assms(1), of key]
  by (auto simp: add_to_waiting_table_bucket waiting_lookup_bucket find_in_chain_None
      bucket_ok_def put_bucket_def bucket_chain_def intro!: bucket_update_inv)

lemma add_lookup:
  assumes "waiting_table_inv t"
  shows "waiting_lookup (add_to_waiting_table key token t) = (waiting_lookup t)(key \<mapsto> token)"
proof
  fix k
  show "waiting_lookup (add_to_waiting_table key token t) k = ((waiting_lookup t)(key \<mapsto> token)) k"
    by (auto simp: add_to_waiting_table_bucket lookup_bucket_update [OF assms] bucket_chain_put
        waiting_lookup_bucket [of t])
qed

definition del_bucket :: "key_type \<Rightarrow> table_elements \<Rightarrow> table_elements" where
  "del_bucket key e = (case te_element e of
     [] \<Rightarrow> e
   | first # rest \<Rightarrow>
       if tl_key first = key then if rest = [] then e\<lparr>te_element_type := EMPTY\<rparr>
         else e\<lparr>te_element := rest\<rparr>
       else e\<lparr>te_element := first # unlink_after key rest\<rparr>)"

lemma bucket_chain_del:
  "te_element_type e = LIST \<Longrightarrow> bucket_chain (del_bucket key e) = unlink_after key (bucket_chain e)"
  by (cases "te_element e") (auto simp: del_bucket_def bucket_chain_def)

lemma del_bucket_nonempty:
  "te_element_type e = LIST \<Longrightarrow> te_element e \<noteq> [] \<Longrightarrow>
   te_element_type (del_bucket key e) = LIST \<Longrightarrow> te_element (del_bucket key e) \<noteq> []"
  by (cases "te_element e") (auto simp: del_bucket_def split: if_splits)

lemma del_bucket_ok:
  assumes "bucket_ok t i e" and "te_element_type e = LIST"
  shows "bucket_ok t i (del_bucket key e)"
  using assms set_unlink_after [of key "bucket_chain e"]
  by (auto simp: bucket_ok_def bucket_chain_del distinct_unlink_after del_bucket_nonempty)

lemma remove_present:
  assumes inv: "waiting_table_inv t" and k: "waiting_lookup t key \<noteq> None"
  shows "remove_from_waiting_table key t = Ok (t\<lparr>twt_table := (twt_table t)[key_to_index t key :=
           del_bucket key (twt_table t ! key_to_index t key)]\<rparr>)"
    and "te_element_type (twt_table t ! key_to_index t key) = LIST"
proof -
  from k have ne: "bucket_chain (twt_table t ! key_to_index t key) \<noteq> []"
    by (auto simp: waiting_lookup_bucket)
  then show l: "te_element_type (twt_table t ! key_to_index t key) = LIST"
    by (cases "te_element_type (twt_table t ! key_to_index t key)") (simp_all add: bucket_chain_def)
  from ne l show "remove_from_waiting_table key t = Ok (t\<lparr>twt_table := (twt_table t)[
      key_to_index t key := del_bucket key (twt_table t ! key_to_index t key)]\<rparr>)"
    by (auto simp: remove_from_waiting_table_def Let_def bucket_chain_def del_bucket_def
        split: list.splits)
qed

lemma waiting_delete_present:
  assumes "waiting_table_inv t" and "waiting_lookup t key \<noteq> None"
  shows "remove_from_waiting_table key t = Ok (waiting_delete key t)"
    and "waiting_delete key t = t\<lparr>twt_table := (twt_table t)[key_to_index t key :=
           del_bucket key (twt_table t ! key_to_index t key)]\<rparr>"
  using remove_present [OF assms] by (simp_all add: waiting_delete_def)

lemma delete_inv:
  assumes "waiting_table_inv t" and "waiting_lookup t key \<noteq> None"
  shows "waiting_table_inv (waiting_delete key t)"
  unfolding waiting_delete_present(2) [OF assms]
  using assms by (intro bucket_update_inv del_bucket_ok bucket_ok_at remove_present(2))

lemma delete_lookup:
  assumes "waiting_table_inv t" and "waiting_lookup t key \<noteq> None"
  shows "waiting_lookup (waiting_delete key t) = (waiting_lookup t)(key := None)"
proof
  fix k
  have d: "distinct (map tl_key (bucket_chain (twt_table t ! key_to_index t key)))"
    using bucket_ok_at [OF assms(1), of key] by (simp add: bucket_ok_def)
  show "waiting_lookup (waiting_delete key t) k = ((waiting_lookup t)(key := None)) k"
    unfolding waiting_delete_present(2) [OF assms]
    using d remove_present(2) [OF assms]
    by (auto simp: lookup_bucket_update [OF assms(1)] bucket_chain_del find_unlink_after
        waiting_lookup_bucket [of t])
qed

lemma finite_waiting_lookup:
  assumes "waiting_table_inv t"
  shows "finite (dom (waiting_lookup t))"
proof (rule finite_subset)
  show "dom (waiting_lookup t) \<subseteq> (\<Union>i < length (twt_table t). tl_key ` set (chain_at t i))"
    using key_to_index_less [OF assms] find_in_chain_SomeD
    by (fastforce simp: waiting_lookup_def)
qed simp

interpretation wt: store waiting_table_inv "\<lambda>_. True" waiting_lookup add_to_waiting_table
  waiting_delete
  by unfold_locales (simp_all add: finite_waiting_lookup add_inv add_lookup delete_inv delete_lookup)

lemma init_waiting_table_inv:
  assumes "0 < n"
  shows "waiting_table_inv (init_waiting_table junk n)
       \<and> waiting_lookup (init_waiting_table junk n) = (\<lambda>_. None)"
proof -
  have n: "0 < unat n" using assms by (simp add: unat_gt_0)
  have inv: "waiting_table_inv (init_waiting_table junk n)"
    using n by (simp add: waiting_table_inv_alt init_waiting_table_def bucket_ok_def
        bucket_chain_def unat_ucast_u32_u64)
  moreover have "waiting_lookup (init_waiting_table junk n) k = None" for k
    using key_to_index_less [OF inv, of k]
    by (simp add: waiting_lookup_bucket init_waiting_table_def bucket_chain_def)
  ultimately show ?thesis by auto
qed


section \<open>One iteration\<close>

abbreviation matching_function_of :: "token_type \<Rightarrow> u32" where
  "matching_function_of tok \<equiv> DESTINATION_TO_MATCHING_FUNCTION (tok_destination tok)"

text \<open>What the matching unit promises, over the map of waiting tokens.\<close>

definition match_spec :: "token_type \<Rightarrow> token_type \<Rightarrow> (key_type \<Rightarrow> token_type option)
    \<Rightarrow> (key_type \<Rightarrow> token_type option) \<times> ready_token_pair_type list" where
  "match_spec junk tok waiting =
     (if matching_function_of tok = MATCHING_ONE \<or> matching_function_of tok = MATCHING_ANY
      then (waiting, [\<lparr>token_1 = tok, token_2 = junk\<rparr>])
      else if matching_function_of tok = MATCHING_BOTH
      then case waiting (token_to_key tok) of
          None \<Rightarrow> (waiting(token_to_key tok \<mapsto> tok), [])
        | Some partner \<Rightarrow> (waiting(token_to_key tok := None),
                           [ready_token_pair_from_tokens tok partner])
      else (waiting, []))"

lemma matching_unit_step_lookup:
  assumes "waiting_table_inv t"
  shows "matching_unit_step junk tok t =
     (if matching_function_of tok = MATCHING_ONE \<or> matching_function_of tok = MATCHING_ANY
      then Ok (t, [\<lparr>token_1 = tok, token_2 = junk\<rparr>])
      else if matching_function_of tok = MATCHING_BOTH
      then case waiting_lookup t (token_to_key tok) of
          None \<Rightarrow> Ok (add_to_waiting_table (token_to_key tok) tok t, [])
        | Some partner \<Rightarrow> Ok (waiting_delete (token_to_key tok) t,
                           [ready_token_pair_from_tokens tok partner])
      else Ok (t, []))"
proof (cases "waiting_lookup t (token_to_key tok)")
  case None
  then show ?thesis
    by (auto simp: matching_unit_step_def Let_def waiting_lookup_bucket bucket_chain_def
        split: option.splits if_splits)
next
  case (Some partner)
  then have ne: "waiting_lookup t (token_to_key tok) \<noteq> None" by simp
  note rem = waiting_delete_present(1) [OF assms ne] and ty = remove_present(2) [OF assms ne]
  from Some ty have "find_in_chain (token_to_key tok)
      (te_element (twt_table t ! key_to_index t (token_to_key tok))) = Some partner"
    by (simp add: waiting_lookup_bucket bucket_chain_def)
  with Some rem ty show ?thesis
    by (simp add: matching_unit_step_def Let_def)
qed

lemma matching_unit_step_refines:
  assumes "waiting_table_inv t"
  shows "\<exists>t' out. matching_unit_step junk tok t = Ok (t', out) \<and> waiting_table_inv t' \<and>
     match_spec junk tok (waiting_lookup t) = (waiting_lookup t', out)"
  using assms by (cases "waiting_lookup t (token_to_key tok)")
    (simp_all add: matching_unit_step_lookup match_spec_def wt.lookup_put wt.inv_put wt.lookup_del
       wt.inv_del)

section \<open>Runs\<close>

fun match_spec_run :: "token_type \<Rightarrow> token_type list \<Rightarrow> (key_type \<Rightarrow> token_type option)
    \<Rightarrow> (key_type \<Rightarrow> token_type option) \<times> ready_token_pair_type list" where
  "match_spec_run junk [] waiting = (waiting, [])"
| "match_spec_run junk (tok # toks) waiting =
     (let (waiting1, out1) = match_spec junk tok waiting;
          (waiting2, out2) = match_spec_run junk toks waiting1
      in (waiting2, out1 @ out2))"

lemma matching_unit_run_refines:
  assumes "waiting_table_inv t"
  shows "\<exists>t' out. matching_unit_run junk toks t = Ok (t', out) \<and> waiting_table_inv t' \<and>
     match_spec_run junk toks (waiting_lookup t) = (waiting_lookup t', out)"
  using assms
proof (induction toks arbitrary: t)
  case Nil
  then show ?case by simp
next
  case (Cons tok toks)
  obtain t1 out1 where 1: "matching_unit_step junk tok t = Ok (t1, out1)" "waiting_table_inv t1"
    "match_spec junk tok (waiting_lookup t) = (waiting_lookup t1, out1)"
    using matching_unit_step_refines [OF Cons.prems] by blast
  from Cons.IH [OF 1(2)] 1 show ?case by fastforce
qed

text \<open>
  C7: the loop of the matching unit over any sequence of tokens, started on the empty table, never
  touches memory it does not own, and emits exactly the pairs of the specification: tokens for one
  input pass through, a token for two inputs waits for its partner and leaves with it.
\<close>

theorem matching_unit_implements_spec:
  assumes "0 < n"
  shows "\<exists>t' out. matching_unit_run junk toks (init_waiting_table garbage n) = Ok (t', out)
     \<and> match_spec_run junk toks (\<lambda>_. None) = (waiting_lookup t', out)"
  using matching_unit_run_refines [of "init_waiting_table garbage n" junk toks]
    init_waiting_table_inv [OF assms] by metis

section \<open>Waiting tokens\<close>

definition waiting_tokens_ok :: "(key_type \<Rightarrow> token_type option) \<Rightarrow> bool" where
  "waiting_tokens_ok waiting \<longleftrightarrow> finite (dom waiting) \<and>
     (\<forall>k v. waiting k = Some v \<longrightarrow> token_to_key v = k \<and> matching_function_of v = MATCHING_BOTH)"

lemma match_spec_ok:
  "waiting_tokens_ok waiting \<Longrightarrow> match_spec junk tok waiting = (waiting', out) \<Longrightarrow>
   waiting_tokens_ok waiting'"
  by (auto simp: match_spec_def waiting_tokens_ok_def split: if_splits option.splits)

text \<open>The tokens that really are in an emitted pair: the second one is stack garbage after a pass.\<close>

definition pair_tokens :: "ready_token_pair_type \<Rightarrow> token_type multiset" where
  "pair_tokens p = (if matching_function_of (token_1 p) = MATCHING_BOTH
     then {#token_1 p, token_2 p#} else {#token_1 p#})"

definition kept_tokens :: "token_type list \<Rightarrow> token_type multiset" where
  "kept_tokens toks = mset (filter (\<lambda>tok. matching_function_of tok \<noteq> 3) toks)"

lemma matching_function_cases:
  "matching_function_of tok \<in> {MATCHING_ONE, MATCHING_BOTH, MATCHING_ANY, 3}"
proof -
  have "matching_function_of tok = take_bit 2 (tok_destination tok)"
    by (rule bit_word_eqI) (auto simp: DESTINATION_TO_MATCHING_FUNCTION_def bit_simps)
  then have "unat (matching_function_of tok) < 4"
    using take_bit_nat_less_exp [of 2 "unat (tok_destination tok)"]
    by (simp add: unsigned_take_bit_eq)
  then have "unat (matching_function_of tok) \<in> {0, 1, 2, 3}" by auto
  then show ?thesis
    by (auto simp: constant_defs word_unat_eq_iff)
qed

lemma match_spec_conserves:
  assumes ok: "waiting_tokens_ok waiting" and step: "match_spec junk tok waiting = (waiting', out)"
  shows "kept_tokens [tok] + map_contents waiting
       = sum_list (map pair_tokens out) + map_contents waiting'"
proof -
  have fin: "finite (dom waiting)"
    and both: "\<And>k v. waiting k = Some v \<Longrightarrow> matching_function_of v = MATCHING_BOTH"
    using ok by (auto simp: waiting_tokens_ok_def)
  have pair: "pair_tokens (ready_token_pair_from_tokens tok v) = {#tok, v#}"
    if "matching_function_of tok = MATCHING_BOTH" "waiting k = Some v" for k v
    using that both by (auto simp: pair_tokens_def ready_token_pair_from_tokens_def)
  show ?thesis
  proof (cases "matching_function_of tok = MATCHING_BOTH")
    case True
    then show ?thesis
      using step fin pair [OF True] map_contents_delete [OF fin]
      by (auto simp: match_spec_def kept_tokens_def map_contents_insert constant_defs
          split: option.splits if_splits)
  next
    case False
    then show ?thesis
      using step matching_function_cases [of tok]
      by (auto simp: match_spec_def kept_tokens_def pair_tokens_def constant_defs split: if_splits)
  qed
qed

lemma match_spec_run_conserves:
  "waiting_tokens_ok waiting \<Longrightarrow> match_spec_run junk toks waiting = (waiting', out) \<Longrightarrow>
   waiting_tokens_ok waiting' \<and>
   kept_tokens toks + map_contents waiting = sum_list (map pair_tokens out) + map_contents waiting'"
proof (induction toks arbitrary: waiting waiting' out)
  case Nil
  then show ?case by (simp add: kept_tokens_def)
next
  case (Cons tok toks)
  obtain w1 o1 where 1: "match_spec junk tok waiting = (w1, o1)" by fastforce
  obtain w2 o2 where 2: "match_spec_run junk toks w1 = (w2, o2)" by fastforce
  note head = match_spec_conserves [OF Cons.prems(1) 1] and ok1 = match_spec_ok [OF Cons.prems(1) 1]
  have res: "waiting' = w2" "out = o1 @ o2" using Cons.prems(2) 1 2 by simp_all
  from Cons.IH [OF ok1 2] have ok2: "waiting_tokens_ok w2"
    and tail: "kept_tokens toks + map_contents w1 = sum_list (map pair_tokens o2) + map_contents w2"
    by simp_all
  have "kept_tokens (tok # toks) + map_contents waiting
      = kept_tokens toks + (kept_tokens [tok] + map_contents waiting)"
    by (simp add: kept_tokens_def)
  also have "\<dots> = sum_list (map pair_tokens o1) + (kept_tokens toks + map_contents w1)"
    unfolding head by (simp add: ac_simps)
  also have "\<dots> = sum_list (map pair_tokens out) + map_contents waiting'"
    unfolding tail res by (simp add: ac_simps)
  finally show ?case using ok2 res by simp
qed

text \<open>
  C31: no token is made up, and none is lost but for those with the unused matching function 3, which the
  code drops: the tokens that arrived at a fresh matching unit are those in the emitted pairs, those still
  waiting, and those with the matching function 3.
\<close>

theorem matching_unit_conserves_tokens:
  assumes "0 < n" and "matching_unit_run junk toks (init_waiting_table garbage n) = Ok (t', out)"
  shows "mset toks = sum_list (map pair_tokens out) + map_contents (waiting_lookup t')
    + mset (filter (\<lambda>tok. matching_function_of tok = 3) toks)"
proof -
  have "match_spec_run junk toks (\<lambda>_. None) = (waiting_lookup t', out)"
    using matching_unit_run_refines [of "init_waiting_table garbage n" junk toks]
      init_waiting_table_inv [OF assms(1)] assms(2) by auto
  moreover have "waiting_tokens_ok (\<lambda>_. None)" by (simp add: waiting_tokens_ok_def)
  ultimately have "kept_tokens toks = sum_list (map pair_tokens out) + map_contents (waiting_lookup t')"
    using match_spec_run_conserves [of "\<lambda>_. None" junk toks] by fastforce
  moreover have "mset toks = kept_tokens toks + mset (filter (\<lambda>tok. matching_function_of tok = 3) toks)"
    by (induction toks) (simp_all add: kept_tokens_def)
  ultimately show ?thesis by simp
qed

lemma input_cases: "DESTINATION_TO_INPUT d = INPUT_ONE \<or> DESTINATION_TO_INPUT d = INPUT_TWO"
proof (cases "bit d 3")
  case True
  then have "DESTINATION_TO_INPUT d = INPUT_TWO"
    by (intro bit_word_eqI) (auto simp: DESTINATION_TO_INPUT_def INPUT_TWO_def bit_simps)
  then show ?thesis ..
next
  case False
  then have "\<not> bit (DESTINATION_TO_INPUT d) k" for k
    by (cases k) (auto simp: DESTINATION_TO_INPUT_def bit_simps)
  then have "DESTINATION_TO_INPUT d = INPUT_ONE"
    by (intro bit_word_eqI) (simp add: INPUT_ONE_def)
  then show ?thesis ..
qed

definition pair_wellformed :: "ready_token_pair_type \<Rightarrow> bool" where
  "pair_wellformed p \<longleftrightarrow>
     matching_function_of (token_1 p) = MATCHING_ONE \<or> matching_function_of (token_1 p) = MATCHING_ANY \<or>
     (tok_tag (token_1 p) = tok_tag (token_2 p) \<and>
      DESTINATION_TO_ADDRESS (tok_destination (token_1 p))
        = DESTINATION_TO_ADDRESS (tok_destination (token_2 p)) \<and>
      (DESTINATION_TO_INPUT (tok_destination (token_1 p))
         \<noteq> DESTINATION_TO_INPUT (tok_destination (token_2 p)) \<longrightarrow>
       DESTINATION_TO_INPUT (tok_destination (token_1 p)) = INPUT_ONE \<and>
       DESTINATION_TO_INPUT (tok_destination (token_2 p)) = INPUT_TWO))"

lemma ready_pair_wellformed:
  assumes "token_to_key a = token_to_key b"
  shows "pair_wellformed (ready_token_pair_from_tokens a b)"
  using assms input_cases [of "tok_destination a"] input_cases [of "tok_destination b"]
  by (auto simp: pair_wellformed_def ready_token_pair_from_tokens_def token_to_key_def)

lemma match_spec_run_wellformed:
  "waiting_tokens_ok waiting \<Longrightarrow> match_spec_run junk toks waiting = (waiting', out) \<Longrightarrow>
   p \<in> set out \<Longrightarrow> pair_wellformed p"
proof (induction toks arbitrary: waiting waiting' out)
  case Nil
  then show ?case by simp
next
  case (Cons tok toks)
  obtain w1 o1 where 1: "match_spec junk tok waiting = (w1, o1)" by fastforce
  obtain w2 o2 where 2: "match_spec_run junk toks w1 = (w2, o2)" by fastforce
  have "pair_wellformed p" if "p \<in> set o1"
    using that 1 Cons.prems(1)
    by (auto simp: match_spec_def waiting_tokens_ok_def ready_pair_wellformed
        split: if_splits option.splits) (auto simp: pair_wellformed_def)
  with Cons.IH [OF match_spec_ok [OF Cons.prems(1) 1] 2] Cons.prems(2,3) 1 2
  show ?case by auto
qed

text \<open>
  Every pair a fresh matching unit emits is a single token for one input, or two tokens with one
  tag for one instruction, and when their inputs differ the first is for input one and the second
  for input two.
\<close>

theorem matching_unit_pairs_wellformed:
  assumes "0 < n" and "matching_unit_run junk toks (init_waiting_table garbage n) = Ok (t', out)"
    and "p \<in> set out"
  shows "pair_wellformed p"
proof -
  have "match_spec_run junk toks (\<lambda>_. None) = (waiting_lookup t', out)"
    using matching_unit_run_refines [of "init_waiting_table garbage n" junk toks]
      init_waiting_table_inv [OF assms(1)] assms(2) by auto
  moreover have "waiting_tokens_ok (\<lambda>_. None)" by (simp add: waiting_tokens_ok_def)
  ultimately show ?thesis
    using match_spec_run_wellformed assms(3) by blast
qed

text \<open>
  The partners of an instruction meet whichever comes first: with no token waiting for it, both
  orders emit the same pair, input one first, and leave the waiting tokens as they were.
\<close>

theorem matching_unit_order_independent:
  assumes "waiting_table_inv t" and "waiting_lookup t (token_to_key a) = None"
    and "token_to_key b = token_to_key a"
    and "matching_function_of a = MATCHING_BOTH" and "matching_function_of b = MATCHING_BOTH"
    and "DESTINATION_TO_INPUT (tok_destination a) = INPUT_ONE"
    and "DESTINATION_TO_INPUT (tok_destination b) = INPUT_TWO"
  shows "\<exists>t1 t2. matching_unit_run junk [a, b] t = Ok (t1, [\<lparr>token_1 = a, token_2 = b\<rparr>])
     \<and> matching_unit_run junk [b, a] t = Ok (t2, [\<lparr>token_1 = a, token_2 = b\<rparr>])
     \<and> waiting_lookup t1 = waiting_lookup t \<and> waiting_lookup t2 = waiting_lookup t"
proof -
  have spec: "match_spec_run junk [a, b] (waiting_lookup t)
        = (waiting_lookup t, [\<lparr>token_1 = a, token_2 = b\<rparr>])"
    "match_spec_run junk [b, a] (waiting_lookup t)
        = (waiting_lookup t, [\<lparr>token_1 = a, token_2 = b\<rparr>])"
    using assms(2-7)
    by (simp_all add: match_spec_def ready_token_pair_from_tokens_def constant_defs fun_upd_idem)
  obtain t1 o1 where 1: "matching_unit_run junk [a, b] t = Ok (t1, o1)"
    "match_spec_run junk [a, b] (waiting_lookup t) = (waiting_lookup t1, o1)"
    using matching_unit_run_refines [OF assms(1)] by blast
  obtain t2 o2 where 2: "matching_unit_run junk [b, a] t = Ok (t2, o2)"
    "match_spec_run junk [b, a] (waiting_lookup t) = (waiting_lookup t2, o2)"
    using matching_unit_run_refines [OF assms(1)] by blast
  from 1 2 spec show ?thesis by simp
qed

section \<open>The properties at concrete inputs\<close>

abbreviation left_token :: token_type where
  "left_token \<equiv> \<lparr>tok_destination = 0x21, tok_data = 7, tok_tag = 5\<rparr>"

abbreviation right_token :: token_type where
  "right_token \<equiv> \<lparr>tok_destination = 0x29, tok_data = 8, tok_tag = 5\<rparr>"

abbreviation stack_garbage :: token_type where
  "stack_garbage \<equiv> \<lparr>tok_destination = 1, tok_data = 1, tok_tag = 1\<rparr>"

text \<open>The table of four buckets after both tokens came and went: a freed node hangs in bucket 3.\<close>

abbreviation met_table :: token_waiting_table_type where
  "met_table \<equiv> \<lparr>twt_num_elements = 0, twt_table_size = 4,
     twt_table = replicate 3 \<lparr>te_element_type = EMPTY, te_element = []\<rparr> @
       [\<lparr>te_element_type = EMPTY,
         te_element = [\<lparr>tl_key = token_to_key left_token, tl_value = left_token\<rparr>]\<rparr>]\<rparr>"

lemma matching_example_run:
  "matching_unit_run stack_garbage [left_token, right_token] (init_waiting_table [] 4)
   = Ok (met_table, [\<lparr>token_1 = left_token, token_2 = right_token\<rparr>])"
  by code_simp

theorem matching_unit_implements_spec_witness:
  "\<exists>t' out. matching_unit_run stack_garbage [left_token] (init_waiting_table [] 2048) = Ok (t', out)
     \<and> match_spec_run stack_garbage [left_token] (\<lambda>_. None) = (waiting_lookup t', out)"
  by (rule matching_unit_implements_spec) simp

theorem matching_unit_conserves_tokens_witness:
  "mset [left_token, right_token]
   = sum_list (map pair_tokens [\<lparr>token_1 = left_token, token_2 = right_token\<rparr>])
     + map_contents (waiting_lookup met_table) + mset (filter (\<lambda>tok. matching_function_of tok = 3) [left_token, right_token])"
  by (rule matching_unit_conserves_tokens [OF _ matching_example_run]) simp

theorem matching_unit_pairs_wellformed_witness:
  "pair_wellformed \<lparr>token_1 = left_token, token_2 = right_token\<rparr>"
  by (rule matching_unit_pairs_wellformed [OF _ matching_example_run]) simp_all

theorem matching_unit_order_independent_witness:
  "\<exists>t1 t2. matching_unit_run stack_garbage [left_token, right_token] (init_waiting_table [] 2048)
       = Ok (t1, [\<lparr>token_1 = left_token, token_2 = right_token\<rparr>])
     \<and> matching_unit_run stack_garbage [right_token, left_token] (init_waiting_table [] 2048)
       = Ok (t2, [\<lparr>token_1 = left_token, token_2 = right_token\<rparr>])
     \<and> waiting_lookup t1 = waiting_lookup (init_waiting_table [] 2048)
     \<and> waiting_lookup t2 = waiting_lookup (init_waiting_table [] 2048)"
proof (rule matching_unit_order_independent)
  show "waiting_table_inv (init_waiting_table [] 2048)"
    and "waiting_lookup (init_waiting_table [] 2048) (token_to_key left_token) = None"
    using init_waiting_table_inv [of 2048 "[]"] by simp_all
qed code_simp+


end
