(* ===== verification/Queue_Interface.thy ===== *)
theory Queue_Interface
  imports Prelude_AF
begin

text \<open>
  What the units rely on between them: a bounded first-in first-out queue whose operations block
  when it is full or empty (the value None), and the layout of a struct in memory, which a queue of
  bytes carries.
\<close>

text \<open>Adding a list of elements, and removing a number of elements, one after the other.\<close>

fun add_all :: "('e \<Rightarrow> 'q \<Rightarrow> 'q option) \<Rightarrow> 'e list \<Rightarrow> 'q \<Rightarrow> 'q option" where
  "add_all add [] q = Some q"
| "add_all add (x # xs) q = (case add x q of None \<Rightarrow> None | Some q' \<Rightarrow> add_all add xs q')"

fun remove_n :: "('q \<Rightarrow> ('e \<times> 'q) option) \<Rightarrow> nat \<Rightarrow> 'q \<Rightarrow> ('e list \<times> 'q) option" where
  "remove_n remove 0 q = Some ([], q)"
| "remove_n remove (Suc n) q = (case remove q of None \<Rightarrow> None
     | Some (x, q') \<Rightarrow> (case remove_n remove n q' of None \<Rightarrow> None
         | Some (xs, q'') \<Rightarrow> Some (x # xs, q'')))"

locale bounded_fifo =
  fixes inv :: "'q \<Rightarrow> bool"
    and valid :: "'q \<Rightarrow> 'e \<Rightarrow> bool"
    and cap :: "'q \<Rightarrow> nat"
    and contents :: "'q \<Rightarrow> 'e list"
    and add :: "'e \<Rightarrow> 'q \<Rightarrow> 'q option"
    and remove :: "'q \<Rightarrow> ('e \<times> 'q) option"
  assumes length_contents: "inv q \<Longrightarrow> length (contents q) \<le> cap q"
    and add_blocks: "inv q \<Longrightarrow> valid q x \<Longrightarrow> add x q = None \<longleftrightarrow> length (contents q) = cap q"
    and add_law: "inv q \<Longrightarrow> valid q x \<Longrightarrow> add x q = Some q' \<Longrightarrow>
      inv q' \<and> cap q' = cap q \<and> valid q' = valid q \<and> contents q' = contents q @ [x]"
    and remove_blocks: "inv q \<Longrightarrow> remove q = None \<longleftrightarrow> contents q = []"
    and remove_law: "inv q \<Longrightarrow> remove q = Some (x, q') \<Longrightarrow>
      inv q' \<and> cap q' = cap q \<and> valid q' = valid q \<and> contents q = x # contents q'"
begin

lemma add_all_fits:
  "inv q \<Longrightarrow> \<forall>x \<in> set xs. valid q x \<Longrightarrow> length (contents q) + length xs \<le> cap q \<Longrightarrow>
   \<exists>q'. add_all add xs q = Some q' \<and> inv q' \<and> cap q' = cap q \<and> contents q' = contents q @ xs"
proof (induction xs arbitrary: q)
  case Nil
  then show ?case by simp
next
  case (Cons x xs)
  then have "add x q \<noteq> None" by (simp add: add_blocks)
  then obtain q1 where q1: "add x q = Some q1" by blast
  from add_law [OF Cons.prems(1) _ q1] Cons.prems
  have 1: "inv q1" "cap q1 = cap q" "valid q1 = valid q" "contents q1 = contents q @ [x]" by simp_all
  with Cons.prems Cons.IH [of q1] q1 show ?case by simp
qed

lemma remove_n_prefix:
  "inv q \<Longrightarrow> n \<le> length (contents q) \<Longrightarrow>
   \<exists>q'. remove_n remove n q = Some (take n (contents q), q') \<and> inv q' \<and> cap q' = cap q
      \<and> contents q' = drop n (contents q)"
proof (induction n arbitrary: q)
  case 0
  then show ?case by simp
next
  case (Suc n)
  then have "remove q \<noteq> None" by (auto simp: remove_blocks)
  then obtain x q1 where q1: "remove q = Some (x, q1)" by (cases "remove q") auto
  from remove_law [OF Suc.prems(1) q1]
  have 1: "inv q1" "cap q1 = cap q" "contents q = x # contents q1" by simp_all
  with Suc.prems Suc.IH [of q1] q1 show ?case by auto
qed

text \<open>First in, first out, for a whole batch.\<close>

lemma batch_roundtrip:
  assumes "inv q" and "contents q = []" and "\<forall>x \<in> set xs. valid q x" and "length xs \<le> cap q"
  shows "\<exists>q' q''. add_all add xs q = Some q' \<and> remove_n remove (length xs) q' = Some (xs, q'')
     \<and> contents q'' = []"
proof -
  obtain q' where q': "add_all add xs q = Some q'" "inv q'" "contents q' = xs"
    using add_all_fits [OF assms(1,3)] assms(2,4) by auto
  from remove_n_prefix [OF q'(2), of "length xs"] q' show ?thesis by auto
qed

end

section \<open>Struct layouts\<close>

locale codec =
  fixes size_of :: nat
    and enc :: "byte \<Rightarrow> 'a \<Rightarrow> byte list"
    and dec :: "byte list \<Rightarrow> 'a"
  assumes length_enc: "length (enc pad x) = size_of"
    and dec_enc: "dec (enc pad x) = x"
begin

lemma enc_inject: "enc pad x = enc pad' y \<Longrightarrow> x = y"
  by (metis dec_enc)

lemma dec_enc_map: "map dec (map (enc pad) xs) = xs"
  by (induction xs) (simp_all add: dec_enc)

end

end
