(* ===== verification/Shared_Queue.thy ===== *)
theory Shared_Queue
  imports Queue_Interface
begin

text \<open>
  queue.c: the ring buffer of bytes in shared memory, guarded by two counting semaphores and a
  mutex. Here each call runs alone; \<open>Queue_Concurrency\<close> interleaves the calls of several
  processes. Pointers into the ring are offsets from the start of its data.
\<close>

section \<open>State and operations\<close>

record shared_queue =
  sq_head :: nat
  sq_tail :: nat
  sq_data :: "byte list"

record queue =
  q_max_count :: nat
  q_element_size :: nat
  q_max_size :: nat
  q_mmap_size :: nat
  q_can_write_lock :: nat
  q_can_read_lock :: nat
  q_mem :: shared_queue

text \<open>Layout of struct shared_queue on x86-64 glibc: a 40-byte mutex, two pointers, char data[1].\<close>

definition sizeof_shared_queue :: nat where
  "sizeof_shared_queue = 64"

definition offsetof_data :: nat where
  "offsetof_data = 56"

text \<open>The outcomes of the system calls of queue_new, in the order it makes them.\<close>

record queue_new_calls =
  shm_open_ok :: bool
  shm_unlink_ok :: bool
  ftruncate_ok :: bool
  sem_open_write_ok :: bool
  sem_unlink_write_ok :: bool
  sem_open_read_ok :: bool
  sem_unlink_read_ok :: bool
  mmap_ok :: bool

definition queue_new :: "queue_new_calls \<Rightarrow> nat \<Rightarrow> nat \<Rightarrow> queue option" where
  "queue_new env max_count element_size =
     (let max_size = (max_count * element_size) mod 2 ^ 64;
          mmap_size = (max_size + sizeof_shared_queue - 1) mod 2 ^ 64
      in if \<not> shm_open_ok env then None
         else if \<not> shm_unlink_ok env then None
         else if \<not> ftruncate_ok env then None
         else if \<not> sem_open_write_ok env then None
         else if \<not> sem_unlink_write_ok env then None
         else if \<not> sem_open_read_ok env then None
         else if \<not> sem_unlink_read_ok env then None
         else if \<not> mmap_ok env then None
         else Some \<lparr>q_max_count = max_count, q_element_size = element_size, q_max_size = max_size,
           q_mmap_size = mmap_size, q_can_write_lock = max_count mod 2 ^ 32, q_can_read_lock = 0,
           q_mem = \<lparr>sq_head = 0, sq_tail = 0, sq_data = replicate (mmap_size - offsetof_data) 0\<rparr>\<rparr>)"

text \<open>The next position of a pointer: one element on, back to the start at the end of the ring.\<close>

definition ring_next :: "queue \<Rightarrow> nat \<Rightarrow> nat" where
  "ring_next q p = (let next = p + q_element_size q
     in if next = q_max_size q then 0 else next)"

text \<open>The two copies done under the mutex. A copy past the mapping is a fault.\<close>

definition copy_in :: "queue \<Rightarrow> byte list \<Rightarrow> nat \<Rightarrow> queue outcome" where
  "copy_in q element len =
     (let mem = q_mem q
      in if length element < len \<or> length (sq_data mem) < sq_tail mem + len then Fault
         else Ok (q\<lparr>q_mem := mem\<lparr>sq_data := blit (sq_tail mem) (take len element) (sq_data mem)\<rparr>\<rparr>))"

definition copy_out :: "queue \<Rightarrow> nat \<Rightarrow> byte list outcome" where
  "copy_out q len =
     (let mem = q_mem q
      in if length (sq_data mem) < sq_head mem + len then Fault
         else Ok (slice (sq_head mem) len (sq_data mem)))"

definition advance_tail :: "queue \<Rightarrow> queue" where
  "advance_tail q = q\<lparr>q_mem := (q_mem q)\<lparr>sq_tail := ring_next q (sq_tail (q_mem q))\<rparr>\<rparr>"

definition advance_head :: "queue \<Rightarrow> queue" where
  "advance_head q = q\<lparr>q_mem := (q_mem q)\<lparr>sq_head := ring_next q (sq_head (q_mem q))\<rparr>\<rparr>"

definition wait_write :: "queue \<Rightarrow> queue option" where
  "wait_write q = (if q_can_write_lock q = 0 then None
     else Some (q\<lparr>q_can_write_lock := q_can_write_lock q - 1\<rparr>))"

definition wait_read :: "queue \<Rightarrow> queue option" where
  "wait_read q = (if q_can_read_lock q = 0 then None
     else Some (q\<lparr>q_can_read_lock := q_can_read_lock q - 1\<rparr>))"

definition post_read :: "queue \<Rightarrow> queue" where
  "post_read q = q\<lparr>q_can_read_lock := Suc (q_can_read_lock q)\<rparr>"

definition post_write :: "queue \<Rightarrow> queue" where
  "post_write q = q\<lparr>q_can_write_lock := Suc (q_can_write_lock q)\<rparr>"

text \<open>A whole call, with nobody else running: None when it would block.\<close>

definition queue_add :: "queue \<Rightarrow> byte list \<Rightarrow> nat \<Rightarrow> queue outcome option" where
  "queue_add q element len = (case wait_write q of None \<Rightarrow> None
     | Some q1 \<Rightarrow> Some (outcome_bind (copy_in q1 element len) (\<lambda>q2. Ok (post_read (advance_tail q2)))))"

definition queue_remove :: "queue \<Rightarrow> nat \<Rightarrow> (byte list \<times> queue) outcome option" where
  "queue_remove q len = (case wait_read q of None \<Rightarrow> None
     | Some q1 \<Rightarrow> Some (outcome_bind (copy_out q1 len)
         (\<lambda>element. Ok (element, post_write (advance_head q1)))))"

lemmas queue_ops = ring_next_def copy_in_def copy_out_def advance_tail_def advance_head_def
  wait_write_def wait_read_def post_read_def post_write_def

section \<open>The ring as a list\<close>

text \<open>The element in slot \<open>i\<close> of the ring, slots counted modulo the capacity.\<close>

definition slot :: "queue \<Rightarrow> nat \<Rightarrow> byte list" where
  "slot q i = slice (i mod q_max_count q * q_element_size q) (q_element_size q) (sq_data (q_mem q))"

text \<open>\<open>ring_holds q h xs\<close>: the head is at slot \<open>h\<close> and the elements from there to the tail are \<open>xs\<close>.\<close>

definition ring_shape :: "queue \<Rightarrow> bool" where
  "ring_shape q \<longleftrightarrow> 0 < q_max_count q \<and> 0 < q_element_size q \<and>
     q_max_size q = q_max_count q * q_element_size q \<and> q_max_size q \<le> length (sq_data (q_mem q))"

definition ring_holds :: "queue \<Rightarrow> nat \<Rightarrow> byte list list \<Rightarrow> bool" where
  "ring_holds q h xs \<longleftrightarrow> ring_shape q \<and> h < q_max_count q \<and> length xs \<le> q_max_count q \<and>
     sq_head (q_mem q) = h * q_element_size q \<and>
     sq_tail (q_mem q) = (h + length xs) mod q_max_count q * q_element_size q \<and>
     (\<forall>i < length xs. slot q (h + i) = xs ! i)"

section \<open>What the copies and pointer moves do to the ring\<close>


lemma slot_region:
  assumes "ring_shape q"
  shows "i mod q_max_count q * q_element_size q + q_element_size q \<le> length (sq_data (q_mem q))"
proof -
  have "Suc (i mod q_max_count q) * q_element_size q \<le> q_max_count q * q_element_size q"
    using assms by (intro mult_right_mono) (auto simp: ring_shape_def Suc_le_eq)
  then show ?thesis using assms by (simp add: ring_shape_def)
qed

lemma slots_disjoint:
  fixes a b s :: nat
  assumes "a \<noteq> b"
  shows "a * s + s \<le> b * s \<or> b * s + s \<le> a * s"
proof -
  from assms consider "Suc a \<le> b" | "Suc b \<le> a" by linarith
  then show ?thesis
  proof cases
    case 1
    then have "Suc a * s \<le> b * s" by (rule mult_right_mono) simp
    then show ?thesis by simp
  next
    case 2
    then have "Suc b * s \<le> a * s" by (rule mult_right_mono) simp
    then show ?thesis by simp
  qed
qed

lemma ring_next_slot:
  assumes "ring_shape q"
  shows "ring_next q (i mod q_max_count q * q_element_size q)
       = Suc i mod q_max_count q * q_element_size q"
proof -
  let ?c = "q_max_count q" and ?s = "q_element_size q"
  have pos: "0 < ?c" "0 < ?s" and ms: "q_max_size q = ?c * ?s"
    using assms by (auto simp: ring_shape_def)
  have "ring_next q (i mod ?c * ?s)
      = (if Suc (i mod ?c) * ?s = ?c * ?s then 0 else Suc (i mod ?c) * ?s)"
    by (simp add: ring_next_def ms Let_def add.commute)
  also have "Suc (i mod ?c) * ?s = ?c * ?s \<longleftrightarrow> Suc (i mod ?c) = ?c"
    using pos by (simp only: mult_cancel2) simp
  also have "(if Suc (i mod ?c) = ?c then 0 else Suc (i mod ?c) * ?s)
      = (if Suc (i mod ?c) = ?c then 0 else Suc (i mod ?c)) * ?s"
    by simp
  also have "\<dots> = Suc i mod ?c * ?s" by (simp add: mod_Suc)
  finally show ?thesis .
qed

text \<open>None of the steps changes the geometry of the ring.\<close>

definition same_geometry :: "queue \<Rightarrow> queue \<Rightarrow> bool" where
  "same_geometry q q' \<longleftrightarrow> q_max_count q' = q_max_count q \<and> q_element_size q' = q_element_size q \<and>
     q_max_size q' = q_max_size q \<and> q_mmap_size q' = q_mmap_size q \<and>
     length (sq_data (q_mem q')) = length (sq_data (q_mem q))"

lemma mod_neq_in_window:
  fixes c h i n :: nat
  assumes "i < n" and "n < c"
  shows "(h + i) mod c \<noteq> (h + n) mod c"
proof
  assume "(h + i) mod c = (h + n) mod c"
  then have "c dvd (h + n) - (h + i)"
    using assms(1) mod_eq_dvd_iff_nat [of "h + i" "h + n" c] by simp
  with assms show False by (auto dest: dvd_imp_le)
qed

lemma copy_in_ok:
  assumes holds: "ring_holds q h xs" and room: "length xs < q_max_count q"
    and len: "length e = q_element_size q"
  shows "\<exists>q'. copy_in q e (q_element_size q) = Ok q' \<and> ring_holds q' h xs \<and>
     slot q' (h + length xs) = e \<and> same_geometry q q' \<and>
     q_can_write_lock q' = q_can_write_lock q \<and> q_can_read_lock q' = q_can_read_lock q"
proof -
  let ?c = "q_max_count q" and ?s = "q_element_size q" and ?d = "sq_data (q_mem q)"
  have shape: "ring_shape q" and tail: "sq_tail (q_mem q) = (h + length xs) mod ?c * ?s"
    using holds by (auto simp: ring_holds_def)
  note region = slot_region [OF shape]
  define q' where "q' = q\<lparr>q_mem := (q_mem q)\<lparr>sq_data := blit (sq_tail (q_mem q)) e ?d\<rparr>\<rparr>"
  have "copy_in q e ?s = Ok q'"
    using len region [of "h + length xs"] tail by (simp add: copy_in_def q'_def Let_def)
  moreover have new: "slot q' (h + length xs) = e"
    using len region [of "h + length xs"] tail by (simp add: slot_def q'_def slice_blit_same)
  moreover have old: "slot q' (h + i) = slot q (h + i)" if "i < length xs" for i
  proof -
    have "(h + i) mod ?c \<noteq> (h + length xs) mod ?c"
      using mod_neq_in_window that room by blast
    from slots_disjoint [OF this, of ?s] show ?thesis
      using len region [of "h + length xs"] region [of "h + i"] tail
      by (simp add: slot_def q'_def slice_blit_disjoint)
  qed
  moreover have geo: "same_geometry q q'"
    using len region [of "h + length xs"] tail by (simp add: same_geometry_def q'_def)
  moreover have "ring_holds q' h xs"
    using holds old geo by (auto simp: ring_holds_def ring_shape_def same_geometry_def q'_def)
  ultimately show ?thesis by (intro exI [of _ q']) (simp add: q'_def)
qed

lemma advance_tail_holds:
  assumes "ring_holds q h xs" and "length xs < q_max_count q" and "slot q (h + length xs) = e"
  shows "ring_holds (advance_tail q) h (xs @ [e])"
proof -
  have shape: "ring_shape q" using assms(1) by (simp add: ring_holds_def)
  show ?thesis
    using assms ring_next_slot [OF shape, of "h + length xs"]
    by (auto simp: ring_holds_def ring_shape_def advance_tail_def slot_def nth_append less_Suc_eq)
qed

lemma copy_out_ok:
  assumes "ring_holds q h (x # xs)"
  shows "copy_out q (q_element_size q) = Ok x"
proof -
  have shape: "ring_shape q" and h: "h mod q_max_count q = h"
    using assms by (auto simp: ring_holds_def)
  have "slot q h = x"
    using assms unfolding ring_holds_def by (metis add.right_neutral length_greater_0_conv
        list.distinct(1) nth_Cons_0)
  then show ?thesis
    using assms slot_region [OF shape, of h] h
    by (simp add: copy_out_def ring_holds_def slot_def Let_def)
qed

lemma advance_head_holds:
  assumes "ring_holds q h (x # xs)"
  shows "ring_holds (advance_head q) (Suc h mod q_max_count q) xs"
proof -
  have shape: "ring_shape q" and h: "h mod q_max_count q = h" and c: "0 < q_max_count q"
    using assms by (auto simp: ring_holds_def ring_shape_def)
  have slots: "slot q (Suc h + i) = xs ! i" if "i < length xs" for i
  proof -
    have "slot q (h + Suc i) = (x # xs) ! Suc i"
      using assms that by (simp only: ring_holds_def) auto
    then show ?thesis by simp
  qed
  have "slot q (Suc h mod q_max_count q + i) = slot q (Suc h + i)" for i
    by (simp add: slot_def mod_add_left_eq)
  with slots assms h c ring_next_slot [OF shape, of h] show ?thesis
    by (auto simp: ring_holds_def ring_shape_def advance_head_def slot_def mod_add_left_eq)
qed


section \<open>Calls that run alone\<close>

definition queue_contents :: "queue \<Rightarrow> byte list list" where
  "queue_contents q = map (\<lambda>i. slot q (sq_head (q_mem q) div q_element_size q + i))
     [0..<q_can_read_lock q]"

definition queue_inv :: "queue \<Rightarrow> bool" where
  "queue_inv q \<longleftrightarrow> ring_holds q (sq_head (q_mem q) div q_element_size q) (queue_contents q) \<and>
     q_can_read_lock q + q_can_write_lock q = q_max_count q"

lemma length_queue_contents [simp]: "length (queue_contents q) = q_can_read_lock q"
  by (simp add: queue_contents_def)

lemma ring_holds_contents:
  assumes "ring_holds q h xs" and "length xs = q_can_read_lock q"
  shows "queue_contents q = xs" and "sq_head (q_mem q) div q_element_size q = h"
proof -
  show h: "sq_head (q_mem q) div q_element_size q = h"
    using assms(1) by (simp add: ring_holds_def ring_shape_def)
  show "queue_contents q = xs"
    using assms h by (intro nth_equalityI) (simp_all add: queue_contents_def ring_holds_def)
qed

lemma queue_invI:
  assumes "ring_holds q h xs" and "length xs = q_can_read_lock q"
    and "q_can_read_lock q + q_can_write_lock q = q_max_count q"
  shows "queue_inv q \<and> queue_contents q = xs"
  using ring_holds_contents [OF assms(1,2)] assms(1,3) by (simp add: queue_inv_def)

lemma ring_holds_sems [simp]:
  "ring_holds (q\<lparr>q_can_write_lock := a\<rparr>) h xs = ring_holds q h xs"
  "ring_holds (q\<lparr>q_can_read_lock := a\<rparr>) h xs = ring_holds q h xs"
  by (simp_all add: ring_holds_def ring_shape_def slot_def)

lemma advance_fields [simp]:
  "q_max_count (advance_tail q) = q_max_count q" "q_max_count (advance_head q) = q_max_count q"
  "q_element_size (advance_tail q) = q_element_size q"
  "q_element_size (advance_head q) = q_element_size q"
  "q_can_write_lock (advance_tail q) = q_can_write_lock q"
  "q_can_write_lock (advance_head q) = q_can_write_lock q"
  "q_can_read_lock (advance_tail q) = q_can_read_lock q"
  "q_can_read_lock (advance_head q) = q_can_read_lock q"
  by (simp_all add: advance_tail_def advance_head_def)

lemma queue_add_spec:
  assumes inv: "queue_inv q" and len: "length e = q_element_size q"
  shows "queue_add q e (q_element_size q) = None \<longleftrightarrow> length (queue_contents q) = q_max_count q"
    and "length (queue_contents q) < q_max_count q \<Longrightarrow>
      \<exists>q'. queue_add q e (q_element_size q) = Some (Ok q') \<and> queue_inv q' \<and>
        queue_contents q' = queue_contents q @ [e] \<and> q_max_count q' = q_max_count q \<and>
        q_element_size q' = q_element_size q"
proof -
  let ?h = "sq_head (q_mem q) div q_element_size q"
  have holds: "ring_holds q ?h (queue_contents q)"
    and sems: "q_can_read_lock q + q_can_write_lock q = q_max_count q"
    using inv by (auto simp: queue_inv_def)
  from sems show "queue_add q e (q_element_size q) = None
      \<longleftrightarrow> length (queue_contents q) = q_max_count q"
    by (auto simp: queue_add_def wait_write_def)
  assume room: "length (queue_contents q) < q_max_count q"
  define q1 where "q1 = q\<lparr>q_can_write_lock := q_can_write_lock q - 1\<rparr>"
  have wait: "wait_write q = Some q1"
    using room sems by (simp add: wait_write_def q1_def)
  obtain q2 where q2: "copy_in q1 e (q_element_size q) = Ok q2" "ring_holds q2 ?h (queue_contents q)"
      "slot q2 (?h + length (queue_contents q)) = e" "same_geometry q1 q2"
      "q_can_write_lock q2 = q_can_write_lock q1" "q_can_read_lock q2 = q_can_read_lock q1"
    using copy_in_ok [of q1 ?h "queue_contents q" e] holds room len by (auto simp: q1_def)
  let ?q' = "post_read (advance_tail q2)"
  have "ring_holds (advance_tail q2) ?h (queue_contents q @ [e])"
    using advance_tail_holds [OF q2(2) _ q2(3)] q2(4) room by (simp add: same_geometry_def q1_def)
  then have "ring_holds ?q' ?h (queue_contents q @ [e])"
    by (simp add: post_read_def)
  then have "queue_inv ?q' \<and> queue_contents ?q' = queue_contents q @ [e]"
    by (rule queue_invI)
      (use q2(4-6) sems room in \<open>simp_all add: post_read_def same_geometry_def q1_def\<close>)
  with wait q2 show "\<exists>q'. queue_add q e (q_element_size q) = Some (Ok q') \<and> queue_inv q' \<and>
        queue_contents q' = queue_contents q @ [e] \<and> q_max_count q' = q_max_count q \<and>
        q_element_size q' = q_element_size q"
    by (auto simp: queue_add_def post_read_def same_geometry_def q1_def)
qed

lemma queue_remove_spec:
  assumes inv: "queue_inv q"
  shows "queue_remove q (q_element_size q) = None \<longleftrightarrow> queue_contents q = []"
    and "queue_contents q = x # xs \<Longrightarrow>
      \<exists>q'. queue_remove q (q_element_size q) = Some (Ok (x, q')) \<and> queue_inv q' \<and>
        queue_contents q' = xs \<and> q_max_count q' = q_max_count q \<and>
        q_element_size q' = q_element_size q"
proof -
  let ?h = "sq_head (q_mem q) div q_element_size q"
  have holds: "ring_holds q ?h (queue_contents q)"
    and sems: "q_can_read_lock q + q_can_write_lock q = q_max_count q"
    using inv by (auto simp: queue_inv_def)
  show "queue_remove q (q_element_size q) = None \<longleftrightarrow> queue_contents q = []"
    by (auto simp: queue_remove_def wait_read_def simp flip: length_0_conv)
  assume cons: "queue_contents q = x # xs"
  then have len: "q_can_read_lock q = Suc (length xs)"
    by (metis length_queue_contents length_Cons)
  define q1 where "q1 = q\<lparr>q_can_read_lock := q_can_read_lock q - 1\<rparr>"
  have wait: "wait_read q = Some q1" using len by (simp add: wait_read_def q1_def)
  have holds1: "ring_holds q1 ?h (x # xs)" using holds cons by (simp add: q1_def)
  have out: "copy_out q1 (q_element_size q) = Ok x"
    using copy_out_ok [OF holds1] by (simp add: q1_def)
  let ?q' = "post_write (advance_head q1)"
  have "ring_holds ?q' (Suc ?h mod q_max_count q) xs"
    using advance_head_holds [OF holds1] by (simp add: post_write_def q1_def)
  then have "queue_inv ?q' \<and> queue_contents ?q' = xs"
    by (rule queue_invI) (use len sems in \<open>simp_all add: post_write_def q1_def\<close>)
  with wait out show "\<exists>q'. queue_remove q (q_element_size q) = Some (Ok (x, q')) \<and> queue_inv q' \<and>
        queue_contents q' = xs \<and> q_max_count q' = q_max_count q \<and>
        q_element_size q' = q_element_size q"
    by (auto simp: queue_remove_def post_write_def q1_def)
qed

text \<open>The calls as the units use them: an element is exactly as long as the queue's elements.\<close>

definition queue_valid :: "queue \<Rightarrow> byte list \<Rightarrow> bool" where
  "queue_valid q e \<longleftrightarrow> length e = q_element_size q"

definition add_element :: "byte list \<Rightarrow> queue \<Rightarrow> queue option" where
  "add_element e q = (case queue_add q e (q_element_size q) of Some (Ok q') \<Rightarrow> Some q' | _ \<Rightarrow> None)"

definition remove_element :: "queue \<Rightarrow> (byte list \<times> queue) option" where
  "remove_element q = (case queue_remove q (q_element_size q) of
     Some (Ok (e, q')) \<Rightarrow> Some (e, q') | _ \<Rightarrow> None)"

lemma queue_contents_bound: "queue_inv q \<Longrightarrow> q_can_read_lock q \<le> q_max_count q"
  by (auto simp: queue_inv_def)

lemma queue_length_bound: "queue_inv q \<Longrightarrow> length (queue_contents q) \<le> q_max_count q"
  by (auto simp: queue_inv_def)

lemma add_element_spec:
  assumes "queue_inv q" and "queue_valid q e"
  shows "add_element e q = None \<longleftrightarrow> length (queue_contents q) = q_max_count q"
    and "add_element e q = Some q' \<Longrightarrow> queue_inv q' \<and> q_max_count q' = q_max_count q \<and>
      queue_valid q' = queue_valid q \<and> queue_contents q' = queue_contents q @ [e]"
proof -
  have len: "length e = q_element_size q" using assms(2) by (simp add: queue_valid_def)
  note spec = queue_add_spec [OF assms(1) len] and bound = queue_contents_bound [OF assms(1)]
  show "add_element e q = None \<longleftrightarrow> length (queue_contents q) = q_max_count q"
    using spec bound by (cases "length (queue_contents q) = q_max_count q") (auto simp: add_element_def)
  assume some: "add_element e q = Some q'"
  then have "length (queue_contents q) < q_max_count q"
    using spec(1) bound by (auto simp: add_element_def split: option.splits)
  from spec(2) [OF this] some show "queue_inv q' \<and> q_max_count q' = q_max_count q \<and>
      queue_valid q' = queue_valid q \<and> queue_contents q' = queue_contents q @ [e]"
    by (auto simp: add_element_def queue_valid_def fun_eq_iff)
qed

lemma remove_element_spec:
  assumes "queue_inv q"
  shows "remove_element q = None \<longleftrightarrow> queue_contents q = []"
    and "remove_element q = Some (e, q') \<Longrightarrow> queue_inv q' \<and> q_max_count q' = q_max_count q \<and>
      queue_valid q' = queue_valid q \<and> queue_contents q = e # queue_contents q'"
proof -
  note spec = queue_remove_spec [OF assms]
  show "remove_element q = None \<longleftrightarrow> queue_contents q = []"
    using spec by (cases "queue_contents q") (auto simp: remove_element_def)
  assume some: "remove_element q = Some (e, q')"
  then have "queue_contents q \<noteq> []" using spec(1) by (auto simp: remove_element_def)
  then obtain x xs where cons: "queue_contents q = x # xs" by (cases "queue_contents q") auto
  from spec(2) [OF cons] some cons show "queue_inv q' \<and> q_max_count q' = q_max_count q \<and>
      queue_valid q' = queue_valid q \<and> queue_contents q = e # queue_contents q'"
    by (auto simp: remove_element_def queue_valid_def fun_eq_iff)
qed

interpretation byte_queue: bounded_fifo queue_inv queue_valid q_max_count queue_contents
  add_element remove_element
  by unfold_locales
    (fact queue_length_bound add_element_spec remove_element_spec)+

section \<open>Properties\<close>

lemma queue_new_inv:
  assumes "queue_new env max_count element_size = Some q" and "0 < max_count"
    and "0 < element_size" and "max_count < 2 ^ 32" and "max_count * element_size + 63 < 2 ^ 64"
  shows "queue_inv q \<and> queue_contents q = [] \<and> q_max_count q = max_count \<and>
    q_element_size q = element_size"
proof -
  have q: "q = \<lparr>q_max_count = max_count, q_element_size = element_size,
      q_max_size = max_count * element_size, q_mmap_size = max_count * element_size + 63,
      q_can_write_lock = max_count, q_can_read_lock = 0,
      q_mem = \<lparr>sq_head = 0, sq_tail = 0,
        sq_data = replicate (max_count * element_size + 63 - offsetof_data) 0\<rparr>\<rparr>"
    using assms
    by (auto simp: queue_new_def Let_def sizeof_shared_queue_def add.commute split: if_splits)
  have "ring_holds q 0 []"
    using assms(2,3) by (simp add: q ring_holds_def ring_shape_def offsetof_data_def)
  then have "queue_inv q \<and> queue_contents q = []"
    by (rule queue_invI) (simp_all add: q)
  then show ?thesis by (simp add: q)
qed

text \<open>
  Queue_new returns a queue exactly when every system call it makes succeeds, and the queue is
  then empty, well formed, and has the capacity and element size asked for.
\<close>

theorem queue_new_correct:
  assumes "0 < max_count" and "0 < element_size" and "max_count < 2 ^ 32"
    and "max_count * element_size + 63 < 2 ^ 64"
  shows "case queue_new env max_count element_size of
      None \<Rightarrow> False \<in> {shm_open_ok env, shm_unlink_ok env, ftruncate_ok env, sem_open_write_ok env,
        sem_unlink_write_ok env, sem_open_read_ok env, sem_unlink_read_ok env, mmap_ok env}
    | Some q \<Rightarrow> {shm_open_ok env, shm_unlink_ok env, ftruncate_ok env, sem_open_write_ok env,
        sem_unlink_write_ok env, sem_open_read_ok env, sem_unlink_read_ok env, mmap_ok env} = {True}
        \<and> queue_inv q \<and> queue_contents q = [] \<and> q_max_count q = max_count
        \<and> q_element_size q = element_size"
proof (cases "queue_new env max_count element_size")
  case None
  then show ?thesis by (simp add: queue_new_def Let_def split: if_splits)
next
  case (Some q)
  from queue_new_inv [OF Some assms] Some show ?thesis
    by (simp add: queue_new_def Let_def split: if_splits)
qed

text \<open>
  C21: on a well-formed queue, queue_add of one element blocks exactly when the queue is full, never
  writes outside the mapping, and otherwise appends the element and nothing else.
\<close>

theorem queue_add_refines_append:
  assumes "queue_inv q" and "length e = q_element_size q"
  shows "case queue_add q e (q_element_size q) of
      None \<Rightarrow> length (queue_contents q) = q_max_count q
    | Some (Ok q') \<Rightarrow> length (queue_contents q) < q_max_count q \<and> queue_inv q' \<and>
        queue_contents q' = queue_contents q @ [e] \<and> q_max_count q' = q_max_count q \<and>
        q_element_size q' = q_element_size q
    | Some _ \<Rightarrow> False"
proof (cases "length (queue_contents q) = q_max_count q")
  case True
  then show ?thesis using queue_add_spec(1) [OF assms] by simp
next
  case False
  then have "length (queue_contents q) < q_max_count q"
    using queue_length_bound [OF assms(1)] by linarith
  from queue_add_spec(2) [OF assms this] this show ?thesis by auto
qed

text \<open>
  C22: on a well-formed queue, queue_remove blocks exactly when the queue is empty, never reads
  outside the mapping, and otherwise takes the oldest element.
\<close>

theorem queue_remove_refines_tail:
  assumes "queue_inv q"
  shows "case queue_remove q (q_element_size q) of
      None \<Rightarrow> queue_contents q = []
    | Some (Ok (e, q')) \<Rightarrow> queue_contents q = e # queue_contents q' \<and> queue_inv q' \<and>
        q_max_count q' = q_max_count q \<and> q_element_size q' = q_element_size q
    | Some _ \<Rightarrow> False"
proof (cases "queue_contents q")
  case Nil
  then show ?thesis using queue_remove_spec(1) [OF assms] by simp
next
  case (Cons x xs)
  from queue_remove_spec(2) [OF assms Cons] Cons show ?thesis by auto
qed

text \<open>
  Elements added to a fresh queue, as many as it holds, come out unchanged and in the order
  they went in.
\<close>

theorem queue_fifo:
  assumes "queue_new env max_count element_size = Some q" and "0 < max_count"
    and "0 < element_size" and "max_count < 2 ^ 32" and "max_count * element_size + 63 < 2 ^ 64"
    and "length es \<le> max_count" and "\<forall>e \<in> set es. length e = element_size"
  shows "\<exists>q' q''. add_all add_element es q = Some q'
     \<and> remove_n remove_element (length es) q' = Some (es, q'') \<and> queue_contents q'' = []"
proof -
  note new = queue_new_inv [OF assms(1-5)]
  show ?thesis
    by (rule byte_queue.batch_roundtrip) (use new assms(6,7) in \<open>simp_all add: queue_valid_def\<close>)
qed

section \<open>The properties at concrete inputs\<close>

abbreviation all_calls_ok :: queue_new_calls where
  "all_calls_ok \<equiv> \<lparr>shm_open_ok = True, shm_unlink_ok = True, ftruncate_ok = True,
     sem_open_write_ok = True, sem_unlink_write_ok = True, sem_open_read_ok = True,
     sem_unlink_read_ok = True, mmap_ok = True\<rparr>"

text \<open>A queue of two one-byte elements, filled and wrapped around once.\<close>

abbreviation small_queue :: queue where
  "small_queue \<equiv> \<lparr>q_max_count = 2, q_element_size = 1, q_max_size = 2, q_mmap_size = 65,
     q_can_write_lock = 1, q_can_read_lock = 1,
     q_mem = \<lparr>sq_head = 1, sq_tail = 0, sq_data = [7, 9, 0, 0, 0, 0, 0, 0, 0]\<rparr>\<rparr>"

lemma small_queue_inv: "queue_inv small_queue"
  by (simp add: queue_inv_def queue_contents_def ring_holds_def ring_shape_def slot_def slice_def)

theorem queue_new_correct_witness:
  "case queue_new all_calls_ok 1024 24 of
      None \<Rightarrow> False
    | Some q \<Rightarrow> queue_inv q \<and> queue_contents q = [] \<and> q_max_count q = 1024 \<and> q_element_size q = 24"
  using queue_new_correct [of 1024 24 all_calls_ok] by (auto split: option.splits)

theorem queue_add_refines_append_witness:
  "case queue_add small_queue [5] 1 of Some (Ok q') \<Rightarrow> queue_contents q' = [[9], [5]] | _ \<Rightarrow> False"
proof -
  have c: "queue_contents small_queue = [[9]]"
    by (simp add: queue_contents_def slot_def slice_def)
  have "queue_add small_queue [5] 1 \<noteq> None"
    by (simp add: queue_add_def wait_write_def)
  with queue_add_refines_append [OF small_queue_inv, of "[5]"] c show ?thesis
    by (auto split: option.splits outcome.splits)
qed

theorem queue_remove_refines_tail_witness:
  "case queue_remove small_queue 1 of Some (Ok (e, q')) \<Rightarrow> e = [9] \<and> queue_contents q' = []
   | _ \<Rightarrow> False"
proof -
  have c: "queue_contents small_queue = [[9]]"
    by (simp add: queue_contents_def slot_def slice_def)
  have "queue_remove small_queue 1 \<noteq> None"
    by (simp add: queue_remove_def wait_read_def)
  with queue_remove_refines_tail [OF small_queue_inv] c show ?thesis
    by (auto split: option.splits outcome.splits)
qed

theorem queue_fifo_witness:
  "\<exists>q q' q''. queue_new all_calls_ok 3 2 = Some q \<and> add_all add_element [[1, 2], [3, 4]] q = Some q'
     \<and> remove_n remove_element (length [[1, 2], [3, 4 :: byte]]) q' = Some ([[1, 2], [3, 4]], q'')
     \<and> queue_contents q'' = []"
proof -
  obtain q where q: "queue_new all_calls_ok 3 2 = Some q"
    by (simp add: queue_new_def Let_def)
  have "\<exists>q' q''. add_all add_element [[1, 2], [3, 4]] q = Some q'
     \<and> remove_n remove_element (length [[1, 2], [3, 4 :: byte]]) q' = Some ([[1, 2], [3, 4]], q'')
     \<and> queue_contents q'' = []"
    by (rule queue_fifo [OF q]) simp_all
  with q show ?thesis by blast
qed

section \<open>Resources\<close>

text \<open>
  What a queue holds of the system besides the bytes: the struct and its name on the heap, the file
  descriptor, the two named semaphores, the mapping.
\<close>

record queue_resources =
  res_struct :: bool
  res_name :: bool
  res_shmem_fd :: bool
  res_can_write_lock :: bool
  res_can_read_lock :: bool
  res_mem :: bool

text \<open>The cleanup after FAIL, and queue_free.\<close>

definition queue_new_fail :: "queue_resources \<Rightarrow> queue_resources" where
  "queue_new_fail r = r\<lparr>res_shmem_fd := False, res_name := False, res_struct := False\<rparr>"

definition queue_free :: "queue_resources \<Rightarrow> queue_resources" where
  "queue_free r = r\<lparr>res_mem := False, res_shmem_fd := False, res_name := False, res_struct := False\<rparr>"

text \<open>What queue_new holds when it returns.\<close>

definition queue_new_resources :: "queue_new_calls \<Rightarrow> queue_resources" where
  "queue_new_resources env =
     (let r0 = \<lparr>res_struct = True, res_name = True, res_shmem_fd = False, res_can_write_lock = False,
            res_can_read_lock = False, res_mem = False\<rparr>;
          r1 = r0\<lparr>res_shmem_fd := True\<rparr>;
          r2 = r1\<lparr>res_can_write_lock := True\<rparr>;
          r3 = r2\<lparr>res_can_read_lock := True\<rparr>
      in if \<not> shm_open_ok env then queue_new_fail r0
         else if \<not> shm_unlink_ok env then queue_new_fail r1
         else if \<not> ftruncate_ok env then queue_new_fail r1
         else if \<not> sem_open_write_ok env then queue_new_fail r1
         else if \<not> sem_unlink_write_ok env then queue_new_fail r2
         else if \<not> sem_open_read_ok env then queue_new_fail r2
         else if \<not> sem_unlink_read_ok env then queue_new_fail r3
         else if \<not> mmap_ok env then queue_new_fail r3
         else r3\<lparr>res_mem := True\<rparr>)"

text \<open>
  What is released. A queue_new that fails gives back the heap and the descriptor, and queue_free
  after one that succeeds also the mapping; but a semaphore that has been opened stays open in both
  cases.
\<close>

theorem queue_resources_released:
  "let r = (case queue_new env max_count element_size of
      None \<Rightarrow> queue_new_resources env | Some q \<Rightarrow> queue_free (queue_new_resources env))
   in \<not> res_struct r \<and> \<not> res_name r \<and> \<not> res_shmem_fd r \<and> \<not> res_mem r
    \<and> (res_can_write_lock r \<longleftrightarrow> shm_open_ok env \<and> shm_unlink_ok env \<and> ftruncate_ok env \<and> sem_open_write_ok env)
    \<and> (res_can_read_lock r \<longleftrightarrow> res_can_write_lock r \<and> sem_unlink_write_ok env \<and> sem_open_read_ok env)"
  unfolding queue_new_def queue_new_resources_def queue_new_fail_def queue_free_def Let_def
  by (simp split: if_splits)

end
