(* ===== verification/Struct_Layouts.thy ===== *)
theory Struct_Layouts
  imports Machine_Types Shared_Queue
begin

text \<open>
  The structs of types.h as bytes, in the layout of the x86-64 ABI, and the queues that carry them.
  \<open>pad\<close> is what the compiler leaves in the padding.
\<close>

section \<open>Layouts\<close>

definition token_bytes :: "byte \<Rightarrow> token_type \<Rightarrow> byte list" where
  "token_bytes pad t = le_bytes 4 (tok_destination t) @ replicate 4 pad @ le_bytes 8 (tok_data t)
     @ le_bytes 8 (tok_tag t)"

definition token_of_bytes :: "byte list \<Rightarrow> token_type" where
  "token_of_bytes bs = \<lparr>tok_destination = le_word (slice 0 4 bs), tok_data = le_word (slice 8 8 bs),
     tok_tag = le_word (slice 16 8 bs)\<rparr>"

definition pair_bytes :: "byte \<Rightarrow> ready_token_pair_type \<Rightarrow> byte list" where
  "pair_bytes pad p = token_bytes pad (token_1 p) @ token_bytes pad (token_2 p)"

definition pair_of_bytes :: "byte list \<Rightarrow> ready_token_pair_type" where
  "pair_of_bytes bs = \<lparr>token_1 = token_of_bytes (slice 0 24 bs), token_2 = token_of_bytes (slice 24 24 bs)\<rparr>"

definition packet_bytes :: "byte \<Rightarrow> execution_packet \<Rightarrow> byte list" where
  "packet_bytes pad p = le_bytes 8 (pkt_data_1 p) @ le_bytes 8 (pkt_data_2 p) @ le_bytes 4 (pkt_opcode p)
     @ replicate 4 pad @ le_bytes 8 (pkt_tag p) @ le_bytes 4 (pkt_destination_1 p)
     @ le_bytes 4 (pkt_destination_2 p) @ le_bytes 4 (pkt_input p) @ [pkt_marker p] @ replicate 3 pad"

definition packet_of_bytes :: "byte list \<Rightarrow> execution_packet" where
  "packet_of_bytes bs = \<lparr>pkt_data_1 = le_word (slice 0 8 bs), pkt_data_2 = le_word (slice 8 8 bs),
     pkt_opcode = le_word (slice 16 4 bs), pkt_tag = le_word (slice 24 8 bs),
     pkt_destination_1 = le_word (slice 32 4 bs), pkt_destination_2 = le_word (slice 36 4 bs),
     pkt_input = le_word (slice 40 4 bs), pkt_marker = bs ! 44\<rparr>"

definition instruction_bytes :: "byte \<Rightarrow> instruction \<Rightarrow> byte list" where
  "instruction_bytes pad i = le_bytes 4 (inst_opcode i) @ le_bytes 4 (inst_destination_1 i)
     @ le_bytes 4 (inst_destination_2 i) @ [inst_marker i] @ replicate 3 pad
     @ le_bytes 8 (inst_literal_1 i) @ le_bytes 8 (inst_literal_2 i)
     @ le_bytes 4 (inst_instruction_literal i) @ replicate 4 pad"

definition instruction_of_bytes :: "byte list \<Rightarrow> instruction" where
  "instruction_of_bytes bs = \<lparr>inst_opcode = le_word (slice 0 4 bs),
     inst_destination_1 = le_word (slice 4 4 bs), inst_destination_2 = le_word (slice 8 4 bs),
     inst_marker = bs ! 12, inst_literal_1 = le_word (slice 16 8 bs),
     inst_literal_2 = le_word (slice 24 8 bs), inst_instruction_literal = le_word (slice 32 4 bs)\<rparr>"

interpretation token_codec: codec 24 token_bytes token_of_bytes
  by unfold_locales
    (simp_all add: token_bytes_def token_of_bytes_def slice_def codec_simps nth_append)

interpretation pair_codec: codec 48 pair_bytes pair_of_bytes
  by unfold_locales
    (simp_all add: pair_bytes_def pair_of_bytes_def slice_def token_codec.length_enc token_codec.dec_enc)

interpretation packet_codec: codec 48 packet_bytes packet_of_bytes
  by unfold_locales
    (simp_all add: packet_bytes_def packet_of_bytes_def slice_def codec_simps nth_append)

interpretation instruction_codec: codec 40 instruction_bytes instruction_of_bytes
  by unfold_locales
    (simp_all add: instruction_bytes_def instruction_of_bytes_def slice_def codec_simps nth_append)

section \<open>Queues of structs\<close>

text \<open>
  A queue of byte strings whose elements have the size of a struct is a queue of structs.
\<close>

locale struct_queue = bounded_fifo inv valid cap contents add remove + codec size_of enc dec
  for inv :: "'q \<Rightarrow> bool" and valid :: "'q \<Rightarrow> byte list \<Rightarrow> bool" and cap :: "'q \<Rightarrow> nat"
    and contents :: "'q \<Rightarrow> byte list list" and add :: "byte list \<Rightarrow> 'q \<Rightarrow> 'q option"
    and remove :: "'q \<Rightarrow> (byte list \<times> 'q) option"
    and size_of :: nat and enc :: "byte \<Rightarrow> 'a \<Rightarrow> byte list" and dec :: "byte list \<Rightarrow> 'a" +
  fixes pad :: byte
  assumes valid_size: "inv q \<Longrightarrow> valid q e \<longleftrightarrow> length e = size_of"

sublocale struct_queue \<subseteq> typed: bounded_fifo inv "\<lambda>_ _. True" cap "\<lambda>q. map dec (contents q)"
  "\<lambda>x. add (enc pad x)" "\<lambda>q. map_option (map_prod dec id) (remove q)"
proof (unfold_locales, goal_cases)
  case (1 q)
  then show ?case by (simp add: length_contents)
next
  case (2 q x)
  then show ?case by (simp add: add_blocks valid_size length_enc)
next
  case (3 q x q')
  with add_law [of q "enc pad x" q'] show ?case by (simp add: valid_size length_enc dec_enc)
next
  case (4 q)
  then show ?case by (simp add: remove_blocks)
next
  case (5 q x q')
  then obtain e where "remove q = Some (e, q')" "dec e = x" by auto
  with remove_law [of q e q'] 5 show ?case by simp
qed

definition struct_queue_inv :: "nat \<Rightarrow> queue \<Rightarrow> bool" where
  "struct_queue_inv n q \<longleftrightarrow> queue_inv q \<and> q_element_size q = n"

lemma struct_queue_inv_kept:
  assumes "struct_queue_inv n q" and "queue_inv q'" and "queue_valid q' = queue_valid q"
  shows "struct_queue_inv n q'"
proof -
  have "queue_valid q' (replicate (q_element_size q) 0)"
    unfolding assms(3) by (simp add: queue_valid_def)
  with assms(1,2) show ?thesis by (simp add: struct_queue_inv_def queue_valid_def)
qed

interpretation sized_queue: bounded_fifo "struct_queue_inv n" queue_valid q_max_count queue_contents
  add_element remove_element for n
proof (unfold_locales, goal_cases)
  case (1 q)
  then show ?case by (simp add: struct_queue_inv_def queue_contents_bound)
next
  case (2 q x)
  then show ?case by (simp add: struct_queue_inv_def byte_queue.add_blocks)
next
  case (3 q x q')
  with byte_queue.add_law [of q x q'] show ?case
    using struct_queue_inv_kept [of n q q'] by (simp add: struct_queue_inv_def)
next
  case (4 q)
  then show ?case by (simp add: struct_queue_inv_def byte_queue.remove_blocks)
next
  case (5 q x q')
  with byte_queue.remove_law [of q x q'] show ?case
    using struct_queue_inv_kept [of n q q'] by (simp add: struct_queue_inv_def)
qed

interpretation token_queue: struct_queue "struct_queue_inv 24" queue_valid q_max_count
  queue_contents add_element remove_element 24 token_bytes token_of_bytes pad for pad
  by unfold_locales (simp add: struct_queue_inv_def queue_valid_def)

interpretation pair_queue: struct_queue "struct_queue_inv 48" queue_valid q_max_count
  queue_contents add_element remove_element 48 pair_bytes pair_of_bytes pad for pad
  by unfold_locales (simp add: struct_queue_inv_def queue_valid_def)

interpretation packet_queue: struct_queue "struct_queue_inv 48" queue_valid q_max_count
  queue_contents add_element remove_element 48 packet_bytes packet_of_bytes pad for pad
  by unfold_locales (simp add: struct_queue_inv_def queue_valid_def)

lemma fresh_struct_queue:
  assumes "queue_new env max_count n = Some q" and "0 < max_count" and "0 < n" and "n < 2 ^ 31"
    and "max_count < 2 ^ 32"
  shows "struct_queue_inv n q" and "queue_contents q = []" and "q_max_count q = max_count"
proof -
  have "max_count * n \<le> 2 ^ 32 * 2 ^ 31" using assms(4,5) by (intro mult_le_mono) simp_all
  then have "max_count * n + 63 < 2 ^ 64" by simp
  from queue_new_inv [OF assms(1-3,5) this]
  show "struct_queue_inv n q" "queue_contents q = []" "q_max_count q = max_count"
    by (simp_all add: struct_queue_inv_def)
qed

text \<open>
  Execution packets and tokens travel through the shared queue unchanged and in order, whatever
  the compiler leaves in the padding: the structs added to a fresh queue of their size, as many as
  it holds, are the structs removed.
\<close>


theorem structs_travel_unchanged:
  assumes "queue_new env1 m1 48 = Some q1" and "queue_new env2 m2 24 = Some q2"
    and "0 < m1" and "m1 < 2 ^ 32" and "0 < m2" and "m2 < 2 ^ 32"
    and "length ps \<le> m1" and "length ts \<le> m2"
  shows "(\<exists>q q'. add_all (\<lambda>p. add_element (packet_bytes pad p)) ps q1 = Some q
       \<and> remove_n (\<lambda>q. map_option (map_prod packet_of_bytes id) (remove_element q)) (length ps) q = Some (ps, q'))
     \<and> (\<exists>q q'. add_all (\<lambda>t. add_element (token_bytes pad t)) ts q2 = Some q
       \<and> remove_n (\<lambda>q. map_option (map_prod token_of_bytes id) (remove_element q)) (length ts) q = Some (ts, q'))"
proof -
  note 1 = fresh_struct_queue [OF assms(1,3) _ _ assms(4), simplified]
  note 2 = fresh_struct_queue [OF assms(2,5) _ _ assms(6), simplified]
  from packet_queue.typed.batch_roundtrip [of q1 ps] token_queue.typed.batch_roundtrip [of q2 ts]
    1 2 assms(7,8) show ?thesis by fastforce
qed

theorem structs_travel_unchanged_witness:
  "\<exists>q1 q2 q q'. queue_new all_calls_ok 1024 48 = Some q1 \<and> queue_new all_calls_ok 1024 24 = Some q2
     \<and> add_all (\<lambda>t. add_element (token_bytes 0xcc t))
          [\<lparr>tok_destination = 1, tok_data = 2, tok_tag = 3\<rparr>] q2 = Some q
     \<and> remove_n (\<lambda>q. map_option (map_prod token_of_bytes id) (remove_element q)) 1 q
          = Some ([\<lparr>tok_destination = 1, tok_data = 2, tok_tag = 3\<rparr>], q')"
proof -
  obtain q1 q2 where q: "queue_new all_calls_ok 1024 48 = Some q1" "queue_new all_calls_ok 1024 24 = Some q2"
    by (simp add: queue_new_def Let_def)
  from structs_travel_unchanged [OF q, where ps = "[]" and pad = "0xcc" and
      ts = "[\<lparr>tok_destination = 1, tok_data = 2, tok_tag = 3\<rparr>]"] q
  show ?thesis by auto
qed

end
