(* ===== verification/Sephi_Loader.thy ===== *)
theory Sephi_Loader
  imports Struct_Layouts
begin

text \<open>
  The file format of sephi.h and load_file of instruction_store.c on the bytes of the file: header
  checks, the search for external references, relocation, the filter for privileged opcodes, the
  resolution of references and the exports.
\<close>

section \<open>The file format\<close>

definition MAGIC_BYTES :: "byte list" where
  "MAGIC_BYTES = [0x73, 0x65, 0x70, 0x68, 0x69, 0x41, 0x4c, 0x44]"

definition REFERENCE_MAX_SIZE :: nat where
  "REFERENCE_MAX_SIZE = 256"

record sephi_header =
  hdr_magic_bytes :: "byte list"
  hdr_num_constant :: u16
  hdr_num_to_fix :: u16
  hdr_num_external_ref :: u16
  hdr_num_exported :: u16

record destination_to_update =
  dtu_instruction_number :: u32
  dtu_flags :: byte

record external_reference =
  ext_destination :: destination_to_update
  ext_name :: "byte list"

record export_symbol =
  exp_local_destination :: destination_type
  exp_name :: "byte list"

definition header_of_bytes :: "byte list \<Rightarrow> sephi_header" where
  "header_of_bytes bs = \<lparr>hdr_magic_bytes = slice 0 8 bs, hdr_num_constant = le_word (slice 8 2 bs),
     hdr_num_to_fix = le_word (slice 10 2 bs), hdr_num_external_ref = le_word (slice 12 2 bs),
     hdr_num_exported = le_word (slice 14 2 bs)\<rparr>"

definition update_of_bytes :: "byte list \<Rightarrow> destination_to_update" where
  "update_of_bytes bs = \<lparr>dtu_instruction_number = le_word (slice 0 4 bs), dtu_flags = bs ! 4\<rparr>"

definition reference_of_bytes :: "byte list \<Rightarrow> external_reference" where
  "reference_of_bytes bs = \<lparr>ext_destination = update_of_bytes (slice 0 8 bs), ext_name = slice 8 256 bs\<rparr>"

definition export_of_bytes :: "byte list \<Rightarrow> export_symbol" where
  "export_of_bytes bs = \<lparr>exp_local_destination = le_word (slice 0 4 bs), exp_name = slice 4 256 bs\<rparr>"

text \<open>The bits of the union flags.\<close>

definition is_first_destination :: "byte \<Rightarrow> bool" where
  "is_first_destination raw = bit raw 0"

definition is_second_destination :: "byte \<Rightarrow> bool" where
  "is_second_destination raw = bit raw 1"

definition is_first_literal :: "byte \<Rightarrow> bool" where
  "is_first_literal raw = bit raw 2"

definition is_second_literal :: "byte \<Rightarrow> bool" where
  "is_second_literal raw = bit raw 3"

text \<open>An array of n structs of a size, from an offset on.\<close>

definition array_of :: "(byte list \<Rightarrow> 'a) \<Rightarrow> nat \<Rightarrow> nat \<Rightarrow> nat \<Rightarrow> byte list \<Rightarrow> 'a list" where
  "array_of dec size_of n off bs = map (\<lambda>i. dec (slice (off + size_of * i) size_of bs)) [0..<n]"

section \<open>State and helpers\<close>

record export_node =
  node_current_destination :: destination_type
  node_name :: "byte list"

text \<open>
  The globals: the loaded instructions, num_instructions of them, and the linked list of exports.
  A node's name is the string in its buffer.
\<close>

record code_store =
  cs_instructions :: "instruction list"
  cs_exports :: "export_node list"

definition empty_store :: code_store where
  "empty_store = \<lparr>cs_instructions = [], cs_exports = []\<rparr>"

fun find_export :: "byte list \<Rightarrow> export_node list \<Rightarrow> export_node option" where
  "find_export name [] = None"
| "find_export name (cur # rest) =
     (if node_name cur = name then Some cur else find_export name rest)"

definition FIRST_DESTINATION :: nat where "FIRST_DESTINATION = 1"
definition SECOND_DESTINATION :: nat where "SECOND_DESTINATION = 2"
definition FIRST_LITERAL :: nat where "FIRST_LITERAL = 3"
definition SECOND_LITERAL :: nat where "SECOND_LITERAL = 4"

fun is_in_list :: "destination_to_update list \<Rightarrow> u32 \<Rightarrow> nat \<Rightarrow> bool" where
  "is_in_list [] cur which_destination = False"
| "is_in_list (c # constants) cur which_destination =
     (if dtu_instruction_number c = cur
         \<and> (which_destination = FIRST_DESTINATION \<and> is_first_destination (dtu_flags c)
            \<or> which_destination = SECOND_DESTINATION \<and> is_second_destination (dtu_flags c)
            \<or> which_destination = FIRST_LITERAL \<and> is_first_literal (dtu_flags c)
            \<or> which_destination = SECOND_LITERAL \<and> is_second_literal (dtu_flags c))
      then True else is_in_list constants cur which_destination)"

definition increment_destination_address :: "destination_type \<Rightarrow> u32 \<Rightarrow> destination_type" where
  "increment_destination_address destination to_add =
     CREATE_DESTINATION (DESTINATION_TO_ADDRESS destination + to_add)
       (DESTINATION_TO_INPUT destination) (DESTINATION_TO_MATCHING_FUNCTION destination)"

section \<open>Reading the file\<close>

text \<open>
  An opened file: its size as lseek reports it, and what the n-th read of up to a number of bytes
  returns; None is an error. read() returns at most the bytes asked for; a read that wrote past the
  buffer would be a Fault.
\<close>

record os_file =
  file_size :: u64
  file_read :: "nat \<Rightarrow> nat \<Rightarrow> byte list option"

text \<open>
  read_all with \<open>cap\<close> bytes of buffer: the bytes it has read, or None for an error. The size is
  an int in C, and the count passed to read() a size_t.
\<close>

function read_all :: "(nat \<Rightarrow> nat \<Rightarrow> byte list option) \<Rightarrow> nat \<Rightarrow> nat \<Rightarrow> int \<Rightarrow> byte list
    \<Rightarrow> byte list option outcome" where
  "read_all rd n cap buf_size got =
     (case rd n (unat (word_of_int (buf_size - int (length got)) :: u64)) of
        None \<Rightarrow> Ok None
      | Some bs \<Rightarrow>
          if cap < length got + length bs then Fault
          else if bs = [] then Ok (Some got)
          else read_all rd (Suc n) cap buf_size (got @ bs))"
  by pat_completeness auto
termination by (relation "measure (\<lambda>(rd, n, cap, buf_size, got). cap - length got)")
  (auto simp flip: length_greater_0_conv)

declare read_all.simps [simp del]

section \<open>The image in a file\<close>

record sephi_image =
  img_constants :: "destination_to_update list"
  img_to_fix :: "destination_to_update list"
  img_references :: "external_reference list"
  img_exports :: "export_symbol list"
  img_instructions :: "instruction list"

text \<open>
  The part of load_file that finds the tables in the buffer: None when the magic bytes differ, a
  table lies behind the end, or what is left is not a whole number of instructions.
\<close>

definition image_of_bytes :: "byte list \<Rightarrow> sephi_image option" where
  "image_of_bytes content =
     (let header = header_of_bytes (slice 0 16 content);
          num_constant = unat (hdr_num_constant header);
          num_to_fix = unat (hdr_num_to_fix header);
          num_external_references = unat (hdr_num_external_ref header);
          num_exports = unat (hdr_num_exported header);
          constants = 16;
          to_fix = constants + 8 * num_constant;
          external_references = to_fix + 8 * num_to_fix;
          this_exports = external_references + 264 * num_external_references;
          start_instructions = this_exports + 260 * num_exports;
          file_end = length content;
          instruction_size = file_end - start_instructions
      in if hdr_magic_bytes header \<noteq> MAGIC_BYTES then None
         else if file_end < constants \<or> file_end < to_fix \<or> file_end < external_references
             \<or> file_end < this_exports \<or> file_end < start_instructions then None
         else if instruction_size mod 40 \<noteq> 0 then None
         else Some \<lparr>img_constants = array_of update_of_bytes 8 num_constant constants content,
                img_to_fix = array_of update_of_bytes 8 num_to_fix to_fix content,
                img_references =
                  array_of reference_of_bytes 264 num_external_references external_references content,
                img_exports = array_of export_of_bytes 260 num_exports this_exports content,
                img_instructions =
                  array_of instruction_of_bytes 40 (instruction_size div 40) start_instructions content\<rparr>)"

text \<open>A name buffer whose last byte has been overwritten with NUL.\<close>

definition name_string :: "byte list \<Rightarrow> byte list" where
  "name_string name = c_string (take (REFERENCE_MAX_SIZE - 1) name)"

section \<open>Loading\<close>

text \<open>One iteration of the relocation loop.\<close>

definition relocate_instruction :: "destination_to_update list \<Rightarrow> destination_to_update list \<Rightarrow> u32
    \<Rightarrow> bool \<Rightarrow> u32 \<Rightarrow> instruction \<Rightarrow> instruction" where
  "relocate_instruction constants to_fix start is_privileged i inst0 =
     (let inst1 = (if \<not> is_in_list constants i FIRST_DESTINATION
                      \<and> inst_destination_1 inst0 \<noteq> DEV_NULL_DESTINATION
                   then inst0\<lparr>inst_destination_1 :=
                     increment_destination_address (inst_destination_1 inst0) start\<rparr> else inst0);
          inst2 = (if \<not> is_in_list constants i SECOND_DESTINATION
                      \<and> inst_destination_2 inst1 \<noteq> DEV_NULL_DESTINATION
                   then inst1\<lparr>inst_destination_2 :=
                     increment_destination_address (inst_destination_2 inst1) start\<rparr> else inst1);
          inst3 = (if is_in_list to_fix i FIRST_LITERAL
                   then inst2\<lparr>inst_literal_1 :=
                     ucast (increment_destination_address (ucast (inst_literal_1 inst2)) start)\<rparr> else inst2);
          inst4 = (if is_in_list to_fix i SECOND_LITERAL
                   then inst3\<lparr>inst_literal_2 :=
                     ucast (increment_destination_address (ucast (inst_literal_2 inst3)) start)\<rparr> else inst3)
      in if \<not> is_privileged
            \<and> (inst_opcode inst4 = opcode_val OPN \<or> inst_opcode inst4 = opcode_val RED
               \<or> inst_opcode inst4 = opcode_val WRT \<or> inst_opcode inst4 = opcode_val CLS
               \<or> inst_opcode inst4 = opcode_val HLT \<or> inst_opcode inst4 = opcode_val LOD
               \<or> inst_opcode inst4 = opcode_val LS \<or> inst_opcode inst4 = opcode_val SDF
               \<or> inst_opcode inst4 = opcode_val ULK \<or> inst_opcode inst4 = opcode_val LSK
               \<or> inst_opcode inst4 = opcode_val RND)
         then inst4\<lparr>inst_opcode := opcode_val DUP\<rparr> else inst4)"

text \<open>The relocation loop over the instructions of the image.\<close>

definition relocate_all :: "sephi_image \<Rightarrow> nat \<Rightarrow> bool \<Rightarrow> instruction list" where
  "relocate_all img start is_privileged =
     map (\<lambda>(i, inst). relocate_instruction (img_constants img) (img_to_fix img) (of_nat start)
            is_privileged (of_nat i) inst)
       (zip [0..<length (img_instructions img)] (img_instructions img))"

text \<open>What an external reference writes into an instruction.\<close>

definition patch_instruction :: "byte \<Rightarrow> destination_type \<Rightarrow> instruction \<Rightarrow> instruction" where
  "patch_instruction raw dest inst0 =
     (let inst1 = (if is_first_destination raw then inst0\<lparr>inst_destination_1 := dest\<rparr> else inst0);
          inst2 = (if is_second_destination raw then inst1\<lparr>inst_destination_2 := dest\<rparr> else inst1);
          inst3 = (if is_first_literal raw then inst2\<lparr>inst_literal_1 := ucast dest\<rparr> else inst2);
          inst4 = (if is_second_literal raw then inst3\<lparr>inst_literal_2 := ucast dest\<rparr> else inst3)
      in if raw AND 0x80 \<noteq> 0 then inst4\<lparr>inst_opcode := dest\<rparr> else inst4)"

text \<open>
  The loop over the external references: the instructions, and whether it has come to its end. The
  check lets the number behind the last instruction pass; a write there is outside the array.
\<close>

fun resolve_references :: "nat \<Rightarrow> nat \<Rightarrow> export_node list \<Rightarrow> external_reference list
    \<Rightarrow> instruction list \<Rightarrow> (instruction list \<times> bool) outcome" where
  "resolve_references start n_new exports [] insts = Ok (insts, True)"
| "resolve_references start n_new exports (r # rs) insts =
     (case find_export (name_string (ext_name r)) exports of
        None \<Rightarrow> Fault
      | Some result \<Rightarrow>
          let inst_num = unat (dtu_instruction_number (ext_destination r));
              raw = dtu_flags (ext_destination r);
              dest = node_current_destination result
          in if n_new < inst_num then Ok (insts, False)
             else if start + inst_num < length insts
             then resolve_references start n_new exports rs
                    (insts[start + inst_num := patch_instruction raw dest (insts ! (start + inst_num))])
             else if raw AND 0x8f \<noteq> 0 then Fault
             else resolve_references start n_new exports rs insts)"

definition new_export_node :: "u32 \<Rightarrow> export_symbol \<Rightarrow> export_node" where
  "new_export_node start e =
     \<lparr>node_current_destination = increment_destination_address (exp_local_destination e) start,
      node_name = name_string (exp_name e)\<rparr>"

text \<open>
  loaded_code_info: where the new instructions start, how many they are, and the new export nodes.
\<close>

record loaded_code_info =
  lci_instructions :: nat
  lci_current_num_instructions :: nat
  lci_exports :: "export_node list"

text \<open>
  load_file once the buffer is filled. The result None is the error -1; the store returned with it
  keeps the instructions a failed resolution has already appended.
\<close>

definition load_image :: "byte list \<Rightarrow> bool \<Rightarrow> code_store
    \<Rightarrow> (code_store \<times> loaded_code_info option) outcome" where
  "load_image content is_privileged cs =
     (case image_of_bytes content of
        None \<Rightarrow> Ok (cs, None)
      | Some img \<Rightarrow>
          if \<exists>r\<in>set (img_references img). find_export (name_string (ext_name r)) (cs_exports cs) = None
          then Ok (cs, None)
          else
            let start = length (cs_instructions cs);
                n_new = length (img_instructions img);
                loaded = relocate_all img start is_privileged
            in outcome_bind
                 (resolve_references start n_new (cs_exports cs) (img_references img)
                    (cs_instructions cs @ loaded))
                 (\<lambda>(insts, resolved).
                    if resolved
                    then let nodes = map (new_export_node (of_nat start)) (img_exports img)
                         in Ok (cs\<lparr>cs_instructions := insts, cs_exports := cs_exports cs @ nodes\<rparr>,
                              Some \<lparr>lci_instructions = start, lci_current_num_instructions = n_new,
                                lci_exports = nodes\<rparr>)
                    else Ok (cs\<lparr>cs_instructions := insts\<rparr>, None)))"

text \<open>
  The first part of load_file: the buffer once the file has been read, or None when the file is too
  small, malloc fails or a read fails. \<open>malloc n\<close> is None when malloc fails, and otherwise the n
  bytes the new buffer holds; what the reads do not fill keeps them.
\<close>

definition read_content :: "(u64 \<Rightarrow> byte list option) \<Rightarrow> os_file \<Rightarrow> byte list option outcome" where
  "read_content malloc fd =
     (if file_size fd < 16 then Ok None
      else case malloc (file_size fd) of
        None \<Rightarrow> Ok None
      | Some buffer \<Rightarrow>
          outcome_bind
            (read_all (file_read fd) 0 (length buffer) (sint (ucast (file_size fd) :: u32)) [])
            (\<lambda>result. Ok (map_option (\<lambda>got. got @ drop (length got) buffer) result)))"

definition load_file :: "(u64 \<Rightarrow> byte list option) \<Rightarrow> os_file \<Rightarrow> bool \<Rightarrow> code_store
    \<Rightarrow> (code_store \<times> loaded_code_info option) outcome" where
  "load_file malloc fd is_privileged cs =
     outcome_bind (read_content malloc fd) (\<lambda>content. case content of
        None \<Rightarrow> Ok (cs, None)
      | Some content \<Rightarrow> load_image content is_privileged cs)"

section \<open>Relocation of one destination\<close>


lemma bit_recreated:
  fixes a d :: u32
  shows "bit (CREATE_DESTINATION a (DESTINATION_TO_INPUT d) (DESTINATION_TO_MATCHING_FUNCTION d)) n
     \<longleftrightarrow> (if n < 2 then bit d n else if n = 2 then False else if n = 3 then bit d 3
      else n < 32 \<and> bit a (n - 4))"
  by (auto simp: destination_defs bit_simps)

lemma increment_destination_parts:
  "unat (DESTINATION_TO_ADDRESS (increment_destination_address d k))
     = (unat (DESTINATION_TO_ADDRESS d) + unat k) mod 2 ^ 28"
  "DESTINATION_TO_INPUT (increment_destination_address d k) = DESTINATION_TO_INPUT d"
  "DESTINATION_TO_MATCHING_FUNCTION (increment_destination_address d k)
     = DESTINATION_TO_MATCHING_FUNCTION d"
proof -
  let ?a = "DESTINATION_TO_ADDRESS d + k" and ?e = "increment_destination_address d k"
  have e: "bit ?e n \<longleftrightarrow> (if n < 2 then bit d n else if n = 2 then False else if n = 3 then bit d 3
      else n < 32 \<and> bit ?a (n - 4))" for n
    unfolding increment_destination_address_def by (rule bit_recreated)
  show "DESTINATION_TO_INPUT ?e = DESTINATION_TO_INPUT d"
    by (rule bit_word_eqI) (auto simp: DESTINATION_TO_INPUT_def bit_simps e)
  show "DESTINATION_TO_MATCHING_FUNCTION ?e = DESTINATION_TO_MATCHING_FUNCTION d"
    by (rule bit_word_eqI) (auto simp: DESTINATION_TO_MATCHING_FUNCTION_def bit_simps e)
  have "DESTINATION_TO_ADDRESS ?e = take_bit 28 ?a"
    by (rule bit_word_eqI) (auto simp: DESTINATION_TO_ADDRESS_def bit_simps e)
  then have "unat (DESTINATION_TO_ADDRESS ?e) = unat ?a mod 2 ^ 28"
    by (simp only: unsigned_take_bit_eq) (simp only: take_bit_eq_mod)
  also have "unat ?a = (unat (DESTINATION_TO_ADDRESS d) + unat k) mod 2 ^ 32"
    by (simp add: unat_word_ariths)
  finally show "unat (DESTINATION_TO_ADDRESS ?e) = (unat (DESTINATION_TO_ADDRESS d) + unat k) mod 2 ^ 28"
    by (simp add: mod_mod_cancel)
qed

section \<open>What a load does to the store\<close>

text \<open>The references of a file to instruction \<open>i\<close>, resolved, in the order of the file.\<close>

definition patches_of :: "export_node list \<Rightarrow> external_reference list \<Rightarrow> nat \<Rightarrow> (byte \<times> destination_type) list" where
  "patches_of exports rs i =
     map (\<lambda>r. (dtu_flags (ext_destination r),
               node_current_destination (the (find_export (name_string (ext_name r)) exports))))
       (filter (\<lambda>r. unat (dtu_instruction_number (ext_destination r)) = i) rs)"

definition apply_patches :: "(byte \<times> destination_type) list \<Rightarrow> instruction \<Rightarrow> instruction" where
  "apply_patches ps inst = fold (\<lambda>(raw, dest). patch_instruction raw dest) ps inst"

lemma patch_nothing: "raw AND 0x8f = 0 \<Longrightarrow> patch_instruction raw dest inst = inst"
proof -
  assume "raw AND 0x8f = 0"
  then have none: "bit (raw AND 0x8f) n = False" for n by simp
  have "bit (0x8f :: byte) 0" "bit (0x8f :: byte) 1" "bit (0x8f :: byte) 2" "bit (0x8f :: byte) 3"
    "bit (0x8f :: byte) 7" by simp_all
  with none have "\<not> bit raw 0 \<and> \<not> bit raw 1 \<and> \<not> bit raw 2 \<and> \<not> bit raw 3 \<and> \<not> bit raw 7"
    unfolding bit_and_iff by blast
  moreover have "raw AND 0x80 = 0" if "\<not> bit raw 7"
    by (rule bit_word_eqI) (use that in \<open>auto simp: bit_simps\<close>)
  ultimately show ?thesis
    by (simp add: patch_instruction_def is_first_destination_def is_second_destination_def
        is_first_literal_def is_second_literal_def)
qed

lemma resolve_references_spec:
  assumes "resolve_references start n exports rs insts = Ok (insts', resolved)"
    and "length insts = start + n"
  shows "length insts' = length insts \<and> take start insts' = take start insts
    \<and> (resolved \<longrightarrow> (\<forall>i<n. insts' ! (start + i) = apply_patches (patches_of exports rs i) (insts ! (start + i)))
         \<and> (\<forall>r\<in>set rs. unat (dtu_instruction_number (ext_destination r)) \<le> n))"
  using assms
proof (induction rs arbitrary: insts)
  case Nil
  then show ?case by (simp add: patches_of_def apply_patches_def)
next
  case (Cons r rs)
  from Cons.prems(1) obtain node where node: "find_export (name_string (ext_name r)) exports = Some node"
    by (cases "find_export (name_string (ext_name r)) exports") auto
  let ?i = "unat (dtu_instruction_number (ext_destination r))" and ?raw = "dtu_flags (ext_destination r)"
  let ?dest = "node_current_destination node"
  let ?insts = "insts[start + ?i := patch_instruction ?raw ?dest (insts ! (start + ?i))]"
  consider (bad) "n < ?i" | (inside) "?i < n" | (behind) "?i = n" by linarith
  then show ?case
  proof cases
    case bad
    with Cons.prems node show ?thesis by (simp add: Let_def)
  next
    case inside
    with Cons.prems node have run: "resolve_references start n exports rs ?insts = Ok (insts', resolved)"
      by (simp add: Let_def)
    have "length ?insts = start + n" using Cons.prems(2) by simp
    from Cons.IH [OF run this] inside Cons.prems(2) node show ?thesis
      by (auto simp: patches_of_def apply_patches_def nth_list_update)
  next
    case behind
    with Cons.prems node have run: "resolve_references start n exports rs insts = Ok (insts', resolved)"
      by (simp add: Let_def split: if_splits)
    from Cons.IH [OF run Cons.prems(2)] behind show ?thesis
      by (auto simp: patches_of_def apply_patches_def)
  qed
qed

text \<open>
  The resolution leaves the array exactly when a reference to the instruction behind the last one
  asks for a write, before a reference that is rejected.
\<close>

definition reference_overruns :: "nat \<Rightarrow> external_reference \<Rightarrow> bool" where
  "reference_overruns n r \<longleftrightarrow> unat (dtu_instruction_number (ext_destination r)) = n
     \<and> dtu_flags (ext_destination r) AND 0x8f \<noteq> 0"

lemma resolve_references_outcome:
  assumes "\<forall>r\<in>set rs. find_export (name_string (ext_name r)) exports \<noteq> None"
    and "length insts = start + n"
  shows "(if \<exists>r\<in>set (takeWhile (\<lambda>r. unat (dtu_instruction_number (ext_destination r)) \<le> n) rs).
        reference_overruns n r
     then resolve_references start n exports rs insts = Fault
     else \<exists>insts'. resolve_references start n exports rs insts =
       Ok (insts', \<forall>r\<in>set rs. unat (dtu_instruction_number (ext_destination r)) \<le> n))"
  using assms
proof (induction rs arbitrary: insts)
  case Nil
  then show ?case by simp
next
  case (Cons r rs)
  then obtain node where node: "find_export (name_string (ext_name r)) exports = Some node" by auto
  let ?i = "unat (dtu_instruction_number (ext_destination r))" and ?raw = "dtu_flags (ext_destination r)"
  let ?insts = "insts[start + ?i := patch_instruction ?raw (node_current_destination node) (insts ! (start + ?i))]"
  consider (bad) "n < ?i" | (inside) "?i < n" | (behind) "?i = n" by linarith
  then show ?case
  proof cases
    case bad
    with node show ?thesis by (auto simp: Let_def)
  next
    case inside
    then have "\<not> reference_overruns n r" by (simp add: reference_overruns_def)
    moreover have "length ?insts = start + n" using Cons.prems(2) by simp
    ultimately show ?thesis
      using Cons.IH [of ?insts] Cons.prems node inside by (simp add: Let_def)
  next
    case behind
    then show ?thesis
      using Cons.IH [of insts] Cons.prems node
      by (auto simp: Let_def reference_overruns_def)
  qed
qed

lemma length_relocate_all [simp]: "length (relocate_all img start p) = length (img_instructions img)"
  by (simp add: relocate_all_def)

lemma nth_relocate_all:
  "i < length (img_instructions img) \<Longrightarrow> relocate_all img start p ! i =
     relocate_instruction (img_constants img) (img_to_fix img) (of_nat start) p (of_nat i)
       (img_instructions img ! i)"
  by (simp add: relocate_all_def)

definition loaded_as :: "nat \<Rightarrow> sephi_image \<Rightarrow> loaded_code_info" where
  "loaded_as start img = \<lparr>lci_instructions = start,
     lci_current_num_instructions = length (img_instructions img),
     lci_exports = map (new_export_node (of_nat start)) (img_exports img)\<rparr>"

lemma load_image_cases:
  assumes "load_image content is_privileged cs = Ok (cs', result)"
  shows "cs' = cs \<and> result = None
    \<or> (\<exists>img insts' resolved. image_of_bytes content = Some img
       \<and> resolve_references (length (cs_instructions cs)) (length (img_instructions img)) (cs_exports cs)
           (img_references img)
           (cs_instructions cs @ relocate_all img (length (cs_instructions cs)) is_privileged)
         = Ok (insts', resolved)
       \<and> cs_instructions cs' = insts'
       \<and> result = (if resolved then Some (loaded_as (length (cs_instructions cs)) img) else None)
       \<and> cs_exports cs' = cs_exports cs @ (if resolved then
            lci_exports (loaded_as (length (cs_instructions cs)) img) else []))"
proof (cases "image_of_bytes content")
  case None
  with assms show ?thesis by (simp add: load_image_def)
next
  case (Some img)
  let ?r = "resolve_references (length (cs_instructions cs)) (length (img_instructions img)) (cs_exports cs)
     (img_references img) (cs_instructions cs @ relocate_all img (length (cs_instructions cs)) is_privileged)"
  show ?thesis
  proof (cases "\<exists>r\<in>set (img_references img). find_export (name_string (ext_name r)) (cs_exports cs) = None")
    case True
    with assms Some show ?thesis by (simp add: load_image_def)
  next
    case False
    have step: "load_image content is_privileged cs = outcome_bind ?r (\<lambda>(insts, resolved).
        if resolved then Ok (cs\<lparr>cs_instructions := insts, cs_exports := cs_exports cs
            @ lci_exports (loaded_as (length (cs_instructions cs)) img)\<rparr>,
          Some (loaded_as (length (cs_instructions cs)) img))
        else Ok (cs\<lparr>cs_instructions := insts\<rparr>, None))"
      unfolding load_image_def Some option.case if_not_P [OF False] Let_def loaded_as_def
        loaded_code_info.simps
      by (rule refl)
    from assms obtain insts' resolved where r: "?r = Ok (insts', resolved)"
      unfolding step outcome_bind_Ok_iff by auto
    from assms have out: "(if resolved then Ok (cs\<lparr>cs_instructions := insts', cs_exports := cs_exports cs
            @ lci_exports (loaded_as (length (cs_instructions cs)) img)\<rparr>,
          Some (loaded_as (length (cs_instructions cs)) img))
        else Ok (cs\<lparr>cs_instructions := insts'\<rparr>, None)) = Ok (cs', result)"
      unfolding step r by simp
    have "cs_instructions cs' = insts'"
      "result = (if resolved then Some (loaded_as (length (cs_instructions cs)) img) else None)"
      "cs_exports cs' = cs_exports cs @ (if resolved then
            lci_exports (loaded_as (length (cs_instructions cs)) img) else [])"
      using out by (auto split: if_splits)
    with Some r show ?thesis by blast
  qed
qed

text \<open>A destination moved by a number of instructions: the same input and matching function.\<close>

definition moved_destination :: "u32 \<Rightarrow> destination_type \<Rightarrow> destination_type \<Rightarrow> bool" where
  "moved_destination k d d' \<longleftrightarrow>
     unat (DESTINATION_TO_ADDRESS d') = (unat (DESTINATION_TO_ADDRESS d) + unat k) mod 2 ^ 28
     \<and> DESTINATION_TO_INPUT d' = DESTINATION_TO_INPUT d
     \<and> DESTINATION_TO_MATCHING_FUNCTION d' = DESTINATION_TO_MATCHING_FUNCTION d"

lemma increment_moves: "moved_destination k d (increment_destination_address d k)"
  by (simp add: moved_destination_def increment_destination_parts)

text \<open>What the patches with flag bit \<open>k\<close> leave in a field: the last one counts.\<close>

definition patched :: "nat \<Rightarrow> (byte \<times> destination_type) list \<Rightarrow> 'a::len word \<Rightarrow> 'a word" where
  "patched k ps v = (case filter (\<lambda>(raw, dest). bit raw k) ps of
     [] \<Rightarrow> v | p # rest \<Rightarrow> ucast (snd (last (p # rest))))"

lemma patched_snoc:
  "patched k (ps @ [(raw, dest)]) v = (if bit raw k then ucast dest else patched k ps v)"
  by (cases "filter (\<lambda>(raw, dest). bit raw k) ps") (auto simp: patched_def)

lemma flag_0x80: "raw AND 0x80 \<noteq> 0 \<longleftrightarrow> bit raw 7" for raw :: byte
  unfolding word_eq_0_bits by (auto simp: bit_simps intro!: exI [of _ 7])

lemma apply_patches_fields:
  "inst_destination_1 (apply_patches ps inst) = patched 0 ps (inst_destination_1 inst)
   \<and> inst_destination_2 (apply_patches ps inst) = patched 1 ps (inst_destination_2 inst)
   \<and> inst_literal_1 (apply_patches ps inst) = patched 2 ps (inst_literal_1 inst)
   \<and> inst_literal_2 (apply_patches ps inst) = patched 3 ps (inst_literal_2 inst)
   \<and> inst_opcode (apply_patches ps inst) = patched 7 ps (inst_opcode inst)
   \<and> inst_marker (apply_patches ps inst) = inst_marker inst
   \<and> inst_instruction_literal (apply_patches ps inst) = inst_instruction_literal inst"
proof (induction ps rule: rev_induct)
  case Nil
  then show ?case by (simp add: apply_patches_def patched_def)
next
  case (snoc p ps)
  obtain raw dest where p: "p = (raw, dest)" by (cases p)
  have "apply_patches (ps @ [p]) inst = patch_instruction raw dest (apply_patches ps inst)"
    by (simp add: apply_patches_def p)
  with snoc.IH show ?case
    by (simp add: p patched_snoc patch_instruction_def Let_def flag_0x80 is_first_destination_def
        is_second_destination_def is_first_literal_def is_second_literal_def)
qed

text \<open>The opcodes user code must not execute.\<close>

definition privileged :: "u32 \<Rightarrow> bool" where
  "privileged v \<longleftrightarrow> v \<in> opcode_val ` set privileged_opcodes"

lemma privileged_cases:
  "privileged v \<longleftrightarrow> v = opcode_val OPN \<or> v = opcode_val RED \<or> v = opcode_val WRT
      \<or> v = opcode_val CLS \<or> v = opcode_val HLT \<or> v = opcode_val LOD \<or> v = opcode_val LS
      \<or> v = opcode_val SDF \<or> v = opcode_val ULK \<or> v = opcode_val LSK \<or> v = opcode_val RND"
  by (simp add: privileged_def privileged_opcodes_def del: opcode_val.simps)

lemma conditional_updates:
  "(if b then x\<lparr>inst_destination_1 := d\<rparr> else x) = x\<lparr>inst_destination_1 := if b then d else inst_destination_1 x\<rparr>"
  "(if b then x\<lparr>inst_destination_2 := d\<rparr> else x) = x\<lparr>inst_destination_2 := if b then d else inst_destination_2 x\<rparr>"
  "(if b then x\<lparr>inst_literal_1 := l\<rparr> else x) = x\<lparr>inst_literal_1 := if b then l else inst_literal_1 x\<rparr>"
  "(if b then x\<lparr>inst_literal_2 := l\<rparr> else x) = x\<lparr>inst_literal_2 := if b then l else inst_literal_2 x\<rparr>"
  "(if b then x\<lparr>inst_opcode := v\<rparr> else x) = x\<lparr>inst_opcode := if b then v else inst_opcode x\<rparr>"
  for x :: instruction
  by simp_all

lemma relocate_fields:
  fixes inst constants to_fix k i p
  defines "inst' \<equiv> relocate_instruction constants to_fix k p i inst"
  shows "inst_destination_1 inst' = (if \<not> is_in_list constants i FIRST_DESTINATION
        \<and> inst_destination_1 inst \<noteq> DEV_NULL_DESTINATION
      then increment_destination_address (inst_destination_1 inst) k else inst_destination_1 inst)"
    and "inst_destination_2 inst' = (if \<not> is_in_list constants i SECOND_DESTINATION
        \<and> inst_destination_2 inst \<noteq> DEV_NULL_DESTINATION
      then increment_destination_address (inst_destination_2 inst) k else inst_destination_2 inst)"
    and "inst_literal_1 inst' = (if is_in_list to_fix i FIRST_LITERAL
      then ucast (increment_destination_address (ucast (inst_literal_1 inst)) k) else inst_literal_1 inst)"
    and "inst_literal_2 inst' = (if is_in_list to_fix i SECOND_LITERAL
      then ucast (increment_destination_address (ucast (inst_literal_2 inst)) k) else inst_literal_2 inst)"
    and "inst_opcode inst' = (if \<not> p \<and> privileged (inst_opcode inst) then opcode_val DUP
        else inst_opcode inst)"
    and "inst_marker inst' = inst_marker inst"
    and "inst_instruction_literal inst' = inst_instruction_literal inst"
  unfolding inst'_def relocate_instruction_def Let_def privileged_cases [symmetric] conditional_updates
  by (simp_all del: opcode_val.simps)

section \<open>Properties of the loader\<close>

lemma load_image_accepted:
  assumes "load_image content is_privileged cs = Ok (cs', Some info)"
    and "image_of_bytes content = Some img" and "start = length (cs_instructions cs)"
  shows "lci_instructions info = start
     \<and> lci_current_num_instructions info = length (img_instructions img)
     \<and> length (cs_instructions cs') = start + length (img_instructions img)
     \<and> take start (cs_instructions cs') = cs_instructions cs
     \<and> (\<forall>i<length (img_instructions img).
          let loaded = cs_instructions cs' ! (start + i);
              ps = patches_of (cs_exports cs) (img_references img) i;
              moved = relocate_instruction (img_constants img) (img_to_fix img) (of_nat start)
                is_privileged (of_nat i) (img_instructions img ! i)
          in inst_destination_1 loaded = patched 0 ps (inst_destination_1 moved)
             \<and> inst_destination_2 loaded = patched 1 ps (inst_destination_2 moved)
             \<and> inst_literal_1 loaded = patched 2 ps (inst_literal_1 moved)
             \<and> inst_literal_2 loaded = patched 3 ps (inst_literal_2 moved)
             \<and> inst_opcode loaded = patched 7 ps (inst_opcode moved)
             \<and> inst_marker loaded = inst_marker (img_instructions img ! i)
             \<and> inst_instruction_literal loaded = inst_instruction_literal (img_instructions img ! i))
     \<and> list_all2 (\<lambda>e node. moved_destination (of_nat start) (exp_local_destination e) (node_current_destination node)
          \<and> node_name node = name_string (exp_name e)) (img_exports img) (lci_exports info)
     \<and> cs_exports cs' = cs_exports cs @ lci_exports info"
proof -
  from load_image_cases [OF assms(1)] assms(2) obtain insts' where
    run: "resolve_references (length (cs_instructions cs)) (length (img_instructions img)) (cs_exports cs)
      (img_references img) (cs_instructions cs @ relocate_all img (length (cs_instructions cs)) is_privileged)
      = Ok (insts', True)" and rest: "cs_instructions cs' = insts'"
      "info = loaded_as (length (cs_instructions cs)) img" "cs_exports cs' = cs_exports cs @ lci_exports info"
    by (auto split: if_splits)
  have kept: "inst_marker (relocate_instruction c f k p i inst) = inst_marker inst"
    "inst_instruction_literal (relocate_instruction c f k p i inst) = inst_instruction_literal inst"
    for c f k p i inst by (simp_all add: relocate_fields)
  from resolve_references_spec [OF run] rest show ?thesis
    unfolding assms(3) Let_def
    by (simp add: nth_append nth_relocate_all loaded_as_def apply_patches_fields kept list_all2_map2
        list.rel_refl new_export_node_def increment_moves)
qed

text \<open>
  C10: a file that load_file accepts is appended to the code store: instruction i of the file becomes
  instruction number start + i, relocated; then each field holds what the last external reference to it
  with the flag of that field says, the destination of the export it names; its exports come after the
  earlier ones, moved by start; and nothing loaded before changes.
\<close>

theorem load_image_spec:
  assumes "load_image content is_privileged cs = Ok (cs', Some info)"
    and "image_of_bytes content = Some img" and "start = length (cs_instructions cs)"
  shows "lci_instructions info = start
     \<and> lci_current_num_instructions info = length (img_instructions img)
     \<and> length (cs_instructions cs') = start + length (img_instructions img)
     \<and> take start (cs_instructions cs') = cs_instructions cs
     \<and> (\<forall>i<length (img_instructions img).
          let loaded = cs_instructions cs' ! (start + i);
              ps = patches_of (cs_exports cs) (img_references img) i;
              moved = relocate_instruction (img_constants img) (img_to_fix img) (of_nat start)
                is_privileged (of_nat i) (img_instructions img ! i)
          in inst_destination_1 loaded = patched 0 ps (inst_destination_1 moved)
             \<and> inst_destination_2 loaded = patched 1 ps (inst_destination_2 moved)
             \<and> inst_literal_1 loaded = patched 2 ps (inst_literal_1 moved)
             \<and> inst_literal_2 loaded = patched 3 ps (inst_literal_2 moved)
             \<and> inst_opcode loaded = patched 7 ps (inst_opcode moved)
             \<and> inst_marker loaded = inst_marker (img_instructions img ! i)
             \<and> inst_instruction_literal loaded = inst_instruction_literal (img_instructions img ! i))
     \<and> list_all2 (\<lambda>e node. moved_destination (of_nat start) (exp_local_destination e) (node_current_destination node)
          \<and> node_name node = name_string (exp_name e)) (img_exports img) (lci_exports info)
     \<and> cs_exports cs' = cs_exports cs @ lci_exports info"
  using load_image_accepted [OF assms] .

text \<open>
  Whatever a load does - succeed, be rejected by a check, or give up on a reference halfway - the
  instructions loaded before keep their numbers and contents, the earlier exports stay in front, and
  a failed load adds no export.
\<close>

theorem load_file_keeps_loaded:
  assumes "load_file malloc fd is_privileged cs = Ok (cs', result)"
  shows "take (length (cs_instructions cs)) (cs_instructions cs') = cs_instructions cs
     \<and> take (length (cs_exports cs)) (cs_exports cs') = cs_exports cs
     \<and> (result = None \<longrightarrow> cs_exports cs' = cs_exports cs)"
proof -
  have "cs' = cs \<and> result = None \<or> (\<exists>content. load_image content is_privileged cs = Ok (cs', result))"
    using assms by (auto simp: load_file_def outcome_bind_Ok_iff split: option.splits)
  then show ?thesis
    by (auto dest!: load_image_cases resolve_references_spec split: if_splits)
qed

text \<open>
  C23: load_file leaves its buffer or the instruction array exactly in one case: the tables of the
  file are well formed and its references all known, and some reference names the number just behind
  the last instruction and asks for a write - the bounds check rejects larger numbers only. It never
  ends the process.
\<close>

theorem load_image_faults_iff:
  "load_image content is_privileged cs = Fault \<longleftrightarrow>
     (\<exists>img. image_of_bytes content = Some img
       \<and> (\<forall>r\<in>set (img_references img). find_export (name_string (ext_name r)) (cs_exports cs) \<noteq> None)
       \<and> (\<exists>r\<in>set (takeWhile (\<lambda>r. unat (dtu_instruction_number (ext_destination r))
              \<le> length (img_instructions img)) (img_references img)).
            reference_overruns (length (img_instructions img)) r))"
proof (cases "image_of_bytes content")
  case None
  then show ?thesis by (simp add: load_image_def)
next
  case (Some img)
  let ?start = "length (cs_instructions cs)" and ?n = "length (img_instructions img)"
  let ?loaded = "relocate_all img ?start is_privileged"
  have len: "length (cs_instructions cs @ ?loaded) = ?start + ?n" by simp
  show ?thesis
  proof (cases "\<forall>r\<in>set (img_references img). find_export (name_string (ext_name r)) (cs_exports cs) \<noteq> None")
    case False
    then show ?thesis using Some by (auto simp: load_image_def)
  next
    case True
    from resolve_references_outcome [OF True len]
    show ?thesis using True Some
      by (auto simp: load_image_def Let_def outcome_bind_Fault_iff split: if_splits)
  qed
qed

lemma relocate_unprivileged:
  "\<not> privileged (inst_opcode (relocate_instruction constants to_fix k False i inst))"
  by (simp add: relocate_instruction_def privileged_def privileged_opcodes_def Let_def)

lemma patch_keeps_opcode: "\<not> bit raw 7 \<Longrightarrow> inst_opcode (patch_instruction raw dest inst) = inst_opcode inst"
proof -
  assume "\<not> bit raw 7"
  then have "raw AND 0x80 = 0" by (intro bit_word_eqI) (auto simp: bit_simps)
  then show ?thesis by (simp add: patch_instruction_def)
qed

lemma apply_patches_keep_opcode:
  "\<forall>(raw, dest)\<in>set ps. \<not> bit raw 7 \<Longrightarrow> inst_opcode (apply_patches ps inst) = inst_opcode inst"
  unfolding apply_patches_def
  by (induction ps arbitrary: inst) (auto simp: patch_keeps_opcode)

text \<open>
  C24: code loaded as user code contains none of the eleven privileged opcodes, as long as no external
  reference of the file has the undocumented flag 0x80.
\<close>

theorem user_code_unprivileged:
  assumes "load_image content False cs = Ok (cs', Some info)" and "image_of_bytes content = Some img"
    and "\<forall>r\<in>set (img_references img). \<not> bit (dtu_flags (ext_destination r)) 7"
    and "length (cs_instructions cs) \<le> i" and "i < length (cs_instructions cs')"
  shows "\<not> privileged (inst_opcode (cs_instructions cs' ! i))"
proof -
  from load_image_cases [OF assms(1)] assms(2) obtain insts' where
    run: "resolve_references (length (cs_instructions cs)) (length (img_instructions img)) (cs_exports cs)
      (img_references img) (cs_instructions cs @ relocate_all img (length (cs_instructions cs)) False)
      = Ok (insts', True)" and insts': "cs_instructions cs' = insts'"
    by (auto split: if_splits)
  let ?j = "i - length (cs_instructions cs)"
  note spec = resolve_references_spec [OF run]
  from spec assms(4,5) insts' have j: "?j < length (img_instructions img)" "i = length (cs_instructions cs) + ?j"
    by auto
  have "\<forall>(raw, dest)\<in>set (patches_of (cs_exports cs) (img_references img) ?j). \<not> bit raw 7"
    using assms(3) by (auto simp: patches_of_def)
  with spec j insts' relocate_unprivileged show ?thesis
    by (auto simp: nth_append nth_relocate_all apply_patches_keep_opcode)
qed

section \<open>Images as the assembler writes them\<close>

text \<open>
  to_binary, generate_header and serialize_instructions of assembler.py on the tables of an image.
  struct.pack pads with zero bytes; names are the 256 bytes of their field.
\<close>

definition update_bytes :: "destination_to_update \<Rightarrow> byte list" where
  "update_bytes u = le_bytes 4 (dtu_instruction_number u) @ [dtu_flags u] @ replicate 3 0"

definition reference_bytes :: "external_reference \<Rightarrow> byte list" where
  "reference_bytes r = update_bytes (ext_destination r) @ ext_name r"

definition export_bytes :: "export_symbol \<Rightarrow> byte list" where
  "export_bytes e = le_bytes 4 (exp_local_destination e) @ exp_name e"

definition header_bytes :: "sephi_image \<Rightarrow> byte list" where
  "header_bytes img = MAGIC_BYTES @ le_bytes 2 (of_nat (length (img_constants img)) :: u16)
     @ le_bytes 2 (of_nat (length (img_to_fix img)) :: u16)
     @ le_bytes 2 (of_nat (length (img_references img)) :: u16)
     @ le_bytes 2 (of_nat (length (img_exports img)) :: u16)"

definition image_bytes :: "sephi_image \<Rightarrow> byte list" where
  "image_bytes img = header_bytes img @ concat (map update_bytes (img_constants img))
     @ concat (map update_bytes (img_to_fix img)) @ concat (map reference_bytes (img_references img))
     @ concat (map export_bytes (img_exports img))
     @ concat (map (instruction_bytes 0) (img_instructions img))"

definition image_fits :: "sephi_image \<Rightarrow> bool" where
  "image_fits img \<longleftrightarrow> length (img_constants img) < 65536 \<and> length (img_to_fix img) < 65536
     \<and> length (img_references img) < 65536 \<and> length (img_exports img) < 65536
     \<and> (\<forall>r\<in>set (img_references img). length (ext_name r) = 256)
     \<and> (\<forall>e\<in>set (img_exports img). length (exp_name e) = 256)"

lemma length_concat_map:
  "\<forall>x\<in>set xs. length (enc x) = m \<Longrightarrow> length (concat (map enc xs)) = m * length xs"
  by (induction xs) simp_all

lemma slice_concat_map:
  assumes "\<forall>x\<in>set xs. length (enc x) = m" and "i < length xs"
  shows "slice (m * i) m (concat (map enc xs) @ post) = enc (xs ! i)"
  using assms
proof (induction xs arbitrary: i)
  case Nil
  then show ?case by simp
next
  case (Cons x xs)
  show ?case
  proof (cases i)
    case 0
    with Cons.prems show ?thesis by (simp add: slice_def)
  next
    case (Suc j)
    with Cons.prems Cons.IH [of j] show ?thesis by (simp add: slice_def)
  qed
qed

lemma slice_after: "slice (length pre + k) m (pre @ xs) = slice k m xs"
  by (simp add: slice_def)

lemma array_of_concat:
  assumes "\<forall>x\<in>set xs. length (enc x) = m \<and> dec (enc x) = x" and "off = length pre"
    and "n = length xs"
  shows "array_of dec m n off (pre @ concat (map enc xs) @ post) = xs"
proof (rule nth_equalityI)
  show "length (array_of dec m n off (pre @ concat (map enc xs) @ post)) = length xs"
    using assms(3) by (simp add: array_of_def)
  fix i assume "i < length (array_of dec m n off (pre @ concat (map enc xs) @ post))"
  then have i: "i < length xs" using assms(3) by (simp add: array_of_def)
  have "slice (off + m * i) m (pre @ concat (map enc xs) @ post) = enc (xs ! i)"
    unfolding assms(2) slice_after using assms(1) i by (intro slice_concat_map) auto
  with i assms show "array_of dec m n off (pre @ concat (map enc xs) @ post) ! i = xs ! i"
    by (simp add: array_of_def)
qed

lemma update_codec: "length (update_bytes u) = 8" "update_of_bytes (update_bytes u) = u"
  by (simp_all add: update_bytes_def update_of_bytes_def slice_def codec_simps nth_append)

lemma reference_codec:
  "length (ext_name r) = 256 \<Longrightarrow> length (reference_bytes r) = 264"
  "length (ext_name r) = 256 \<Longrightarrow> reference_of_bytes (reference_bytes r) = r"
  by (simp_all add: reference_bytes_def reference_of_bytes_def slice_def update_codec)

lemma export_codec:
  "length (exp_name e) = 256 \<Longrightarrow> length (export_bytes e) = 260"
  "length (exp_name e) = 256 \<Longrightarrow> export_of_bytes (export_bytes e) = e"
  by (simp_all add: export_bytes_def export_of_bytes_def slice_def codec_simps)

lemma unat_of_nat_u16: "n < 65536 \<Longrightarrow> unat (of_nat n :: u16) = n"
  by (simp add: unat_of_nat)

lemma header_codec:
  "length (header_bytes img) = 16"
  "header_of_bytes (header_bytes img) = \<lparr>hdr_magic_bytes = MAGIC_BYTES,
     hdr_num_constant = of_nat (length (img_constants img)), hdr_num_to_fix = of_nat (length (img_to_fix img)),
     hdr_num_external_ref = of_nat (length (img_references img)),
     hdr_num_exported = of_nat (length (img_exports img))\<rparr>"
  by (simp_all add: header_bytes_def header_of_bytes_def slice_def codec_simps MAGIC_BYTES_def)

lemma image_roundtrip_bytes:
  assumes fits: "image_fits img"
  shows "image_of_bytes (image_bytes img) = Some img"
proof -
  let ?c = "concat (map update_bytes (img_constants img))" and ?f = "concat (map update_bytes (img_to_fix img))"
  let ?r = "concat (map reference_bytes (img_references img))" and ?e = "concat (map export_bytes (img_exports img))"
  let ?i = "concat (map (instruction_bytes 0) (img_instructions img))" and ?h = "header_bytes img"
  let ?bs = "image_bytes img"
  have lens: "length ?h = 16" "length ?c = 8 * length (img_constants img)" "length ?f = 8 * length (img_to_fix img)"
    "length ?r = 264 * length (img_references img)" "length ?e = 260 * length (img_exports img)"
    "length ?i = 40 * length (img_instructions img)"
    using fits by (simp_all add: header_codec length_concat_map update_codec reference_codec export_codec
        instruction_codec.length_enc image_fits_def)
  have bs: "?bs = ?h @ ?c @ ?f @ ?r @ ?e @ ?i" by (simp add: image_bytes_def)
  have header: "header_of_bytes (slice 0 16 ?bs) = header_of_bytes ?h"
    unfolding bs by (simp add: slice_def header_codec)
  have total: "length ?bs = 16 + 8 * length (img_constants img) + 8 * length (img_to_fix img)
      + 264 * length (img_references img) + 260 * length (img_exports img) + 40 * length (img_instructions img)"
    unfolding bs by (simp add: lens)
  have arrays: "array_of update_of_bytes 8 (length (img_constants img)) 16 ?bs = img_constants img"
    "array_of update_of_bytes 8 (length (img_to_fix img)) (16 + 8 * length (img_constants img)) ?bs = img_to_fix img"
    "array_of reference_of_bytes 264 (length (img_references img))
       (16 + 8 * length (img_constants img) + 8 * length (img_to_fix img)) ?bs = img_references img"
    "array_of export_of_bytes 260 (length (img_exports img)) (16 + 8 * length (img_constants img)
       + 8 * length (img_to_fix img) + 264 * length (img_references img)) ?bs = img_exports img"
    "array_of instruction_of_bytes 40 (length (img_instructions img)) (16 + 8 * length (img_constants img)
       + 8 * length (img_to_fix img) + 264 * length (img_references img) + 260 * length (img_exports img)) ?bs
     = img_instructions img"
    using array_of_concat [OF _ refl refl, where xs = "img_constants img" and enc = "update_bytes" and m = 8
          and dec = update_of_bytes and pre = "?h" and post = "?f @ ?r @ ?e @ ?i"]
      array_of_concat [OF _ refl refl, where xs = "img_to_fix img" and enc = "update_bytes" and m = 8
          and dec = update_of_bytes and pre = "?h @ ?c" and post = "?r @ ?e @ ?i"]
      array_of_concat [OF _ refl refl, where xs = "img_references img" and enc = "reference_bytes" and m = 264
          and dec = reference_of_bytes and pre = "?h @ ?c @ ?f" and post = "?e @ ?i"]
      array_of_concat [OF _ refl refl, where xs = "img_exports img" and enc = "export_bytes" and m = 260
          and dec = export_of_bytes and pre = "?h @ ?c @ ?f @ ?r" and post = "?i"]
      array_of_concat [OF _ refl refl, where xs = "img_instructions img" and enc = "instruction_bytes 0" and m = 40
          and dec = instruction_of_bytes and pre = "?h @ ?c @ ?f @ ?r @ ?e" and post = "[]"] fits
    unfolding bs image_fits_def
    by (simp_all add: lens update_codec reference_codec export_codec instruction_codec.length_enc
        instruction_codec.dec_enc add.assoc)
  show ?thesis
    unfolding image_of_bytes_def Let_def header header_codec(2) total
    using fits by (simp add: image_fits_def unat_of_nat_u16 arrays)
qed

text \<open>
  The loader finds in an image written by the assembler exactly the tables and instructions that
  were put into it, for every image whose tables have fewer than \<open>2 ^ 16\<close> entries.
\<close>

theorem image_roundtrip:
  assumes "image_fits img"
  shows "image_of_bytes (image_bytes img) = Some img"
  using assms by (rule image_roundtrip_bytes)

section \<open>Relocation, reading and the undocumented flag\<close>

text \<open>
  Relocation by k moves a destination to the address k further on, modulo \<open>2 ^ 28\<close>, with the
  same input and matching function, unless it is constant or the null device; it moves the literals
  listed as labels; and it changes nothing else but a privileged opcode of user code, which becomes
  DUP.
\<close>

theorem relocation_moves_destinations:
  "let inst' = relocate_instruction constants to_fix k is_privileged i inst in
    (if is_in_list constants i FIRST_DESTINATION \<or> inst_destination_1 inst = DEV_NULL_DESTINATION
      then inst_destination_1 inst' = inst_destination_1 inst
      else moved_destination k (inst_destination_1 inst) (inst_destination_1 inst'))
    \<and> (if is_in_list constants i SECOND_DESTINATION \<or> inst_destination_2 inst = DEV_NULL_DESTINATION
      then inst_destination_2 inst' = inst_destination_2 inst
      else moved_destination k (inst_destination_2 inst) (inst_destination_2 inst'))
    \<and> (if is_in_list to_fix i FIRST_LITERAL
      then moved_destination k (ucast (inst_literal_1 inst)) (ucast (inst_literal_1 inst'))
      else inst_literal_1 inst' = inst_literal_1 inst)
    \<and> (if is_in_list to_fix i SECOND_LITERAL
      then moved_destination k (ucast (inst_literal_2 inst)) (ucast (inst_literal_2 inst'))
      else inst_literal_2 inst' = inst_literal_2 inst)
    \<and> inst_opcode inst' = (if \<not> is_privileged \<and> privileged (inst_opcode inst) then opcode_val DUP
        else inst_opcode inst)
    \<and> inst_marker inst' = inst_marker inst
    \<and> inst_instruction_literal inst' = inst_instruction_literal inst"
proof -
  have small: "ucast (ucast w :: u64) = w" for w :: u32
    by (rule bit_word_eqI) (simp add: bit_simps)
  show ?thesis
    unfolding Let_def relocate_fields
    by (intro conjI; simp add: increment_moves small)
qed

text \<open>With reads of at most what was asked for, read_all stays within its buffer.\<close>

lemma read_all_within:
  assumes "\<And>n c bs. rd n c = Some bs \<Longrightarrow> length bs \<le> c" and "length got \<le> cap" and "cap < 2 ^ 31"
  shows "\<exists>result. read_all rd n cap (int cap) got = Ok result
     \<and> (\<forall>bs. result = Some bs \<longrightarrow> length bs \<le> cap)"
  using assms(2)
proof (induction "cap - length got" arbitrary: n got rule: less_induct)
  case less
  have "unat (word_of_int (int cap - int (length got)) :: u64) = cap - length got"
  proof -
    have "(word_of_int (int cap - int (length got)) :: u64) = word_of_int (int (cap - length got))"
      using less.prems by (simp only: of_nat_diff)
    also have "\<dots> = of_nat (cap - length got)" by (simp only: of_int_of_nat_eq)
    finally have "unat (word_of_int (int cap - int (length got)) :: u64)
        = unat (of_nat (cap - length got) :: u64)" by (rule arg_cong)
    also have "\<dots> = (cap - length got) mod 2 ^ LENGTH(64)" by (rule unat_of_nat)
    also have "\<dots> = cap - length got"
      by (rule mod_less) (use assms(3) in simp)
    finally show ?thesis .
  qed
  then have bound: "rd n (unat (word_of_int (int cap - int (length got)) :: u64)) = Some bs
      \<Longrightarrow> length bs \<le> cap - length got" for bs
    using assms(1) by metis
  show ?case
  proof (cases "rd n (unat (word_of_int (int cap - int (length got)) :: u64))")
    case None
    then show ?thesis by (simp add: read_all.simps [of rd n])
  next
    case (Some bs)
    with bound less.prems have fits: "length got + length bs \<le> cap" by fastforce
    show ?thesis
    proof (cases "bs = []")
      case True
      with Some fits show ?thesis by (simp add: read_all.simps [of rd n])
    next
      case False
      then have "0 < length bs" by simp
      with fits have "cap - length (got @ bs) < cap - length got" unfolding length_append by linarith
      from less.hyps [OF this, of "Suc n"] Some fits False show ?thesis
        by (simp add: read_all.simps [of rd n])
    qed
  qed
qed

text \<open>
  Read_all returns, and puts together what the reads deliver: reads that deliver non-empty chunks
  that fit into the buffer, and then the end of the file, leave the concatenation of the chunks.
\<close>

theorem read_all_collects:
  assumes "\<And>i c. i < length chunks \<Longrightarrow> rd (n + i) c = Some (chunks ! i)"
    and "\<And>c. rd (n + length chunks) c = Some []" and "[] \<notin> set chunks"
    and "length got + length (concat chunks) \<le> cap"
  shows "read_all rd n cap buf_size got = Ok (Some (got @ concat chunks))"
  using assms
proof (induction chunks arbitrary: n got)
  case Nil
  then show ?case by (simp add: read_all.simps [of rd n])
next
  case (Cons c chunks)
  have "rd n k = Some c" for k using Cons.prems(1) [of 0] by simp
  moreover have "read_all rd (Suc n) cap buf_size (got @ c) = Ok (Some ((got @ c) @ concat chunks))"
  proof (rule Cons.IH)
    show "rd (Suc n + i) k = Some (chunks ! i)" if "i < length chunks" for i k
      using Cons.prems(1) [of "Suc i"] that by simp
    show "rd (Suc n + length chunks) k = Some []" for k using Cons.prems(2) by simp
  qed (use Cons.prems in auto)
  moreover have "c \<noteq> []" using Cons.prems(3) by auto
  ultimately show ?case using Cons.prems(4) by (simp add: read_all.simps [of rd n])
qed

text \<open>
  An external reference with the undocumented flag 0x80 overwrites the opcode of its instruction
  with the destination of the export, after the filter for privileged opcodes has run: the last
  reference of a file, with this flag, to instruction i decides its opcode, in user code as well.
\<close>

theorem reference_flag_sets_opcode:
  assumes "load_image content is_privileged cs = Ok (cs', Some info)" and "image_of_bytes content = Some img"
    and "img_references img = rs @ [r]" and "bit (dtu_flags (ext_destination r)) 7"
    and "unat (dtu_instruction_number (ext_destination r)) = i" and "i < length (img_instructions img)"
  shows "inst_opcode (cs_instructions cs' ! (length (cs_instructions cs) + i))
     = node_current_destination (the (find_export (name_string (ext_name r)) (cs_exports cs)))"
proof -
  from load_image_cases [OF assms(1)] assms(2) obtain insts' where
    run: "resolve_references (length (cs_instructions cs)) (length (img_instructions img)) (cs_exports cs)
      (img_references img) (cs_instructions cs @ relocate_all img (length (cs_instructions cs)) is_privileged)
      = Ok (insts', True)" and insts': "cs_instructions cs' = insts'"
    by (auto split: if_splits)
  have "bit (dtu_flags (ext_destination r) AND 0x80) 7"
    using assms(4) by (simp add: bit_simps)
  then have flag: "dtu_flags (ext_destination r) AND 0x80 \<noteq> 0" by auto
  from resolve_references_spec [OF run] insts' assms(5,6) flag show ?thesis
    by (simp add: assms(3) patches_of_def apply_patches_def patch_instruction_def Let_def)
qed

section \<open>The properties at concrete inputs\<close>

definition sample_instruction :: "opcode_type \<Rightarrow> instruction" where
  "sample_instruction op = \<lparr>inst_opcode = opcode_val op, inst_destination_1 = 16,
     inst_destination_2 = DEV_NULL_DESTINATION, inst_marker = 0, inst_literal_1 = 0, inst_literal_2 = 0,
     inst_instruction_literal = 0\<rparr>"

text \<open>A file of user code: one RED instruction and one reference, with given flags, to \<open>f\<close>.\<close>

definition sample_name :: "byte list" where
  "sample_name = 0x66 # replicate 255 0"

definition sample_image :: "u32 \<Rightarrow> byte \<Rightarrow> sephi_image" where
  "sample_image number raw = \<lparr>img_constants = [], img_to_fix = [], img_references =
     [\<lparr>ext_destination = \<lparr>dtu_instruction_number = number, dtu_flags = raw\<rparr>, ext_name = sample_name\<rparr>],
     img_exports = [\<lparr>exp_local_destination = 8, exp_name = sample_name\<rparr>],
     img_instructions = [sample_instruction RED]\<rparr>"

text \<open>A store with one instruction and the export \<open>f\<close> at instruction 1, input two: the number 24.\<close>

definition sample_store :: code_store where
  "sample_store = \<lparr>cs_instructions = [sample_instruction DUP],
     cs_exports = [\<lparr>node_current_destination = 24, node_name = [0x66]\<rparr>]\<rparr>"

lemma sample_image_parsed: "image_of_bytes (image_bytes (sample_image number raw)) = Some (sample_image number raw)"
  by (rule image_roundtrip_bytes) (simp add: sample_image_def image_fits_def sample_name_def)

lemma sample_name_string: "name_string sample_name = [0x66]"
  by (simp add: name_string_def sample_name_def REFERENCE_MAX_SIZE_def c_string_def)

definition sample_loaded :: "byte \<Rightarrow> bool \<Rightarrow> code_store" where
  "sample_loaded raw is_privileged = \<lparr>cs_instructions = [sample_instruction DUP, patch_instruction raw 24
       (relocate_instruction [] [] 1 is_privileged 0 (sample_instruction RED))],
     cs_exports = cs_exports sample_store
       @ [new_export_node 1 \<lparr>exp_local_destination = 8, exp_name = sample_name\<rparr>]\<rparr>"

lemma sample_load:
  "load_image (image_bytes (sample_image 0 raw)) is_privileged sample_store =
    Ok (sample_loaded raw is_privileged, Some (loaded_as 1 (sample_image 0 raw)))"
  unfolding load_image_def sample_image_parsed option.case
  by (simp add: sample_store_def sample_image_def sample_name_string relocate_all_def loaded_as_def
      sample_loaded_def Let_def)

theorem image_roundtrip_witness:
  "image_of_bytes (image_bytes (sample_image 0 0x80)) = Some (sample_image 0 0x80)"
  by (rule image_roundtrip) (simp add: sample_image_def image_fits_def sample_name_def)

text \<open>User code with an ordinary reference: RED is turned into DUP.\<close>

theorem load_image_spec_witness:
  "take 1 (cs_instructions (sample_loaded 1 False)) = [sample_instruction DUP]
   \<and> length (cs_instructions (sample_loaded 1 False)) = 2"
  using load_image_spec [OF sample_load sample_image_parsed refl, of 1 False]
  by (simp add: sample_store_def sample_image_def)

theorem user_code_unprivileged_witness:
  "\<not> privileged (inst_opcode (cs_instructions (sample_loaded 1 False) ! 1))"
  by (rule user_code_unprivileged [OF sample_load sample_image_parsed])
    (simp_all add: sample_store_def sample_image_def sample_loaded_def)

text \<open>User code whose reference has the flag: the instruction becomes WRT.\<close>

theorem reference_flag_sets_opcode_witness:
  "inst_opcode (cs_instructions (sample_loaded 0x80 False) ! 1) = opcode_val WRT"
  using reference_flag_sets_opcode [OF sample_load [of "0x80" False] sample_image_parsed, where rs = "[]"]
  by (simp add: sample_store_def sample_image_def sample_name_string)

text \<open>The same file read from disk in two chunks.\<close>

definition sample_file :: os_file where
  "sample_file = \<lparr>file_size = 580, file_read = (\<lambda>n c.
     if n = 0 then Some (take 100 (image_bytes (sample_image 0 1)))
     else if n = 1 then Some (drop 100 (image_bytes (sample_image 0 1))) else Some [])\<rparr>"

theorem read_all_collects_witness:
  "read_all (\<lambda>n c. if n = 0 then Some [1, 2] else if n = 1 then Some [3] else Some []) 0 4 4 []
     = Ok (Some ([] @ concat [[1, 2], [3]]))"
  by (rule read_all_collects) (auto simp: less_Suc_eq)

lemma sample_image_length: "length (image_bytes (sample_image number raw)) = 580"
  by (simp add: image_bytes_def sample_image_def header_codec update_codec reference_codec export_codec
      sample_name_def instruction_codec.length_enc)

lemma sample_file_read: "load_file (\<lambda>n. Some (replicate (unat n) 0)) sample_file False sample_store
    = Ok (sample_loaded 1 False, Some (loaded_as 1 (sample_image 0 1)))"
proof -
  have "read_all (file_read sample_file) 0 580 580 [] = Ok (Some (image_bytes (sample_image 0 1)))"
    using sample_image_length [of 0 1]
    by (simp add: sample_file_def read_all.simps)
  moreover have "sint (ucast (580 :: u64) :: u32) = 580" by simp
  ultimately show ?thesis
    using sample_image_length [of 0 1] sample_load [of 1 False]
    by (simp add: load_file_def read_content_def) (simp add: sample_file_def)
qed

theorem load_file_keeps_loaded_witness:
  "take 1 (cs_instructions (sample_loaded 1 False)) = cs_instructions sample_store"
  using load_file_keeps_loaded [OF sample_file_read] by (simp add: sample_store_def)

text \<open>A reference to the instruction behind the only one passes the check and is written.\<close>

theorem load_image_faults_iff_witness:
  "load_image (image_bytes (sample_image 1 1)) True sample_store = Fault"
  unfolding load_image_faults_iff sample_image_parsed
  by (simp add: sample_image_def sample_store_def sample_name_string reference_overruns_def)

end
