(* ===== verification/Instruction_Store.thy ===== *)
theory Instruction_Store
  imports Sephi_Loader
begin

text \<open>
  instruction_store.c without the loader: the packets that are ready when code is loaded, and the
  loop of run_instruction_store, which turns ready token pairs into execution packets and answers
  the LOD instruction itself.
\<close>

section \<open>Ready instructions\<close>

text \<open>
  add_ready_instructions from index \<open>i\<close> on. The index counts from the start of the array it is
  given, which for loaded code is not the start of the store.
\<close>

definition ready_packet :: "instruction \<Rightarrow> data_type \<Rightarrow> nat \<Rightarrow> execution_packet" where
  "ready_packet inst data_2 i = \<lparr>pkt_data_1 = inst_literal_1 inst, pkt_data_2 = data_2,
     pkt_opcode = inst_opcode inst, pkt_tag = NO_TAG, pkt_destination_1 = inst_destination_1 inst,
     pkt_destination_2 = inst_destination_2 inst, pkt_input = CREATE_DESTINATION (of_nat i) 0 0,
     pkt_marker = inst_marker inst\<rparr>"

fun add_ready_instructions :: "nat \<Rightarrow> instruction list \<Rightarrow> execution_packet list outcome" where
  "add_ready_instructions i [] = Ok []"
| "add_ready_instructions i (inst # insts) =
     (if inst_instruction_literal inst = literal_val TWO
      then outcome_bind (add_ready_instructions (Suc i) insts)
             (\<lambda>ps. Ok (ready_packet inst (inst_literal_2 inst) i # ps))
      else if inst_instruction_literal inst = literal_val ONE
      then outcome_bind (num_inputs_of (inst_opcode inst)) (\<lambda>num_inputs.
             outcome_bind (add_ready_instructions (Suc i) insts)
               (\<lambda>ps. Ok (if num_inputs = 1 then ready_packet inst 0 i # ps else ps)))
      else add_ready_instructions (Suc i) insts)"

section \<open>The loop\<close>

text \<open>
  What the system does for this process: the buffers of malloc, and the files open() finds.
\<close>

record store_env =
  se_malloc :: "u64 \<Rightarrow> byte list option"
  se_open :: "byte list \<Rightarrow> os_file option"

definition main_arg_name :: "byte list" where
  "main_arg_name = map of_char ''_main_arg_0_export''"

definition main_return_location_name :: "byte list" where
  "main_return_location_name = map of_char ''_main_return_location_export''"

text \<open>The walk over the new exports keeps the last node with a name.\<close>

definition last_export :: "byte list \<Rightarrow> export_node list \<Rightarrow> export_node option" where
  "last_export name nodes =
     fold (\<lambda>cur found. if node_name cur = name then Some cur else found) nodes None"

definition dup_packet :: "data_type \<Rightarrow> tag_type \<Rightarrow> destination_type \<Rightarrow> destination_type \<Rightarrow> u32
    \<Rightarrow> marker_type \<Rightarrow> execution_packet" where
  "dup_packet data_1 tag destination_1 destination_2 address marker =
     \<lparr>pkt_data_1 = data_1, pkt_data_2 = 0, pkt_opcode = opcode_val DUP, pkt_tag = tag,
      pkt_destination_1 = destination_1, pkt_destination_2 = destination_2,
      pkt_input = CREATE_DESTINATION address 0 0, pkt_marker = marker\<rparr>"

text \<open>The load_fail packet: the result of the load is -1.\<close>

definition load_fail_packet :: "instruction \<Rightarrow> tag_type \<Rightarrow> u32 \<Rightarrow> execution_packet" where
  "load_fail_packet inst tag address =
     dup_packet (- 1) tag (inst_destination_1 inst) (inst_destination_2 inst) address (inst_marker inst)"

text \<open>The faked packets that call the main function of loaded code.\<close>

definition call_packets :: "instruction \<Rightarrow> data_type \<Rightarrow> tag_type \<Rightarrow> u32 \<Rightarrow> export_node list
    \<Rightarrow> execution_packet list" where
  "call_packets inst arg tag address nodes =
     (case (last_export main_arg_name nodes, last_export main_return_location_name nodes) of
        (Some main_arg, Some main_return_location) \<Rightarrow>
          [dup_packet arg tag (node_current_destination main_arg) DEV_NULL_DESTINATION address
             ONE_OUTPUT_MARKER,
           dup_packet (ucast (inst_destination_1 inst)) tag
             (node_current_destination main_return_location) DEV_NULL_DESTINATION address
             ONE_OUTPUT_MARKER]
      | _ \<Rightarrow> [])"

text \<open>The LOD instruction.\<close>

definition load_instruction :: "store_env \<Rightarrow> instruction \<Rightarrow> u32 \<Rightarrow> ready_token_pair_type
    \<Rightarrow> code_store \<Rightarrow> (code_store \<times> execution_packet list) outcome" where
  "load_instruction env inst address pair cs =
     (let filename = c_string (take 7 (le_bytes 8 (tok_data (token_1 pair))));
          arg = tok_data (token_2 pair);
          tag = tok_tag (token_1 pair);
          fail = load_fail_packet inst tag address
      in case se_open env filename of
           None \<Rightarrow> Ok (cs, [fail])
         | Some fd \<Rightarrow> outcome_bind (load_file (se_malloc env) fd False cs) (\<lambda>(cs', result).
             case result of
               None \<Rightarrow> Ok (cs', [fail])
             | Some info \<Rightarrow>
                 outcome_bind (add_ready_instructions 0 (take (lci_current_num_instructions info)
                     (drop (lci_instructions info) (cs_instructions cs'))))
                   (\<lambda>ready. Ok (cs', call_packets inst arg tag address (lci_exports info) @ ready))))"

text \<open>The end of the loop body: the packet of an instruction other than LOD.\<close>

definition ready_from_pair :: "instruction \<Rightarrow> u32 \<Rightarrow> ready_token_pair_type \<Rightarrow> data_type \<Rightarrow> execution_packet" where [simp]:
  "ready_from_pair inst address pair data_2 = \<lparr>pkt_data_1 = tok_data (token_1 pair), pkt_data_2 = data_2,
     pkt_opcode = inst_opcode inst, pkt_tag = tok_tag (token_1 pair),
     pkt_destination_1 = inst_destination_1 inst, pkt_destination_2 = inst_destination_2 inst,
     pkt_input = CREATE_DESTINATION address 0 0, pkt_marker = inst_marker inst\<rparr>"

definition fire_instruction :: "instruction \<Rightarrow> u32 \<Rightarrow> byte \<Rightarrow> ready_token_pair_type \<Rightarrow> execution_packet list" where [simp]:
  "fire_instruction inst address num_inputs pair =
     (if inst_instruction_literal inst = literal_val NONE \<and> num_inputs = 2
      then [ready_from_pair inst address pair (tok_data (token_2 pair))]
      else if inst_instruction_literal inst = literal_val ONE \<or> num_inputs = 1
      then [ready_from_pair inst address pair (inst_literal_1 inst)]
      else [])"

text \<open>One iteration of the loop.\<close>

definition instruction_store_step :: "store_env \<Rightarrow> ready_token_pair_type \<Rightarrow> code_store
    \<Rightarrow> (code_store \<times> execution_packet list) outcome" where
  "instruction_store_step env pair cs =
     (let address = DESTINATION_TO_ADDRESS (tok_destination (token_1 pair)) in
      if length (cs_instructions cs) \<le> unat address then Ok (cs, [])
      else
        let inst = cs_instructions cs ! unat address in
        outcome_bind (num_inputs_of (inst_opcode inst)) (\<lambda>num_inputs.
          if inst_opcode inst = opcode_val LOD then load_instruction env inst address pair cs
          else Ok (cs, fire_instruction inst address num_inputs pair)))"

text \<open>
  The start: the operating system is loaded as privileged code. None when its file cannot be opened,
  where run_instruction_store returns; a failed load ends the process with status -1.
\<close>

definition instruction_store_start :: "store_env \<Rightarrow> byte list
    \<Rightarrow> (code_store \<times> execution_packet list) option outcome" where
  "instruction_store_start env os_filename =
     (case se_open env os_filename of
        None \<Rightarrow> Ok None
      | Some fd \<Rightarrow> outcome_bind (load_file (se_malloc env) fd True empty_store) (\<lambda>(cs, result).
          case result of
            None \<Rightarrow> Exit (- 1)
          | Some info \<Rightarrow> outcome_bind (add_ready_instructions 0 (cs_instructions cs))
              (\<lambda>ready. Ok (Some (cs, ready)))))"

text \<open>The loop over a sequence of pairs; the system may change between the iterations.\<close>

fun instruction_store_run :: "(store_env \<times> ready_token_pair_type) list \<Rightarrow> code_store
    \<Rightarrow> (code_store \<times> execution_packet list) outcome" where
  "instruction_store_run [] cs = Ok (cs, [])"
| "instruction_store_run ((env, pair) # pairs) cs =
     outcome_bind (instruction_store_step env pair cs) (\<lambda>(cs1, ps1).
     outcome_bind (instruction_store_run pairs cs1) (\<lambda>(cs2, ps2). Ok (cs2, ps1 @ ps2)))"

section \<open>Lemmas\<close>

lemma input_address: "DESTINATION_TO_ADDRESS (CREATE_DESTINATION (DESTINATION_TO_ADDRESS d) 0 0) = DESTINATION_TO_ADDRESS d"
  by (rule bit_word_eqI) (auto simp: destination_defs bit_simps dest: bit_imp_le_length [of d])

lemma num_inputs_known: "opcode_of v = Some op \<Longrightarrow> \<exists>n. num_inputs_of v = Ok n"
  by (cases op) (auto simp: opcode_of_Some num_inputs_of_def opcode_to_num_inputs_def)

text \<open>The opcodes with one operand, and the instructions that can start without a token.\<close>

definition one_operand :: "opcode_type set" where
  "one_operand = {DUP, NEG, MER, NTG, ITG, ETG, RED, CLS, HLT, LS, ULK, RND}"

lemma one_operand: "num_inputs_of (opcode_val op) = Ok (if op \<in> one_operand then 1 else 2)"
  by (cases op) (simp_all add: one_operand_def num_inputs_of_def opcode_to_num_inputs_def)

definition needs_no_token :: "instruction \<Rightarrow> bool" where
  "needs_no_token inst \<longleftrightarrow> inst_instruction_literal inst = literal_val TWO
     \<or> inst_instruction_literal inst = literal_val ONE \<and> (\<exists>op\<in>one_operand. inst_opcode inst = opcode_val op)"

text \<open>The packet of such an instruction, which is number \<open>i\<close> of the array.\<close>

definition starts_as :: "instruction \<Rightarrow> nat \<Rightarrow> execution_packet \<Rightarrow> bool" where
  "starts_as inst i p \<longleftrightarrow> pkt_opcode p = inst_opcode inst \<and> pkt_data_1 p = inst_literal_1 inst
     \<and> pkt_data_2 p = (if inst_instruction_literal inst = literal_val TWO then inst_literal_2 inst else 0)
     \<and> pkt_tag p = 0 \<and> pkt_destination_1 p = inst_destination_1 inst
     \<and> pkt_destination_2 p = inst_destination_2 inst \<and> pkt_marker p = inst_marker inst
     \<and> unat (DESTINATION_TO_ADDRESS (pkt_input p)) = i mod 2 ^ 28"

lemma ready_packet_starts:
  assumes "d = (if inst_instruction_literal inst = literal_val TWO then inst_literal_2 inst else 0)"
  shows "starts_as inst i (ready_packet inst d i)"
proof -
  have "DESTINATION_TO_ADDRESS (CREATE_DESTINATION a 0 0) = take_bit 28 a" for a
    by (rule bit_word_eqI) (auto simp: destination_defs bit_simps)
  then have "unat (DESTINATION_TO_ADDRESS (pkt_input (ready_packet inst d i))) = take_bit 28 (unat (of_nat i :: u32))"
    by (simp only: ready_packet_def execution_packet.simps unsigned_take_bit_eq)
  also have "\<dots> = i mod 2 ^ 28"
    by (simp only: unat_of_nat take_bit_eq_mod) (simp add: mod_mod_cancel)
  finally show ?thesis by (simp add: starts_as_def ready_packet_def assms NO_TAG_def)
qed

lemma add_ready_starts:
  assumes "add_ready_instructions i insts = Ok ps"
  shows "list_all2 (\<lambda>(k, inst). starts_as inst k) (filter (needs_no_token \<circ> snd) (enumerate i insts)) ps"
  using assms
proof (induction insts arbitrary: i ps)
  case Nil
  then show ?case by simp
next
  case (Cons inst insts)
  have "literal_val TWO \<noteq> literal_val ONE" by simp
  consider (two) "inst_instruction_literal inst = literal_val TWO"
    | (one) "inst_instruction_literal inst = literal_val ONE"
    | (none) "inst_instruction_literal inst \<noteq> literal_val TWO" "inst_instruction_literal inst \<noteq> literal_val ONE" by blast
  then show ?case
  proof cases
    case two
    then have "needs_no_token inst" by (simp add: needs_no_token_def)
    with Cons two ready_packet_starts [of "inst_literal_2 inst" inst i] show ?thesis
      by (auto simp: outcome_bind_Ok_iff simp del: literal_val.simps)
  next
    case one
    with Cons.prems \<open>literal_val TWO \<noteq> literal_val ONE\<close> have "num_inputs_of (inst_opcode inst) \<noteq> Fault"
      by (auto simp del: literal_val.simps)
    then have "opcode_of (inst_opcode inst) \<noteq> None" by (auto simp: num_inputs_of_def opcode_of_None split: if_splits)
    then obtain op where op: "inst_opcode inst = opcode_val op" by (auto simp: opcode_of_Some)
    then have "needs_no_token inst \<longleftrightarrow> op \<in> one_operand"
      using one \<open>literal_val TWO \<noteq> literal_val ONE\<close> by (auto simp: needs_no_token_def simp del: literal_val.simps opcode_val.simps)
    with Cons one op one_operand [of op] ready_packet_starts [of 0 inst i] \<open>literal_val TWO \<noteq> literal_val ONE\<close>
    show ?thesis
      by (auto simp: outcome_bind_Ok_iff simp del: literal_val.simps opcode_val.simps split: if_splits)
  next
    case none
    then have "\<not> needs_no_token inst" by (simp add: needs_no_token_def del: literal_val.simps)
    with Cons none show ?thesis by (simp del: literal_val.simps)
  qed
qed

lemma add_ready_from:
  "add_ready_instructions i insts = Ok ps \<Longrightarrow> p \<in> set ps \<Longrightarrow>
     \<exists>k<length insts. \<exists>x. p = ready_packet (insts ! k) x (i + k)"
proof (induction insts arbitrary: i ps)
  case Nil
  then show ?case by simp
next
  case (Cons inst insts)
  have later: "\<exists>k<length (inst # insts). \<exists>x. p = ready_packet ((inst # insts) ! k) x (i + k)"
    if "add_ready_instructions (Suc i) insts = Ok qs" "p \<in> set qs" for qs
  proof -
    from Cons.IH [OF that] obtain k x where "k < length insts" "p = ready_packet (insts ! k) x (Suc i + k)" by auto
    then show ?thesis by (intro exI [of _ "Suc k"]) auto
  qed
  have here: ?case if "p = ready_packet inst x i" for x
    using that by (intro exI [of _ 0]) auto
  have "\<exists>qs. add_ready_instructions (Suc i) insts = Ok qs
      \<and> (ps = qs \<or> (\<exists>x. ps = ready_packet inst x i # qs))"
    using Cons.prems(1) by (auto simp: outcome_bind_Ok_iff split: if_splits)
  then obtain qs where qs: "add_ready_instructions (Suc i) insts = Ok qs"
    "ps = qs \<or> (\<exists>x. ps = ready_packet inst x i # qs)" by auto
  from qs(2) Cons.prems(2) consider "p \<in> set qs" | x where "p = ready_packet inst x i" by auto
  then show ?case by cases (use later [OF qs(1)] here in blast)+
qed

lemma add_ready_opcodes:
  "add_ready_instructions i insts = Ok ps \<Longrightarrow> p \<in> set ps \<Longrightarrow>
     \<exists>k<length insts. pkt_opcode p = inst_opcode (insts ! k) \<and> pkt_input p = CREATE_DESTINATION (of_nat (i + k)) 0 0"
  by (drule (1) add_ready_from) (auto simp: ready_packet_def)

lemma resolve_keeps_opcodes:
  assumes "resolve_references start n exports rs insts = Ok (insts', resolved)"
    and "\<forall>r\<in>set rs. \<not> bit (dtu_flags (ext_destination r)) 7"
  shows "map inst_opcode insts' = map inst_opcode insts"
  using assms
proof (induction rs arbitrary: insts)
  case Nil
  then show ?case by simp
next
  case (Cons r rs)
  from Cons.prems(1) obtain node where node: "find_export (name_string (ext_name r)) exports = Some node"
    by (cases "find_export (name_string (ext_name r)) exports") auto
  let ?k = "start + unat (dtu_instruction_number (ext_destination r))"
  let ?insts = "insts[?k := patch_instruction (dtu_flags (ext_destination r)) (node_current_destination node) (insts ! ?k)]"
  have "map inst_opcode ?insts = map inst_opcode insts" if "?k < length insts"
    using that Cons.prems(2) patch_keeps_opcode
    by (simp add: map_update) (metis list_update_id nth_map)
  with Cons node show ?case
    by (auto simp: Let_def split: if_splits)
qed

section \<open>Privileges\<close>

text \<open>No instruction from number \<open>n\<close> on is privileged.\<close>

definition unprivileged_from :: "nat \<Rightarrow> code_store \<Rightarrow> bool" where
  "unprivileged_from n cs \<longleftrightarrow> n \<le> length (cs_instructions cs)
     \<and> (\<forall>i. n \<le> i \<and> i < length (cs_instructions cs) \<longrightarrow> \<not> privileged (inst_opcode (cs_instructions cs ! i)))"

text \<open>The packet of one of the instructions \<open>os\<close>: its number, opcode, destinations and marker.\<close>

definition packet_from :: "instruction list \<Rightarrow> execution_packet \<Rightarrow> bool" where
  "packet_from os p \<longleftrightarrow> (\<exists>i<length os. unat (DESTINATION_TO_ADDRESS (pkt_input p)) = i
     \<and> pkt_opcode p = inst_opcode (os ! i) \<and> pkt_destination_1 p = inst_destination_1 (os ! i)
     \<and> pkt_destination_2 p = inst_destination_2 (os ! i) \<and> pkt_marker p = inst_marker (os ! i))"

text \<open>The instructions \<open>os\<close> are in front, and nothing behind them is privileged.\<close>

definition runs_os :: "instruction list \<Rightarrow> code_store \<Rightarrow> bool" where
  "runs_os os cs \<longleftrightarrow> take (length os) (cs_instructions cs) = os \<and> unprivileged_from (length os) cs"

text \<open>No file that can be opened has a reference with the undocumented flag.\<close>

definition clean_files :: "store_env \<Rightarrow> bool" where
  "clean_files env \<longleftrightarrow> (\<forall>name fd content img. se_open env name = Some fd
     \<and> read_content (se_malloc env) fd = Ok (Some content) \<and> image_of_bytes content = Some img
     \<longrightarrow> (\<forall>r\<in>set (img_references img). \<not> bit (dtu_flags (ext_destination r)) 7))"

lemma load_image_unprivileged:
  assumes "load_image content False cs = Ok (cs', result)" and "unprivileged_from n cs"
    and "\<And>img. image_of_bytes content = Some img \<Longrightarrow>
      \<forall>r\<in>set (img_references img). \<not> bit (dtu_flags (ext_destination r)) 7"
  shows "unprivileged_from n cs'"
    and "result = Some info \<Longrightarrow> lci_instructions info = length (cs_instructions cs)"
proof -
  have "unprivileged_from n cs' \<and> (\<forall>info. result = Some info \<longrightarrow> lci_instructions info = length (cs_instructions cs))"
    using load_image_cases [OF assms(1)]
  proof (elim disjE exE conjE)
    assume "cs' = cs" "result = None"
    then show ?thesis using assms(2) by simp
  next
    fix img insts' resolved
    assume img: "image_of_bytes content = Some img"
      and run: "resolve_references (length (cs_instructions cs)) (length (img_instructions img)) (cs_exports cs)
           (img_references img) (cs_instructions cs @ relocate_all img (length (cs_instructions cs)) False)
         = Ok (insts', resolved)"
      and out: "cs_instructions cs' = insts'"
        "result = (if resolved then Some (loaded_as (length (cs_instructions cs)) img) else None)"
    let ?all = "cs_instructions cs @ relocate_all img (length (cs_instructions cs)) False"
    have ops: "map inst_opcode insts' = map inst_opcode ?all"
      using resolve_keeps_opcodes [OF run assms(3) [OF img]] .
    have len: "length insts' = length ?all" using arg_cong [OF ops, of length] by simp
    have "\<not> privileged (inst_opcode (insts' ! i))" if "n \<le> i" "i < length insts'" for i
    proof -
      have "inst_opcode (insts' ! i) = inst_opcode (?all ! i)"
        using nth_map [of i insts' inst_opcode] nth_map [of i ?all inst_opcode] that(2) len
        by (simp only: ops)
      moreover have "\<not> privileged (inst_opcode (?all ! i))"
      proof (cases "i < length (cs_instructions cs)")
        case True
        then show ?thesis using assms(2) that(1) by (simp add: unprivileged_from_def nth_append)
      next
        case False
        then have "?all ! i = relocate_all img (length (cs_instructions cs)) False ! (i - length (cs_instructions cs))"
          "i - length (cs_instructions cs) < length (img_instructions img)"
          using that(2) len by (simp_all add: nth_append)
        then show ?thesis by (simp only: nth_relocate_all relocate_unprivileged not_False_eq_True)
      qed
      ultimately show ?thesis by simp
    qed
    then show ?thesis
      using out len assms(2) by (simp add: unprivileged_from_def loaded_as_def)
  qed
  then show "unprivileged_from n cs'"
    "result = Some info \<Longrightarrow> lci_instructions info = length (cs_instructions cs)" by auto
qed

lemma load_file_unprivileged:
  assumes "clean_files env" and "se_open env name = Some fd"
    and "load_file (se_malloc env) fd False cs = Ok (cs', result)" and "unprivileged_from n cs"
  shows "unprivileged_from n cs'"
    and "result = Some info \<Longrightarrow> lci_instructions info = length (cs_instructions cs)"
proof -
  have "unprivileged_from n cs' \<and> (\<forall>info. result = Some info \<longrightarrow> lci_instructions info = length (cs_instructions cs))"
  proof -
    from assms(3) consider "cs' = cs" "result = None"
      | content where "read_content (se_malloc env) fd = Ok (Some content)"
          "load_image content False cs = Ok (cs', result)"
      by (auto simp: load_file_def outcome_bind_Ok_iff split: option.splits)
    then show ?thesis
    proof cases
      case 1
      then show ?thesis using assms(4) by simp
    next
      case 2
      then have "\<And>img. image_of_bytes content = Some img \<Longrightarrow>
          \<forall>r\<in>set (img_references img). \<not> bit (dtu_flags (ext_destination r)) 7"
        using assms(1,2) unfolding clean_files_def by blast
      from load_image_unprivileged [OF 2(2) assms(4) this] show ?thesis by blast
    qed
  qed
  then show "unprivileged_from n cs'"
    "result = Some info \<Longrightarrow> lci_instructions info = length (cs_instructions cs)" by auto
qed

lemma dup_unprivileged: "\<not> privileged (opcode_val DUP)"
  by (simp add: privileged_def privileged_opcodes_def)

lemma call_packets_dup: "p \<in> set (call_packets inst arg tag address nodes) \<Longrightarrow> pkt_opcode p = opcode_val DUP"
  by (auto simp: call_packets_def dup_packet_def split: option.splits)

lemma load_instruction_privileges:
  assumes clean: "clean_files env" and priv: "unprivileged_from n cs"
    and step: "load_instruction env inst address pair cs = Ok (cs', ps)"
  shows "unprivileged_from n cs' \<and> (\<forall>p\<in>set ps. \<not> privileged (pkt_opcode p))"
proof -
  let ?name = "c_string (take 7 (le_bytes 8 (tok_data (token_1 pair))))"
  let ?fail = "load_fail_packet inst (tok_tag (token_1 pair)) address"
  have fail: "\<not> privileged (pkt_opcode ?fail)"
    by (simp add: load_fail_packet_def dup_packet_def dup_unprivileged del: opcode_val.simps)
  show ?thesis
  proof (cases "se_open env ?name")
    case None
    with step priv fail show ?thesis by (auto simp: load_instruction_def Let_def)
  next
    case (Some fd)
    have "outcome_bind (load_file (se_malloc env) fd False cs) (\<lambda>(cs1, result).
        case result of None \<Rightarrow> Ok (cs1, [?fail])
        | Some info \<Rightarrow> outcome_bind (add_ready_instructions 0 (take (lci_current_num_instructions info)
             (drop (lci_instructions info) (cs_instructions cs1))))
             (\<lambda>ready. Ok (cs1, call_packets inst (tok_data (token_2 pair)) (tok_tag (token_1 pair)) address
                (lci_exports info) @ ready))) = Ok (cs', ps)"
      using step unfolding load_instruction_def Let_def Some option.case .
    then obtain cs1 result where load: "load_file (se_malloc env) fd False cs = Ok (cs1, result)"
      and out: "(case result of None \<Rightarrow> Ok (cs1, [?fail])
        | Some info \<Rightarrow> outcome_bind (add_ready_instructions 0 (take (lci_current_num_instructions info)
             (drop (lci_instructions info) (cs_instructions cs1))))
             (\<lambda>ready. Ok (cs1, call_packets inst (tok_data (token_2 pair)) (tok_tag (token_1 pair)) address
                (lci_exports info) @ ready))) = Ok (cs', ps)"
      unfolding outcome_bind_Ok_iff by (clarsimp simp only: split_paired_Ex prod.case)
    have same: "cs1 = cs'" using out by (auto simp: outcome_bind_Ok_iff split: option.splits)
    note loaded = load_file_unprivileged [OF clean Some load priv, unfolded same]
    show ?thesis
    proof (cases result)
      case None
      with out have "ps = [?fail]" by simp
      with fail loaded(1) show ?thesis by (simp del: opcode_val.simps)
    next
      case (Some info)
      let ?new = "take (lci_current_num_instructions info) (drop (lci_instructions info) (cs_instructions cs'))"
      from out Some obtain ready where ready: "add_ready_instructions 0 ?new = Ok ready"
        and ps: "ps = call_packets inst (tok_data (token_2 pair)) (tok_tag (token_1 pair)) address (lci_exports info) @ ready"
        by (auto simp: outcome_bind_Ok_iff same)
      have "\<not> privileged (pkt_opcode p)" if p: "p \<in> set ready" for p
      proof -
        from add_ready_opcodes [OF ready p] obtain k where k: "k < length ?new"
          "pkt_opcode p = inst_opcode (?new ! k)" by auto
        then have "?new ! k = cs_instructions cs' ! (lci_instructions info + k)"
          "lci_instructions info + k < length (cs_instructions cs')" by auto
        moreover have "n \<le> lci_instructions info + k"
          using loaded(2) [OF Some] priv by (simp add: unprivileged_from_def)
        ultimately show ?thesis using loaded(1) k(2) by (simp add: unprivileged_from_def)
      qed
      with loaded(1) call_packets_dup dup_unprivileged show ?thesis unfolding ps by (metis Un_iff set_append)
    qed
  qed
qed

lemma load_instruction_keeps:
  assumes "load_instruction env inst address pair cs = Ok (cs', ps)"
  shows "take (length (cs_instructions cs)) (cs_instructions cs') = cs_instructions cs"
proof -
  have "cs' = cs \<or> (\<exists>fd result. load_file (se_malloc env) fd False cs = Ok (cs', result))"
    using assms by (auto simp: load_instruction_def Let_def outcome_bind_Ok_iff split: option.splits)
  then show ?thesis using load_file_keeps_loaded by fastforce
qed

lemma instruction_store_step_privileges:
  assumes clean: "clean_files env" and os: "runs_os os cs"
    and step: "instruction_store_step env pair cs = Ok (cs', ps)"
  shows "runs_os os cs' \<and> (\<forall>p\<in>set ps. privileged (pkt_opcode p) \<longrightarrow> packet_from os p)"
proof -
  let ?address = "DESTINATION_TO_ADDRESS (tok_destination (token_1 pair))"
  let ?inst = "cs_instructions cs ! unat ?address"
  have "cs' = cs \<and> ps = [] \<or> load_instruction env ?inst ?address pair cs = Ok (cs', ps)
    \<or> (\<exists>d. cs' = cs \<and> ps = [ready_from_pair ?inst ?address pair d] \<and> unat ?address < length (cs_instructions cs))"
  proof (cases "length (cs_instructions cs) \<le> unat ?address")
    case True
    with step show ?thesis by (simp add: instruction_store_step_def)
  next
    case False
    with step obtain n where "num_inputs_of (inst_opcode ?inst) = Ok n"
      by (cases "num_inputs_of (inst_opcode ?inst)") (simp_all add: instruction_store_step_def Let_def)
    with step False show ?thesis
      by (simp add: instruction_store_step_def Let_def del: opcode_val.simps literal_val.simps ready_from_pair_def
          split: if_splits) auto
  qed
  then consider (out) "cs' = cs" "ps = []"
    | (load) "load_instruction env ?inst ?address pair cs = Ok (cs', ps)"
    | (fetch) d where "cs' = cs" "ps = [ready_from_pair ?inst ?address pair d]"
        "unat ?address < length (cs_instructions cs)"
    by blast
  then show ?thesis
  proof cases
    case load
    have n: "length os \<le> length (cs_instructions cs)" using os by (simp add: runs_os_def unprivileged_from_def)
    have "take (length os) (cs_instructions cs') = take (length os) (cs_instructions cs)"
      using arg_cong [OF load_instruction_keeps [OF load], of "take (length os)"] n by (simp add: min_absorb1)
    with load_instruction_privileges [OF clean _ load] os show ?thesis unfolding runs_os_def by metis
  next
    case fetch
    have "packet_from os (ready_from_pair ?inst ?address pair d)" if "privileged (inst_opcode ?inst)"
    proof -
      have "unat ?address < length os"
        using that os fetch(3) by (auto simp: runs_os_def unprivileged_from_def not_less [symmetric])
      moreover from this have "?inst = os ! unat ?address" using os nth_take unfolding runs_os_def by metis
      ultimately show ?thesis by (auto simp: packet_from_def input_address)
    qed
    with fetch os show ?thesis by auto
  qed (use os in simp)
qed

lemma instruction_store_run_privileges:
  assumes "\<forall>(env, pair)\<in>set pairs. clean_files env" and "runs_os os cs"
    and "instruction_store_run pairs cs = Ok (cs', ps)"
  shows "\<forall>p\<in>set ps. privileged (pkt_opcode p) \<longrightarrow> packet_from os p"
  using assms
proof (induction pairs arbitrary: cs ps)
  case Nil
  then show ?case by simp
next
  case (Cons x pairs)
  obtain env pair where x: "x = (env, pair)" by (cases x)
  from Cons.prems(3) obtain cs1 ps1 ps2 where step: "instruction_store_step env pair cs = Ok (cs1, ps1)"
    and rest: "instruction_store_run pairs cs1 = Ok (cs', ps2)" and ps: "ps = ps1 @ ps2"
    by (auto simp: x outcome_bind_Ok_iff)
  have "clean_files env" using Cons.prems(1) x by simp
  from instruction_store_step_privileges [OF this Cons.prems(2) step] Cons.IH [OF _ _ rest] Cons.prems(1)
  show ?case unfolding ps by auto
qed

lemma ready_packet_from:
  assumes "add_ready_instructions 0 insts = Ok ps" and "length insts \<le> 2 ^ 28" and "p \<in> set ps"
  shows "packet_from insts p"
proof -
  from add_ready_from [OF assms(1,3)] obtain k x where k: "k < length insts" "p = ready_packet (insts ! k) x k" by auto
  then have "k < 2 ^ 28" using assms(2) by simp
  then have "unat (of_nat k :: u32) = k" by (simp add: unat_of_nat)
  moreover have "DESTINATION_TO_ADDRESS (CREATE_DESTINATION a 0 0) = take_bit 28 a" for a
    by (rule bit_word_eqI) (auto simp: destination_defs bit_simps)
  then have "unat (DESTINATION_TO_ADDRESS (pkt_input p)) = take_bit 28 (unat (of_nat k :: u32))"
    by (simp only: k(2) ready_packet_def execution_packet.simps unsigned_take_bit_eq)
  ultimately have "unat (DESTINATION_TO_ADDRESS (pkt_input p)) = k"
    using \<open>k < 2 ^ 28\<close> by (simp add: take_bit_nat_eq_self)
  with k show ?thesis by (auto simp: packet_from_def ready_packet_def)
qed

lemma runs_os_start: "runs_os (cs_instructions cs) cs"
  by (auto simp: runs_os_def unprivileged_from_def)

section \<open>Properties\<close>

text \<open>
  The privilege boundary of the machine. After the operating system has been loaded, whatever
  user code is loaded and whatever token pairs arrive, every packet with a privileged opcode that the
  instruction store emits was fetched from an instruction of the operating system - provided no file
  has a reference with the undocumented flag 0x80.
\<close>

theorem privileged_packets_from_os:
  assumes "instruction_store_start env0 os_filename = Ok (Some (cs0, ps0))"
    and "length (cs_instructions cs0) \<le> 2 ^ 28"
    and "\<forall>(env, pair)\<in>set pairs. clean_files env"
    and "instruction_store_run pairs cs0 = Ok (cs, ps)"
    and "p \<in> set (ps0 @ ps)" and "privileged (pkt_opcode p)"
  shows "packet_from (cs_instructions cs0) p"
proof -
  have ready: "add_ready_instructions 0 (cs_instructions cs0) = Ok ps0"
    using assms(1)
    by (auto simp: instruction_store_start_def outcome_bind_Ok_iff split: option.splits)
  show ?thesis
  proof (cases "p \<in> set ps0")
    case True
    from ready_packet_from [OF ready assms(2) True] show ?thesis .
  next
    case False
    with instruction_store_run_privileges [OF assms(3) runs_os_start assms(4)] assms(5,6)
    show ?thesis by simp
  qed
qed

text \<open>
  C29: fetching. When every loaded opcode is one of the 35, a pair for an instruction other than LOD
  gives at most one packet and changes nothing: none when the address is behind the loaded
  instructions or the instruction takes no token; else the instruction's opcode, destinations and
  marker with the tag of the pair, the first token as first operand, and as second operand the second
  token or the instruction's literal.
\<close>

theorem instruction_fetch:
  assumes "\<forall>inst\<in>set (cs_instructions cs). opcode_of (inst_opcode inst) \<noteq> None"
    and "address = DESTINATION_TO_ADDRESS (tok_destination (token_1 pair))"
    and "unat address < length (cs_instructions cs) \<longrightarrow>
       inst_opcode (cs_instructions cs ! unat address) \<noteq> opcode_val LOD"
  shows "\<exists>ps. instruction_store_step env pair cs = Ok (cs, ps) \<and> length ps \<le> 1
     \<and> (\<forall>p\<in>set ps. unat address < length (cs_instructions cs)
          \<and> (let inst = cs_instructions cs ! unat address in
              pkt_opcode p = inst_opcode inst \<and> pkt_destination_1 p = inst_destination_1 inst
              \<and> pkt_destination_2 p = inst_destination_2 inst \<and> pkt_marker p = inst_marker inst
              \<and> pkt_tag p = tok_tag (token_1 pair) \<and> DESTINATION_TO_ADDRESS (pkt_input p) = address
              \<and> pkt_data_1 p = tok_data (token_1 pair)
              \<and> pkt_data_2 p = (if inst_instruction_literal inst = 0 \<and> num_inputs_of (inst_opcode inst) = Ok 2
                               then tok_data (token_2 pair) else inst_literal_1 inst)))
     \<and> (unat address < length (cs_instructions cs)
          \<and> inst_instruction_literal (cs_instructions cs ! unat address) \<in> {0, 1} \<longrightarrow> ps \<noteq> [])"
proof (cases "unat address < length (cs_instructions cs)")
  case False
  then show ?thesis by (simp add: instruction_store_step_def assms(2))
next
  case True
  let ?inst = "cs_instructions cs ! unat address"
  obtain op where op: "opcode_of (inst_opcode ?inst) = Some op" using assms(1) True by fastforce
  then have "num_inputs_of (inst_opcode ?inst) = Ok 1 \<or> num_inputs_of (inst_opcode ?inst) = Ok 2"
    by (cases op) (simp_all add: opcode_of_Some num_inputs_of_def opcode_to_num_inputs_def)
  then show ?thesis
    using True assms(3)
    by (auto simp: instruction_store_step_def assms(2) Let_def input_address)
qed

text \<open>
  A load that cannot be done - no such file, or a file load_file rejects - is answered with one
  DUP packet that sends -1 with the tag of the pair to the destinations of the LOD instruction, and
  no export is added.
\<close>

theorem load_failure_reported:
  assumes "unat address < length (cs_instructions cs)"
    and "address = DESTINATION_TO_ADDRESS (tok_destination (token_1 pair))"
    and "inst = cs_instructions cs ! unat address" and "inst_opcode inst = opcode_val LOD"
    and "filename = c_string (take 7 (le_bytes 8 (tok_data (token_1 pair))))"
    and "case se_open env filename of None \<Rightarrow> cs' = cs
       | Some fd \<Rightarrow> load_file (se_malloc env) fd False cs = Ok (cs', None)"
  shows "\<exists>p. instruction_store_step env pair cs = Ok (cs', [p]) \<and> pkt_data_1 p = - 1
     \<and> pkt_opcode p = opcode_val DUP \<and> pkt_tag p = tok_tag (token_1 pair)
     \<and> pkt_destination_1 p = inst_destination_1 inst \<and> pkt_destination_2 p = inst_destination_2 inst
     \<and> pkt_marker p = inst_marker inst \<and> cs_exports cs' = cs_exports cs"
proof -
  have n: "num_inputs_of (inst_opcode inst) = Ok 2"
    by (simp add: assms(4) num_inputs_of_def opcode_to_num_inputs_def)
  have exports: "cs_exports cs' = cs_exports cs"
  proof (cases "se_open env filename")
    case (Some fd)
    with assms(6) have load: "load_file (se_malloc env) fd False cs = Ok (cs', None)" by simp
    then have "cs' = cs \<or> (\<exists>content. load_image content False cs = Ok (cs', None))"
      by (auto simp: load_file_def outcome_bind_Ok_iff split: option.splits)
    then show ?thesis by (auto dest!: load_image_cases split: if_splits)
  qed (use assms(6) in simp)
  let ?fail = "load_fail_packet inst (tok_tag (token_1 pair)) address"
  have "load_instruction env inst address pair cs = Ok (cs', [?fail])"
    using assms(6) unfolding load_instruction_def Let_def assms(5) [symmetric]
    by (cases "se_open env filename") simp_all
  then have "instruction_store_step env pair cs = Ok (cs', [?fail])"
    using assms(1) n unfolding instruction_store_step_def Let_def assms(2) [symmetric] assms(3) [symmetric]
    by (simp add: assms(4) del: opcode_val.simps)
  then show ?thesis
    by (simp add: load_fail_packet_def dup_packet_def exports del: opcode_val.simps)
qed

section \<open>The properties at concrete inputs\<close>

text \<open>A file that holds an image and is read at once.\<close>

definition image_file :: "sephi_image \<Rightarrow> os_file" where
  "image_file img = \<lparr>file_size = of_nat (length (image_bytes img)),
     file_read = (\<lambda>n c. if n = 0 then Some (image_bytes img) else Some [])\<rparr>"

definition zero_malloc :: "u64 \<Rightarrow> byte list option" where
  "zero_malloc n = Some (replicate (unat n) 0)"

lemma read_image_file:
  assumes "length (image_bytes img) < 2 ^ 31" and "16 \<le> length (image_bytes img)"
  shows "read_content zero_malloc (image_file img) = Ok (Some (image_bytes img))"
proof -
  let ?n = "length (image_bytes img)"
  have n: "unat (of_nat ?n :: u64) = ?n" using assms(1) by (simp add: unat_of_nat)
  have small: "\<not> (of_nat ?n :: u64) < 16" using n assms(2) by (simp add: word_less_nat_alt)
  have ne: "image_bytes img \<noteq> []" using assms(2) by auto
  have "read_all (file_read (image_file img)) 0 ?n z [] = Ok (Some (image_bytes img))" for z
    using ne by (simp add: image_file_def read_all.simps)
  then show ?thesis
    using small n by (simp add: read_content_def zero_malloc_def) (simp add: image_file_def n)
qed

lemma load_image_file:
  assumes "length (image_bytes img) < 2 ^ 31" and "16 \<le> length (image_bytes img)"
  shows "load_file zero_malloc (image_file img) p cs = load_image (image_bytes img) p cs"
  using read_image_file [OF assms] by (simp add: load_file_def)

text \<open>An operating system of one instruction, WRT with two literals.\<close>

definition os_image :: sephi_image where
  "os_image = \<lparr>img_constants = [], img_to_fix = [], img_references = [], img_exports = [],
     img_instructions = [(sample_instruction WRT)\<lparr>inst_literal_1 := 1, inst_literal_2 := 65,
       inst_instruction_literal := literal_val TWO\<rparr>]\<rparr>"

lemma os_image_length: "length (image_bytes os_image) = 56"
  by (simp add: image_bytes_def os_image_def header_codec instruction_codec.length_enc)

definition os_env :: store_env where
  "os_env = \<lparr>se_malloc = zero_malloc, se_open = (\<lambda>name. if name = [111, 115] then Some (image_file os_image) else None)\<rparr>"

definition idle_env :: store_env where
  "idle_env = \<lparr>se_malloc = zero_malloc, se_open = (\<lambda>name. None)\<rparr>"

definition os_store :: code_store where
  "os_store = \<lparr>cs_instructions = [relocate_instruction [] [] 0 True 0 (img_instructions os_image ! 0)], cs_exports = []\<rparr>"

definition os_packet :: execution_packet where
  "os_packet = ready_packet (cs_instructions os_store ! 0) 65 0"

lemma os_instruction:
  "inst_opcode (cs_instructions os_store ! 0) = opcode_val WRT"
  "inst_instruction_literal (cs_instructions os_store ! 0) = literal_val TWO"
  "inst_literal_2 (cs_instructions os_store ! 0) = 65"
  by (simp_all add: os_store_def relocate_fields os_image_def sample_instruction_def)

lemma os_start: "instruction_store_start os_env [111, 115] = Ok (Some (os_store, [os_packet]))"
proof -
  have "load_image (image_bytes os_image) True empty_store = Ok (os_store, Some (loaded_as 0 os_image))"
    using image_roundtrip_bytes [of os_image]
    by (simp add: image_fits_def os_image_def load_image_def empty_store_def relocate_all_def os_store_def
        loaded_as_def Let_def)
  moreover have "add_ready_instructions 0 (cs_instructions os_store) = Ok [os_packet]"
    using os_instruction by (simp add: os_packet_def) (simp add: os_store_def)
  ultimately show ?thesis
    by (simp add: instruction_store_start_def os_env_def load_image_file os_image_length)
qed

definition sample_pair :: "data_type \<Rightarrow> data_type \<Rightarrow> ready_token_pair_type" where
  "sample_pair a b = \<lparr>token_1 = \<lparr>tok_destination = 0, tok_data = a, tok_tag = 7\<rparr>,
     token_2 = \<lparr>tok_destination = 8, tok_data = b, tok_tag = 7\<rparr>\<rparr>"

theorem privileged_packets_from_os_witness:
  "packet_from (cs_instructions os_store) os_packet"
proof (rule privileged_packets_from_os [OF os_start, of "[(idle_env, sample_pair 1 2)]"])
  show "instruction_store_run [(idle_env, sample_pair 1 2)] os_store = Ok (os_store, [])"
    using os_instruction
    by (simp add: instruction_store_step_def sample_pair_def DESTINATION_TO_ADDRESS_def
        num_inputs_of_def opcode_to_num_inputs_def)
  show "\<forall>(env, pair)\<in>set [(idle_env, sample_pair 1 2)]. clean_files env"
    by (simp add: clean_files_def idle_env_def)
  show "privileged (pkt_opcode os_packet)"
    using os_instruction(1)
    by (simp add: os_packet_def ready_packet_def privileged_def privileged_opcodes_def)
qed (simp_all add: os_store_def)

text \<open>A store with an ADD and a LOD.\<close>

definition fetch_store :: code_store where
  "fetch_store = \<lparr>cs_instructions = [sample_instruction ADD, sample_instruction LOD], cs_exports = []\<rparr>"

lemma sample_fields:
  "inst_opcode (sample_instruction op) = opcode_val op"
  "opcode_of (inst_opcode (sample_instruction op)) = Some op"
  "inst_instruction_literal (sample_instruction op) = 0"
  by (simp_all add: sample_instruction_def opcode_of_Some)

lemma fetch_store_fields: "cs_instructions fetch_store = [sample_instruction ADD, sample_instruction LOD]"
  by (simp add: fetch_store_def)

theorem instruction_fetch_witness:
  "\<exists>ps. instruction_store_step idle_env (sample_pair 3 4) fetch_store = Ok (fetch_store, ps) \<and> ps \<noteq> []"
proof -
  have address: "DESTINATION_TO_ADDRESS (tok_destination (token_1 (sample_pair 3 4))) = 0"
    by (simp add: sample_pair_def DESTINATION_TO_ADDRESS_def)
  have "opcode_val ADD \<noteq> opcode_val LOD" by simp
  with instruction_fetch [of fetch_store 0 "sample_pair 3 4" idle_env] show ?thesis
    by (auto simp: fetch_store_fields sample_fields address simp del: opcode_val.simps)
qed

definition load_pair :: ready_token_pair_type where
  "load_pair = (sample_pair 0x67 4)\<lparr>token_1 := \<lparr>tok_destination = 16, tok_data = 0x67, tok_tag = 7\<rparr>\<rparr>"

theorem load_failure_reported_witness:
  "\<exists>p. instruction_store_step idle_env load_pair fetch_store = Ok (fetch_store, [p]) \<and> pkt_data_1 p = - 1"
proof -
  have address: "1 = DESTINATION_TO_ADDRESS (tok_destination (token_1 load_pair))"
    by (simp add: load_pair_def DESTINATION_TO_ADDRESS_def)
  have "\<exists>p. instruction_store_step idle_env load_pair fetch_store = Ok (fetch_store, [p]) \<and> pkt_data_1 p = - 1
     \<and> pkt_opcode p = opcode_val DUP \<and> pkt_tag p = tok_tag (token_1 load_pair)
     \<and> pkt_destination_1 p = inst_destination_1 (sample_instruction LOD)
     \<and> pkt_destination_2 p = inst_destination_2 (sample_instruction LOD)
     \<and> pkt_marker p = inst_marker (sample_instruction LOD) \<and> cs_exports fetch_store = cs_exports fetch_store"
    by (rule load_failure_reported [OF _ address _ _ refl])
      (simp_all add: fetch_store_fields sample_fields idle_env_def del: opcode_val.simps)
  then show ?thesis by blast
qed

end
