(* ===== verification/Trap_Table.thy ===== *)
theory Trap_Table
  imports Store_Interface
begin

text \<open>
  khash.h, as KHASH_MAP_INIT_INT64 instantiates it: the open-addressing table with triangular
  probing in which the processing unit keeps the tokens held back in trap mode. Bucket numbers and
  counters are natural numbers; the flags are the packed 32-bit words of the code. Here
  memory suffices; \<open>Trap_Table_Memory\<close> has the error returns for a failed malloc. A search that would
  not end is the value None, and the value of a cell that realloc added is \<open>junk\<close>.
\<close>

section \<open>Flags: two bits per bucket\<close>

definition ac_isempty :: "u32 list \<Rightarrow> nat \<Rightarrow> bool" where
  "ac_isempty flag i \<longleftrightarrow> drop_bit (2 * (i mod 16)) (flag ! (i div 16)) AND 2 \<noteq> 0"

definition ac_isdel :: "u32 list \<Rightarrow> nat \<Rightarrow> bool" where
  "ac_isdel flag i \<longleftrightarrow> drop_bit (2 * (i mod 16)) (flag ! (i div 16)) AND 1 \<noteq> 0"

definition ac_iseither :: "u32 list \<Rightarrow> nat \<Rightarrow> bool" where
  "ac_iseither flag i \<longleftrightarrow> drop_bit (2 * (i mod 16)) (flag ! (i div 16)) AND 3 \<noteq> 0"

definition ac_set_isempty_false :: "nat \<Rightarrow> u32 list \<Rightarrow> u32 list" where
  "ac_set_isempty_false i flag =
     flag[i div 16 := flag ! (i div 16) AND NOT (push_bit (2 * (i mod 16)) 2)]"

definition ac_set_isboth_false :: "nat \<Rightarrow> u32 list \<Rightarrow> u32 list" where
  "ac_set_isboth_false i flag =
     flag[i div 16 := flag ! (i div 16) AND NOT (push_bit (2 * (i mod 16)) 3)]"

definition ac_set_isdel_true :: "nat \<Rightarrow> u32 list \<Rightarrow> u32 list" where
  "ac_set_isdel_true i flag =
     flag[i div 16 := flag ! (i div 16) OR push_bit (2 * (i mod 16)) 1]"

definition ac_fsize :: "nat \<Rightarrow> nat" where
  "ac_fsize m = (if m < 16 then 1 else m div 16)"

text \<open>memset with 0xaa: every bucket empty.\<close>

definition all_empty_flags :: "nat \<Rightarrow> u32 list" where
  "all_empty_flags n = replicate (ac_fsize n) 0xaaaaaaaa"

section \<open>Sizes and hashes\<close>

definition kroundup32 :: "u32 \<Rightarrow> u32" where
  "kroundup32 x =
     (let x = x - 1;
          x = x OR drop_bit 1 x;
          x = x OR drop_bit 2 x;
          x = x OR drop_bit 4 x;
          x = x OR drop_bit 8 x;
          x = x OR drop_bit 16 x
      in x + 1)"

text \<open>
  (khint_t)(n * __ac_HASH_UPPER + 0.5) with __ac_HASH_UPPER = 0.77. For a power of two below
  \<open>2 ^ 31\<close> the double arithmetic is off by far less than the distance of the exact value to the
  nearest integer, so the truncation is exact.
\<close>

definition hash_upper :: "nat \<Rightarrow> nat" where
  "hash_upper n = (77 * n + 50) div 100"

definition kh_int64_hash_func :: "u64 \<Rightarrow> u32" where
  "kh_int64_hash_func key = ucast (drop_bit 33 key XOR key XOR push_bit 11 key)"

section \<open>The table\<close>

record 'v kh_table =
  kh_n_buckets :: nat
  kh_size :: nat
  kh_n_occupied :: nat
  kh_upper_bound :: nat
  kh_flags :: "u32 list"
  kh_keys :: "u64 list"
  kh_vals :: "'v list"

definition kh_init :: "'v kh_table" where
  "kh_init = \<lparr>kh_n_buckets = 0, kh_size = 0, kh_n_occupied = 0, kh_upper_bound = 0,
     kh_flags = [], kh_keys = [], kh_vals = []\<rparr>"

text \<open>The probing loop of kh_get; None when the fuel runs out.\<close>

fun kh_get_loop :: "nat \<Rightarrow> 'v kh_table \<Rightarrow> u64 \<Rightarrow> nat \<Rightarrow> nat \<Rightarrow> nat \<Rightarrow> nat option" where
  "kh_get_loop 0 h key last_i i step = None"
| "kh_get_loop (Suc fuel) h key last_i i step =
     (if \<not> ac_isempty (kh_flags h) i \<and> (ac_isdel (kh_flags h) i \<or> kh_keys h ! i \<noteq> key)
      then let i' = (i + Suc step) AND (kh_n_buckets h - 1)
           in if i' = last_i then Some (kh_n_buckets h)
              else kh_get_loop fuel h key last_i i' (Suc step)
      else Some (if ac_iseither (kh_flags h) i then kh_n_buckets h else i))"

definition kh_get :: "'v kh_table \<Rightarrow> u64 \<Rightarrow> nat option" where
  "kh_get h key =
     (if kh_n_buckets h \<noteq> 0
      then let mask = kh_n_buckets h - 1; i = unat (kh_int64_hash_func key) AND mask
           in kh_get_loop (2 * kh_n_buckets h) h key i i 0
      else Some 0)"

section \<open>Growing and rehashing\<close>

text \<open>while (!__ac_isempty(new_flags, i)) i = (i + (++step)) & new_mask;\<close>

fun find_empty :: "nat \<Rightarrow> u32 list \<Rightarrow> nat \<Rightarrow> nat \<Rightarrow> nat \<Rightarrow> nat option" where
  "find_empty 0 new_flags new_mask i step = None"
| "find_empty (Suc fuel) new_flags new_mask i step =
     (if \<not> ac_isempty new_flags i
      then find_empty fuel new_flags new_mask ((i + Suc step) AND new_mask) (Suc step)
      else Some i)"

text \<open>The arrays during a rehash: old flags, new flags, keys and values.\<close>

record 'v rehash_state =
  rh_flags :: "u32 list"
  rh_new_flags :: "u32 list"
  rh_keys :: "u64 list"
  rh_vals :: "'v list"

text \<open>The kick-out loop: place one element, taking along the one it pushes out.\<close>

fun kick_out :: "nat \<Rightarrow> nat \<Rightarrow> nat \<Rightarrow> u64 \<Rightarrow> 'v \<Rightarrow> 'v rehash_state \<Rightarrow> 'v rehash_state option" where
  "kick_out 0 n_buckets new_n_buckets key val s = None"
| "kick_out (Suc fuel) n_buckets new_n_buckets key val s =
     (let new_mask = new_n_buckets - 1
      in case find_empty new_n_buckets (rh_new_flags s) new_mask
                (unat (kh_int64_hash_func key) AND new_mask) 0 of
        None \<Rightarrow> None
      | Some i \<Rightarrow>
          let s1 = s\<lparr>rh_new_flags := ac_set_isempty_false i (rh_new_flags s)\<rparr>;
              s2 = s1\<lparr>rh_keys := (rh_keys s)[i := key], rh_vals := (rh_vals s)[i := val]\<rparr>
          in if i < n_buckets \<and> \<not> ac_iseither (rh_flags s) i
             then kick_out fuel n_buckets new_n_buckets (rh_keys s ! i) (rh_vals s ! i)
                    (s2\<lparr>rh_flags := ac_set_isdel_true i (rh_flags s)\<rparr>)
             else Some s2)"

text \<open>One iteration of the loop over the old buckets, and the loop.\<close>

definition rehash_bucket ::
  "nat \<Rightarrow> nat \<Rightarrow> nat \<Rightarrow> 'v rehash_state option \<Rightarrow> 'v rehash_state option" where
  "rehash_bucket n_buckets new_n_buckets j st = (case st of None \<Rightarrow> None
     | Some s \<Rightarrow>
         if \<not> ac_iseither (rh_flags s) j
         then kick_out (Suc n_buckets) n_buckets new_n_buckets (rh_keys s ! j) (rh_vals s ! j)
                (s\<lparr>rh_flags := ac_set_isdel_true j (rh_flags s)\<rparr>)
         else Some s)"

definition realloc_list :: "'a \<Rightarrow> nat \<Rightarrow> 'a list \<Rightarrow> 'a list" where
  "realloc_list junk n xs = take n xs @ replicate (n - length xs) junk"

definition kh_resize :: "u64 \<Rightarrow> 'v \<Rightarrow> nat \<Rightarrow> 'v kh_table \<Rightarrow> 'v kh_table option" where
  "kh_resize junk_key junk_val requested h =
     (let rounded = unat (kroundup32 (of_nat requested));
          new_n = (if rounded < 4 then 4 else rounded)
      in if hash_upper new_n \<le> kh_size h then Some h
         else
           let s = \<lparr>rh_flags = kh_flags h, rh_new_flags = all_empty_flags new_n,
                 rh_keys = (if kh_n_buckets h < new_n then realloc_list junk_key new_n (kh_keys h)
                   else kh_keys h),
                 rh_vals = (if kh_n_buckets h < new_n then realloc_list junk_val new_n (kh_vals h)
                   else kh_vals h)\<rparr>
           in case fold (rehash_bucket (kh_n_buckets h) new_n) [0..<kh_n_buckets h] (Some s) of
             None \<Rightarrow> None
           | Some s' \<Rightarrow> Some (h\<lparr>kh_n_buckets := new_n, kh_n_occupied := kh_size h,
               kh_upper_bound := hash_upper new_n, kh_flags := rh_new_flags s',
               kh_keys := (if new_n < kh_n_buckets h then realloc_list junk_key new_n (rh_keys s')
                 else rh_keys s'),
               kh_vals := (if new_n < kh_n_buckets h then realloc_list junk_val new_n (rh_vals s')
                 else rh_vals s')\<rparr>))"

section \<open>Insertion and deletion\<close>

text \<open>
  The probing loop of kh_put: the value of \<open>x\<close> after it. \<open>site\<close> is the last deleted bucket
  passed, or n_buckets.
\<close>

fun kh_put_loop :: "nat \<Rightarrow> 'v kh_table \<Rightarrow> u64 \<Rightarrow> nat \<Rightarrow> nat \<Rightarrow> nat \<Rightarrow> nat \<Rightarrow> nat option" where
  "kh_put_loop 0 h key last_i i step site = None"
| "kh_put_loop (Suc fuel) h key last_i i step site =
     (if \<not> ac_isempty (kh_flags h) i \<and> (ac_isdel (kh_flags h) i \<or> kh_keys h ! i \<noteq> key)
      then let site' = (if ac_isdel (kh_flags h) i then i else site);
               i' = (i + Suc step) AND (kh_n_buckets h - 1)
           in if i' = last_i then Some (if site' = kh_n_buckets h then i' else site')
              else kh_put_loop fuel h key last_i i' (Suc step) site'
      else Some (if ac_isempty (kh_flags h) i \<and> site \<noteq> kh_n_buckets h then site else i))"

definition kh_put_bucket :: "'v kh_table \<Rightarrow> u64 \<Rightarrow> nat option" where
  "kh_put_bucket h key =
     (let mask = kh_n_buckets h - 1; i = unat (kh_int64_hash_func key) AND mask
      in if ac_isempty (kh_flags h) i then Some i
         else kh_put_loop (2 * kh_n_buckets h) h key i i 0 (kh_n_buckets h))"

definition kh_put_grow :: "u64 \<Rightarrow> 'v \<Rightarrow> 'v kh_table \<Rightarrow> 'v kh_table option" where
  "kh_put_grow junk_key junk_val h =
     (if kh_upper_bound h \<le> kh_n_occupied h
      then if 2 * kh_size h < kh_n_buckets h
           then kh_resize junk_key junk_val (kh_n_buckets h - 1) h
           else kh_resize junk_key junk_val (kh_n_buckets h + 1) h
      else Some h)"

text \<open>The table, the bucket and the return code.\<close>

definition kh_put :: "u64 \<Rightarrow> 'v \<Rightarrow> u64 \<Rightarrow> 'v kh_table \<Rightarrow> ('v kh_table \<times> nat \<times> nat) option" where
  "kh_put junk_key junk_val key h0 =
     (case kh_put_grow junk_key junk_val h0 of None \<Rightarrow> None
      | Some h \<Rightarrow> (case kh_put_bucket h key of None \<Rightarrow> None
         | Some x \<Rightarrow>
             if ac_isempty (kh_flags h) x
             then Some (h\<lparr>kh_keys := (kh_keys h)[x := key],
                     kh_flags := ac_set_isboth_false x (kh_flags h),
                     kh_size := Suc (kh_size h), kh_n_occupied := Suc (kh_n_occupied h)\<rparr>, x, 1)
             else if ac_isdel (kh_flags h) x
             then Some (h\<lparr>kh_keys := (kh_keys h)[x := key],
                     kh_flags := ac_set_isboth_false x (kh_flags h),
                     kh_size := Suc (kh_size h)\<rparr>, x, 2)
             else Some (h, x, 0)))"

definition kh_del :: "nat \<Rightarrow> 'v kh_table \<Rightarrow> 'v kh_table" where
  "kh_del x h = (if x \<noteq> kh_n_buckets h \<and> \<not> ac_iseither (kh_flags h) x
     then h\<lparr>kh_flags := ac_set_isdel_true x (kh_flags h), kh_size := kh_size h - 1\<rparr> else h)"

definition kh_set_value :: "nat \<Rightarrow> 'v \<Rightarrow> 'v kh_table \<Rightarrow> 'v kh_table" where
  "kh_set_value x v h = h\<lparr>kh_vals := (kh_vals h)[x := v]\<rparr>"

text \<open>kh_clear: all buckets become empty; an unallocated table (flags NULL) stays as it is.\<close>

definition kh_clear :: "'v kh_table \<Rightarrow> 'v kh_table" where
  "kh_clear h = (if kh_flags h \<noteq> []
     then h\<lparr>kh_flags := all_empty_flags (kh_n_buckets h), kh_size := 0, kh_n_occupied := 0\<rparr> else h)"

end
