(* ===== verification/Processing_Unit.thy ===== *)
theory Processing_Unit
  imports Machine_Types Trap_Table
begin

text \<open>
  processing_unit.c: the function unit, which executes one packet, and one iteration of the loop of
  run_processing_unit, with the single-step trap mode that ENABLE_TRAP_MODE switches on.
\<close>

section \<open>What the C code reads from its environment\<close>

text \<open>
  \<open>env_random n\<close> is the value of the n-th call of random() in this process and \<open>env_time n\<close>
  the value of time(NULL) next to it. \<open>env_undef\<close> is the value C leaves undefined: an
  uninitialised computation_result, or a shift by 64 or more. \<open>env_junk_output\<close> is what the stack
  held where the result is built, \<open>env_junk_key\<close> and \<open>env_junk_token\<close> what realloc returned.
\<close>

record pu_env =
  env_random :: "nat \<Rightarrow> u64"
  env_time :: "nat \<Rightarrow> u64"
  env_undef :: "execution_packet \<Rightarrow> data_type"
  env_junk_output :: execution_result
  env_junk_key :: u64
  env_junk_token :: token_type

record pu_state =
  pu_random_calls :: nat
  pu_hash_table :: "token_type kh_table"

definition hash :: "u64 \<Rightarrow> u64" where
  "hash var = ucast (kh_int64_hash_func var)"

definition new_tag_area :: "pu_env \<Rightarrow> nat \<Rightarrow> tag_area_type" where
  "new_tag_area env calls = ucast (env_random env calls)"

definition TRAP_CODE_LIMIT :: "16 word" where
  "TRAP_CODE_LIMIT = 100"

section \<open>The function unit\<close>

definition truth :: "bool \<Rightarrow> data_type" where
  "truth b = (if b then TRUE else FALSE)"

text \<open>The cases of the switch that do more than compute a value: what they make of the output.\<close>

definition branch_output :: "execution_packet \<Rightarrow> execution_result \<Rightarrow> execution_result" where [simp]:
  "branch_output packet output =
     (if pkt_data_2 packet \<noteq> FALSE
      then output\<lparr>output_1 := (output_1 output)\<lparr>tok_destination := pkt_destination_1 packet,
             tok_data := pkt_data_1 packet\<rparr>\<rparr>
      else output\<lparr>output_1 := (output_1 output)\<lparr>tok_destination := pkt_destination_2 packet,
             tok_data := pkt_data_1 packet\<rparr>\<rparr>)"

definition new_tag_output :: "pu_env \<Rightarrow> nat \<Rightarrow> execution_packet \<Rightarrow> execution_result" where [simp]:
  "new_tag_output env calls packet =
     \<lparr>output_1 = \<lparr>tok_destination = pkt_destination_1 packet,
        tok_data = CREATE_TAG (new_tag_area env calls) 0, tok_tag = pkt_tag packet\<rparr>,
      output_2 = \<lparr>tok_destination = pkt_destination_2 packet,
        tok_data = pkt_tag packet, tok_tag = pkt_tag packet\<rparr>,
      res_marker = BOTH_OUTPUT_MARKER\<rparr>"

definition retag_output :: "tag_type \<Rightarrow> execution_result \<Rightarrow> execution_result" where [simp]:
  "retag_output t output = output\<lparr>output_1 := (output_1 output)\<lparr>tok_tag := t\<rparr>,
     output_2 := (output_2 output)\<lparr>tok_tag := t\<rparr>\<rparr>"

definition iteration_tag :: "execution_packet \<Rightarrow> tag_type" where [simp]:
  "iteration_tag packet = CREATE_TAG (TAG_TO_TAG_AREA (pkt_tag packet)) (ucast (pkt_data_2 packet))"

definition return_output :: "execution_packet \<Rightarrow> execution_result \<Rightarrow> execution_result" where [simp]:
  "return_output packet output = output\<lparr>output_1 := (output_1 output)\<lparr>tok_data := pkt_data_1 packet,
     tok_destination := ucast (pkt_data_2 packet)\<rparr>\<rparr>"

text \<open>C leaves a shift by 64 or more undefined.\<close>

definition shifted_left :: "pu_env \<Rightarrow> execution_packet \<Rightarrow> data_type" where [simp]:
  "shifted_left env packet = (if pkt_data_2 packet < 64
     then push_bit (unat (pkt_data_2 packet)) (pkt_data_1 packet) else env_undef env packet)"

definition shifted_right :: "pu_env \<Rightarrow> execution_packet \<Rightarrow> data_type" where [simp]:
  "shifted_right env packet = (if pkt_data_2 packet < 64
     then drop_bit (unat (pkt_data_2 packet)) (pkt_data_1 packet) else env_undef env packet)"

definition random_value :: "pu_env \<Rightarrow> nat \<Rightarrow> execution_packet \<Rightarrow> data_type" where [simp]:
  "random_value env calls packet = env_random env calls XOR pkt_tag packet XOR env_time env calls"

text \<open>
  The switch over the opcode: computation_result, the output it has set up, and the number of calls
  of random() so far. Additions and subtractions of int64_t are the two's complement ones the
  compiler emits.
\<close>

fun switch_opcode :: "pu_env \<Rightarrow> nat \<Rightarrow> execution_packet \<Rightarrow> execution_result \<Rightarrow> opcode_type
    \<Rightarrow> (data_type \<times> execution_result \<times> nat) outcome" where
  "switch_opcode env calls packet output ADD = Ok (pkt_data_1 packet + pkt_data_2 packet, output, calls)"
| "switch_opcode env calls packet output SUB = Ok (pkt_data_1 packet - pkt_data_2 packet, output, calls)"
| "switch_opcode env calls packet output LT =
     Ok (truth (sint (pkt_data_1 packet) < sint (pkt_data_2 packet)), output, calls)"
| "switch_opcode env calls packet output GT =
     Ok (truth (sint (pkt_data_1 packet) > sint (pkt_data_2 packet)), output, calls)"
| "switch_opcode env calls packet output GTE =
     Ok (truth (sint (pkt_data_1 packet) \<ge> sint (pkt_data_2 packet)), output, calls)"
| "switch_opcode env calls packet output LTE =
     Ok (truth (sint (pkt_data_1 packet) \<le> sint (pkt_data_2 packet)), output, calls)"
| "switch_opcode env calls packet output EQ =
     Ok (truth (sint (pkt_data_1 packet) = sint (pkt_data_2 packet)), output, calls)"
| "switch_opcode env calls packet output NEQ =
     Ok (truth (\<not> sint (pkt_data_1 packet) = sint (pkt_data_2 packet)), output, calls)"
| "switch_opcode env calls packet output NEG = Ok (truth (pkt_data_1 packet = FALSE), output, calls)"
| "switch_opcode env calls packet output DUP = Ok (pkt_data_1 packet, output, calls)"
| "switch_opcode env calls packet output BRR =
     Ok (env_undef env packet, branch_output packet output, calls)"
| "switch_opcode env calls packet output MER = Ok (pkt_data_1 packet, output, calls)"
| "switch_opcode env calls packet output NTG =
     Ok (env_undef env packet, new_tag_output env calls packet, Suc calls)"
| "switch_opcode env calls packet output ITG =
     Ok (pkt_data_1 packet, retag_output (pkt_tag packet + 1) output, calls)"
| "switch_opcode env calls packet output SIL =
     Ok (pkt_data_1 packet, retag_output (iteration_tag packet) output, calls)"
| "switch_opcode env calls packet output CTG =
     Ok (pkt_data_2 packet, retag_output (pkt_data_1 packet) output, calls)"
| "switch_opcode env calls packet output RTD =
     Ok (env_undef env packet, return_output packet output, calls)"
| "switch_opcode env calls packet output ETG = Ok (pkt_tag packet, output, calls)"
| "switch_opcode env calls packet output MUL = Ok (pkt_data_1 packet * pkt_data_2 packet, output, calls)"
| "switch_opcode env calls packet output XOR_op =
     Ok (pkt_data_1 packet XOR pkt_data_2 packet, output, calls)"
| "switch_opcode env calls packet output AND_op =
     Ok (pkt_data_1 packet AND pkt_data_2 packet, output, calls)"
| "switch_opcode env calls packet output OR_op =
     Ok (pkt_data_1 packet OR pkt_data_2 packet, output, calls)"
| "switch_opcode env calls packet output SHL = Ok (shifted_left env packet, output, calls)"
| "switch_opcode env calls packet output SHR = Ok (shifted_right env packet, output, calls)"
| "switch_opcode env calls packet output HLT = Exit (ucast (pkt_data_1 packet))"
| "switch_opcode env calls packet output RND = Ok (random_value env calls packet, output, Suc calls)"
| "switch_opcode env calls packet output OPN = Ok (env_undef env packet, output, calls)"
| "switch_opcode env calls packet output RED = Ok (env_undef env packet, output, calls)"
| "switch_opcode env calls packet output WRT = Ok (env_undef env packet, output, calls)"
| "switch_opcode env calls packet output CLS = Ok (env_undef env packet, output, calls)"
| "switch_opcode env calls packet output LOD = Ok (env_undef env packet, output, calls)"
| "switch_opcode env calls packet output LS = Ok (env_undef env packet, output, calls)"
| "switch_opcode env calls packet output SDF = Ok (env_undef env packet, output, calls)"
| "switch_opcode env calls packet output ULK = Ok (env_undef env packet, output, calls)"
| "switch_opcode env calls packet output LSK = Ok (env_undef env packet, output, calls)"

text \<open>The code behind the switch: a pure computation goes to one or both destinations.\<close>

definition place_result ::
  "execution_packet \<Rightarrow> data_type \<Rightarrow> execution_result \<Rightarrow> execution_result" where
  "place_result packet computation_result output =
     (if pkt_opcode packet \<noteq> opcode_val BRR \<and> pkt_opcode packet \<noteq> opcode_val NTG
         \<and> pkt_opcode packet \<noteq> opcode_val RTD
      then let out1 = output\<lparr>output_1 := (output_1 output)\<lparr>
                 tok_destination := pkt_destination_1 packet, tok_data := computation_result\<rparr>\<rparr>
           in if pkt_marker packet = BOTH_OUTPUT_MARKER
              then out1\<lparr>output_2 := (output_2 output)\<lparr>tok_destination := pkt_destination_2 packet,
                     tok_data := computation_result\<rparr>, res_marker := BOTH_OUTPUT_MARKER\<rparr>
              else out1
      else output)"

definition function_unit ::
  "pu_env \<Rightarrow> nat \<Rightarrow> execution_packet \<Rightarrow> (execution_result \<times> nat) outcome" where
  "function_unit env calls packet =
     (let output = \<lparr>output_1 = (output_1 (env_junk_output env))\<lparr>tok_tag := pkt_tag packet\<rparr>,
                    output_2 = (output_2 (env_junk_output env))\<lparr>tok_tag := pkt_tag packet\<rparr>,
                    res_marker = ONE_OUTPUT_MARKER\<rparr>
      in outcome_bind
           (case opcode_of (pkt_opcode packet) of
              None \<Rightarrow> Ok (env_undef env packet, output, calls)
            | Some op \<Rightarrow> switch_opcode env calls packet output op)
           (\<lambda>(computation_result, output, calls).
              Ok (place_result packet computation_result output, calls)))"

section \<open>The loop\<close>

definition send_result :: "execution_result \<Rightarrow> token_type list" where
  "send_result result =
     output_1 result # (if res_marker result = BOTH_OUTPUT_MARKER then [output_2 result] else [])"

text \<open>
  The three tokens sent to the trap code, and the token put aside under the random destination to
  which the trap code returns.
\<close>

definition single_step_token :: "pu_env \<Rightarrow> destination_type \<Rightarrow> token_type \<Rightarrow> pu_state
    \<Rightarrow> (pu_state \<times> token_type list) outcome" where
  "single_step_token env input token st =
     (let calls = pu_random_calls st;
          new_tag = ucast (new_tag_area env calls);
          destination_0 = \<lparr>tok_destination = CREATE_DESTINATION 0 INPUT_ONE MATCHING_ONE,
            tok_data = hash (ucast input), tok_tag = new_tag\<rparr>;
          destination_1 = \<lparr>tok_destination = CREATE_DESTINATION 1 INPUT_ONE MATCHING_ONE,
            tok_data = hash (ucast (tok_destination token)), tok_tag = new_tag\<rparr>;
          random_dest = (ucast (env_random env (Suc calls)) :: destination_type);
          destination_2 = \<lparr>tok_destination = CREATE_DESTINATION 2 INPUT_ONE MATCHING_ONE,
            tok_data = ucast random_dest, tok_tag = new_tag\<rparr>
      in case kh_put (env_junk_key env) (env_junk_token env) (ucast random_dest) (pu_hash_table st) of
           None \<Rightarrow> Fault
         | Some (table, k, ret) \<Rightarrow>
             Ok (st\<lparr>pu_random_calls := calls + 2, pu_hash_table := kh_set_value k token table\<rparr>,
                 [destination_0, destination_1, destination_2]))"

text \<open>What happens to a result that is not the answer of the trap code.\<close>

definition emit_result :: "bool \<Rightarrow> pu_env \<Rightarrow> execution_packet \<Rightarrow> execution_result \<Rightarrow> pu_state
    \<Rightarrow> (pu_state \<times> token_type list) outcome" where
  "emit_result trap_flag env packet result st =
     (if trap_flag \<and> TRAP_CODE_LIMIT \<le> ucast (DESTINATION_TO_ADDRESS (pkt_input packet))
      then outcome_bind (single_step_token env (pkt_input packet) (output_1 result) st)
        (\<lambda>(st1, out1).
           if res_marker result = BOTH_OUTPUT_MARKER
           then outcome_bind (single_step_token env (pkt_input packet) (output_2 result) st1)
             (\<lambda>(st2, out2). Ok (st2, out1 @ out2))
           else Ok (st1, out1))
      else Ok (st, send_result result))"

text \<open>One iteration: the new state and the tokens added to the outgoing queue, in order.\<close>

definition processing_unit_step :: "bool \<Rightarrow> pu_env \<Rightarrow> execution_packet \<Rightarrow> pu_state
    \<Rightarrow> (pu_state \<times> token_type list) outcome" where
  "processing_unit_step trap_flag env packet st =
     outcome_bind (function_unit env (pu_random_calls st) packet) (\<lambda>(result, calls).
       let st0 = st\<lparr>pu_random_calls := calls\<rparr>; table = pu_hash_table st
       in if trap_flag \<and> pkt_opcode packet = opcode_val RTD
          then case kh_get table (ucast (tok_destination (output_1 result))) of
              None \<Rightarrow> Fault
            | Some k \<Rightarrow>
                if k \<noteq> kh_n_buckets table
                then Ok (st0\<lparr>pu_hash_table := kh_del k table\<rparr>,
                       if tok_data (output_1 result) = 1 then [kh_vals table ! k] else [])
                else emit_result trap_flag env packet result st0
          else emit_result trap_flag env packet result st0)"

section \<open>The function unit against integer arithmetic\<close>

text \<open>
  What an opcode computes from its operands read as signed integers; None for the opcodes that do
  more than compute a value.
\<close>

fun alu_spec :: "opcode_type \<Rightarrow> int \<Rightarrow> int \<Rightarrow> int option" where
  "alu_spec ADD a b = Some (a + b)"
| "alu_spec SUB a b = Some (a - b)"
| "alu_spec MUL a b = Some (a * b)"
| "alu_spec LT a b = Some (of_bool (a < b))"
| "alu_spec GT a b = Some (of_bool (a > b))"
| "alu_spec LTE a b = Some (of_bool (a \<le> b))"
| "alu_spec GTE a b = Some (of_bool (a \<ge> b))"
| "alu_spec EQ a b = Some (of_bool (a = b))"
| "alu_spec NEQ a b = Some (of_bool (a \<noteq> b))"
| "alu_spec NEG a b = Some (of_bool (a = 0))"
| "alu_spec DUP a b = Some a"
| "alu_spec MER a b = Some a"
| "alu_spec XOR_op a b = Some (a XOR b)"
| "alu_spec AND_op a b = Some (a AND b)"
| "alu_spec OR_op a b = Some (a OR b)"
| "alu_spec SHL a b = (if 0 \<le> b \<and> b < 64 then Some (a * 2 ^ nat b) else None)"
| "alu_spec SHR a b = (if 0 \<le> b \<and> b < 64 then Some ((a mod 2 ^ 64) div 2 ^ nat b) else None)"
| "alu_spec _ a b = None"

text \<open>The tokens a result with one value sends: one copy, or one for each destination.\<close>

definition value_tokens :: "execution_packet \<Rightarrow> tag_type \<Rightarrow> data_type \<Rightarrow> token_type list" where
  "value_tokens p tag v =
     \<lparr>tok_destination = pkt_destination_1 p, tok_data = v, tok_tag = tag\<rparr> #
     (if pkt_marker p = BOTH_OUTPUT_MARKER
      then [\<lparr>tok_destination = pkt_destination_2 p, tok_data = v, tok_tag = tag\<rparr>] else [])"

lemma truth_of_bool: "truth b = of_bool b"
  by (simp add: truth_def TRUE_def FALSE_def)

lemma uint_eq_sint_small:
  fixes w :: u64
  assumes "0 \<le> sint w" and "sint w < 64"
  shows "uint w = sint w"
  using assms by (simp add: uint_sint take_bit_int_eq_self)

lemma sint_small_shift:
  fixes w :: u64
  assumes "0 \<le> sint w" and "sint w < 64"
  shows "w < 64" and "unat w = nat (sint w)"
  using assms uint_eq_sint_small [OF assms] by (simp_all add: word_less_def flip: nat_uint_eq)

lemma word_of_int_mod_div:
  fixes x :: u64
  shows "word_of_int ((sint x mod 2 ^ 64) div 2 ^ n) = drop_bit n x"
proof -
  have "uint x = sint x mod 2 ^ 64"
    using uint_sint [of x] by (simp add: take_bit_eq_mod)
  moreover have "uint (drop_bit n x) = drop_bit n (uint x)"
    by (rule bit_eqI) (auto simp: bit_simps dest: bit_imp_le_length)
  ultimately have "uint (drop_bit n x) = (sint x mod 2 ^ 64) div 2 ^ n"
    by (simp only: drop_bit_eq_div)
  then show ?thesis by (metis word_of_int_uint)
qed

lemma word_of_int_shift:
  fixes x :: u64
  shows "word_of_int (sint x * 2 ^ n) = push_bit n x"
  by (simp add: push_bit_eq_mult)

lemma word_of_sint_ops:
  fixes x y :: u64
  shows "word_of_int (sint x + sint y) = x + y" and "word_of_int (sint x - sint y) = x - y"
    and "word_of_int (sint x * sint y) = x * y"
  by simp_all

lemma word_of_sint_bits:
  fixes x y :: u64
  shows "word_of_int (sint x XOR sint y) = x XOR y" and "word_of_int (sint x AND sint y) = x AND y"
    and "word_of_int (sint x OR sint y) = x OR y"
  by (rule bit_word_eqI, simp add: bit_simps)+


lemma function_unit_alu:
  assumes op: "pkt_opcode p = opcode_val op"
    and r: "alu_spec op (sint (pkt_data_1 p)) (sint (pkt_data_2 p)) = Some r"
  shows "\<exists>result. function_unit env calls p = Ok (result, calls)
     \<and> send_result result = value_tokens p (pkt_tag p) (word_of_int r)"
proof -
  have word: "switch_opcode env calls p out op = Ok (word_of_int r, out, calls)" for out
    using r
    by (cases op) (auto simp: truth_of_bool word_of_sint_bits word_of_int_mod_div [simplified] push_bit_eq_mult
       sint_small_shift signed_eq_0_iff FALSE_def split: if_splits)
  have "op \<noteq> BRR \<and> op \<noteq> NTG \<and> op \<noteq> RTD" using r by auto
  then show ?thesis
    unfolding function_unit_def op
    by (simp add: word place_result_def op send_result_def value_tokens_def Let_def
        BOTH_OUTPUT_MARKER_def ONE_OUTPUT_MARKER_def)
qed

section \<open>Properties of the function unit\<close>

text \<open>
  C20: every arithmetic, comparison, logical and shift opcode computes the operation on its
  operands read as signed 64-bit integers, wrapped to 64 bits, and sends the value with the tag of
  the packet to the first destination, and to the second one exactly when the packet asks for both. SHR
  shifts zeros in from the left, and the shift amounts are those below 64.
\<close>

theorem function_unit_computes:
  assumes "opcode_of (pkt_opcode p) = Some op"
    and "alu_spec op (sint (pkt_data_1 p)) (sint (pkt_data_2 p)) = Some r"
  shows "\<exists>result. function_unit env calls p = Ok (result, calls)
     \<and> send_result result = value_tokens p (pkt_tag p) (word_of_int r)"
  using assms function_unit_alu by (simp add: opcode_of_Some)

definition blank_result :: execution_result where
  "blank_result = \<lparr>output_1 = \<lparr>tok_destination = 0, tok_data = 0, tok_tag = 0\<rparr>,
     output_2 = \<lparr>tok_destination = 0, tok_data = 0, tok_tag = 0\<rparr>, res_marker = ONE_OUTPUT_MARKER\<rparr>"

text \<open>An environment and packets to run the unit on.\<close>

definition sample_env :: pu_env where
  "sample_env = \<lparr>env_random = (\<lambda>n. word_of_nat (n + 4)), env_time = (\<lambda>n. 1700000000),
     env_undef = (\<lambda>p. 0), env_junk_output = blank_result, env_junk_key = 0,
     env_junk_token = output_1 blank_result\<rparr>"

definition sample_packet :: "opcode_type \<Rightarrow> data_type \<Rightarrow> data_type \<Rightarrow> tag_type \<Rightarrow> execution_packet" where
  "sample_packet op a b t = \<lparr>pkt_data_1 = a, pkt_data_2 = b, pkt_opcode = opcode_val op, pkt_tag = t,
     pkt_destination_1 = 800, pkt_destination_2 = 804, pkt_input = 960, pkt_marker = BOTH_OUTPUT_MARKER\<rparr>"

theorem function_unit_computes_witness:
  "\<exists>result. function_unit sample_env 0 (sample_packet SUB 3 5 7) = Ok (result, 0)
     \<and> send_result result = value_tokens (sample_packet SUB 3 5 7) 7 (- 2)"
  using function_unit_computes [of "sample_packet SUB 3 5 7" SUB "-2" sample_env 0]
  by (simp add: sample_packet_def opcode_of_Some)

lemma uint_iteration_count: "uint (TAG_TO_ITERATION_COUNT t) = uint t mod 2 ^ 32"
proof -
  have "TAG_TO_ITERATION_COUNT t = ucast t"
    by (rule bit_word_eqI) (simp add: TAG_TO_ITERATION_COUNT_def bit_simps)
  then show ?thesis by (simp add: unsigned_ucast_eq take_bit_eq_mod)
qed

lemma uint_tag_area: "uint (TAG_TO_TAG_AREA t) = uint t div 2 ^ 32"
proof -
  have "uint (drop_bit 32 t) = uint t div 2 ^ 32"
    using uint_div_distrib [of t "2 ^ 32"] by (simp add: drop_bit_eq_div)
  moreover have "0 \<le> uint t div 2 ^ 32 \<and> uint t div 2 ^ 32 < 2 ^ 32"
    using unsigned_less [of t, where 'a = int] unsigned_greater_eq [of t]
    by (simp add: pos_imp_zdiv_nonneg_iff)
  ultimately show ?thesis
    by (simp add: TAG_TO_TAG_AREA_def unsigned_ucast_eq take_bit_eq_mod mod_pos_pos_trivial)
qed

lemma carry_arith:
  fixes x :: int
  assumes "0 \<le> x" and "x < 18446744073709551616"
  shows "(x + 1) mod 18446744073709551616 mod 4294967296 = (x mod 4294967296 + 1) mod 4294967296"
    and "(x + 1) mod 18446744073709551616 div 4294967296
       = (x div 4294967296 + (if x mod 4294967296 = 4294967295 then 1 else 0)) mod 4294967296"
proof -
  define a c where "a = x div 4294967296" and "c = x mod 4294967296"
  have x: "x = 4294967296 * a + c" and c: "0 \<le> c" "c < 4294967296"
    by (simp_all add: a_def c_def)
  have a: "0 \<le> a" "a < 4294967296" using assms by (simp_all add: a_def)
  have y: "(x + 1) mod 18446744073709551616
      = (if c = 4294967295 then if a = 4294967295 then 0 else 4294967296 * (a + 1)
         else 4294967296 * a + (c + 1))"
    using x a c by (auto simp: mod_pos_pos_trivial)
  show "(x + 1) mod 18446744073709551616 mod 4294967296 = (x mod 4294967296 + 1) mod 4294967296"
    by (simp add: mod_mod_cancel mod_add_left_eq)
  show "(x + 1) mod 18446744073709551616 div 4294967296
       = (x div 4294967296 + (if x mod 4294967296 = 4294967295 then 1 else 0)) mod 4294967296"
    unfolding y a_def [symmetric] c_def [symmetric] using a c by auto
qed

lemma increment_tag:
  fixes t :: tag_type
  shows "TAG_TO_ITERATION_COUNT (t + 1) = TAG_TO_ITERATION_COUNT t + 1"
    and "TAG_TO_TAG_AREA (t + 1)
       = TAG_TO_TAG_AREA t + (if TAG_TO_ITERATION_COUNT t = 0xffffffff then 1 else 0)"
proof -
  have t: "0 \<le> uint t" "uint t < 18446744073709551616"
    using unsigned_less [of t, where 'a = int] by simp_all
  note carry = carry_arith [OF t]
  have plus: "uint (t + 1) = (uint t + 1) mod 18446744073709551616"
    by (simp add: uint_word_ariths)
  have plus32: "uint (c + d) = (uint c + uint d) mod 4294967296" for c d :: u32
    by (simp add: uint_word_ariths)
  have "uint (TAG_TO_ITERATION_COUNT (t + 1)) = uint (TAG_TO_ITERATION_COUNT t + 1)"
    using carry(1) by (simp only: plus plus32 uint_iteration_count) simp
  then show "TAG_TO_ITERATION_COUNT (t + 1) = TAG_TO_ITERATION_COUNT t + 1"
    by (simp only: word_uint_eq_iff)
  have at_max: "TAG_TO_ITERATION_COUNT t = 0xffffffff \<longleftrightarrow> uint t mod 4294967296 = 4294967295"
    using uint_iteration_count [of t] by (auto simp: word_uint_eq_iff)
  have one: "uint (if b then 1 else 0 :: u32) = (if b then 1 else 0)" for b by simp
  have "uint (TAG_TO_TAG_AREA (t + 1))
      = uint (TAG_TO_TAG_AREA t + (if TAG_TO_ITERATION_COUNT t = 0xffffffff then 1 else 0))"
    using carry(2) by (simp only: plus plus32 uint_tag_area at_max one) simp
  then show "TAG_TO_TAG_AREA (t + 1)
       = TAG_TO_TAG_AREA t + (if TAG_TO_ITERATION_COUNT t = 0xffffffff then 1 else 0)"
    by (simp only: word_uint_eq_iff)
qed

text \<open>Where a value goes that the switch has computed with tags \<open>t\<close> set up.\<close>

definition initial_output :: "pu_env \<Rightarrow> execution_packet \<Rightarrow> execution_result" where
  "initial_output env p = \<lparr>output_1 = (output_1 (env_junk_output env))\<lparr>tok_tag := pkt_tag p\<rparr>,
     output_2 = (output_2 (env_junk_output env))\<lparr>tok_tag := pkt_tag p\<rparr>,
     res_marker = ONE_OUTPUT_MARKER\<rparr>"

lemma initial_output_fields [simp]:
  "tok_tag (output_1 (initial_output env p)) = pkt_tag p"
  "tok_tag (output_2 (initial_output env p)) = pkt_tag p"
  "res_marker (initial_output env p) = ONE_OUTPUT_MARKER"
  by (simp_all add: initial_output_def)

lemma function_unit_known:
  "pkt_opcode p = opcode_val op \<Longrightarrow> function_unit env calls p =
     outcome_bind (switch_opcode env calls p (initial_output env p) op)
       (\<lambda>(v, out, c). Ok (place_result p v out, c))"
  by (simp add: function_unit_def initial_output_def)

lemma function_unit_value:
  assumes "pkt_opcode p = opcode_val op" and "op \<notin> {BRR, NTG, RTD}"
    and "switch_opcode env calls p (initial_output env p) op = Ok (v, out, calls')"
    and "tok_tag (output_1 out) = t" and "tok_tag (output_2 out) = t"
    and "res_marker out = ONE_OUTPUT_MARKER"
  shows "\<exists>result. function_unit env calls p = Ok (result, calls')
     \<and> send_result result = value_tokens p t v"
  using assms
  by (simp add: function_unit_known place_result_def send_result_def value_tokens_def Let_def
      BOTH_OUTPUT_MARKER_def ONE_OUTPUT_MARKER_def)

text \<open>
  The four tag instructions. ITG adds one to the iteration count and keeps the tag area, unless
  the count is at its maximum, where the carry moves to the next tag area; SIL sets the count and
  keeps the area; CTG replaces the tag by its first operand; ETG returns the tag as data.
\<close>

theorem function_unit_tags:
  assumes "opcode_of (pkt_opcode p) = Some op" and "op \<in> {ITG, SIL, CTG, ETG}"
  shows "\<exists>result v t. function_unit env calls p = Ok (result, calls)
     \<and> send_result result = value_tokens p t v
     \<and> (op = ITG \<longrightarrow> v = pkt_data_1 p
          \<and> TAG_TO_ITERATION_COUNT t = TAG_TO_ITERATION_COUNT (pkt_tag p) + 1
          \<and> TAG_TO_TAG_AREA t = TAG_TO_TAG_AREA (pkt_tag p)
              + (if TAG_TO_ITERATION_COUNT (pkt_tag p) = 0xffffffff then 1 else 0))
     \<and> (op = SIL \<longrightarrow> v = pkt_data_1 p \<and> TAG_TO_ITERATION_COUNT t = ucast (pkt_data_2 p)
          \<and> TAG_TO_TAG_AREA t = TAG_TO_TAG_AREA (pkt_tag p))
     \<and> (op = CTG \<longrightarrow> v = pkt_data_2 p \<and> t = pkt_data_1 p)
     \<and> (op = ETG \<longrightarrow> v = pkt_tag p \<and> t = pkt_tag p)"
proof -
  have "pkt_opcode p = opcode_val op" using assms(1) by (simp add: opcode_of_Some)
  note sends = function_unit_value [OF this]
  from assms(2) consider "op = ITG" | "op = SIL" | "op = CTG" | "op = ETG" by blast
  then show ?thesis
  proof cases
    case 1
    with sends [of env calls "pkt_data_1 p" _ calls "pkt_tag p + 1"] increment_tag [of "pkt_tag p"]
    show ?thesis by fastforce
  next
    case 2
    with sends [of env calls "pkt_data_1 p" _ calls
        "CREATE_TAG (TAG_TO_TAG_AREA (pkt_tag p)) (ucast (pkt_data_2 p))"]
    show ?thesis by (fastforce simp: Let_def)
  next
    case 3
    with sends [of env calls "pkt_data_2 p" _ calls "pkt_data_1 p"]
    show ?thesis by fastforce
  next
    case 4
    with sends [of env calls "pkt_tag p" _ calls "pkt_tag p"]
    show ?thesis by fastforce
  qed
qed

theorem function_unit_tags_witness:
  "\<exists>result v t. function_unit sample_env 0 (sample_packet ITG 3 5 0xffffffff) = Ok (result, 0)
     \<and> send_result result = value_tokens (sample_packet ITG 3 5 0xffffffff) t v
     \<and> TAG_TO_ITERATION_COUNT t = 0 \<and> TAG_TO_TAG_AREA t = 1"
proof -
  have counts: "TAG_TO_ITERATION_COUNT 0xffffffff = 0xffffffff" "TAG_TO_TAG_AREA 0xffffffff = 0"
    by (simp_all add: TAG_TO_ITERATION_COUNT_def TAG_TO_TAG_AREA_def)
  have wrap: "(4294967296 :: u32) = 0" by simp
  have pkt: "pkt_opcode (sample_packet ITG 3 5 t) = opcode_val ITG"
    "pkt_tag (sample_packet ITG 3 5 t) = t" for t
    by (simp_all add: sample_packet_def)
  show ?thesis
    using function_unit_tags [of "sample_packet ITG 3 5 0xffffffff" ITG sample_env 0]
    by (simp add: opcode_of_Some pkt counts wrap) blast
qed

section \<open>Control opcodes, totality and independence of undefined values\<close>

text \<open>
  The tokens of the opcodes that route, make tags or draw random numbers, and how many random
  numbers they use; \<open>r\<close> is the next random number and \<open>t\<close> the time.
\<close>

fun control_spec :: "opcode_type \<Rightarrow> u64 \<Rightarrow> u64 \<Rightarrow> execution_packet \<Rightarrow> (token_type list \<times> nat) option" where
  "control_spec BRR r t p = Some ([\<lparr>tok_destination =
       (if pkt_data_2 p \<noteq> 0 then pkt_destination_1 p else pkt_destination_2 p),
       tok_data = pkt_data_1 p, tok_tag = pkt_tag p\<rparr>], 0)"
| "control_spec RTD r t p = Some ([\<lparr>tok_destination = ucast (pkt_data_2 p),
       tok_data = pkt_data_1 p, tok_tag = pkt_tag p\<rparr>], 0)"
| "control_spec NTG r t p = Some
     ([\<lparr>tok_destination = pkt_destination_1 p, tok_data = push_bit 32 (ucast (ucast r :: u32)),
        tok_tag = pkt_tag p\<rparr>,
       \<lparr>tok_destination = pkt_destination_2 p, tok_data = pkt_tag p, tok_tag = pkt_tag p\<rparr>], 1)"
| "control_spec RND r t p = Some (value_tokens p (pkt_tag p) (r XOR pkt_tag p XOR t), 1)"
| "control_spec _ r t p = None"

text \<open>
  C33: the control opcodes. BRR sends its first operand to the first destination when the second
  operand is not zero and to the second destination otherwise; RTD sends it to the destination its
  second operand holds; NTG sends a fresh tag, a random area with iteration count zero, and the old
  tag; RND sends a random value.
\<close>

theorem function_unit_control:
  assumes "opcode_of (pkt_opcode p) = Some op"
    and "control_spec op (env_random env calls) (env_time env calls) p = Some (ts, k)"
  shows "\<exists>result. function_unit env calls p = Ok (result, calls + k) \<and> send_result result = ts"
proof -
  have op: "pkt_opcode p = opcode_val op" using assms(1) by (simp add: opcode_of_Some)
  from assms(2) consider "op = BRR" | "op = RTD" | "op = NTG" | "op = RND" by (cases op) auto
  then show ?thesis
  proof cases
    case 4
    with function_unit_value [OF op, of env calls _ _ "Suc calls" "pkt_tag p"] assms(2)
    show ?thesis by fastforce
  next
    case 3
    with assms(2) show ?thesis
      by (auto simp: function_unit_known [OF op] place_result_def op send_result_def
          CREATE_TAG_def new_tag_area_def)
  qed (use assms(2) in \<open>auto simp: function_unit_known [OF op] place_result_def op send_result_def
      initial_output_def BOTH_OUTPUT_MARKER_def ONE_OUTPUT_MARKER_def FALSE_def\<close>)
qed

theorem function_unit_control_witness:
  "\<exists>result. function_unit sample_env 3 (sample_packet BRR 8 0 5) = Ok (result, 3)
     \<and> send_result result = [\<lparr>tok_destination = 804, tok_data = 8, tok_tag = 5\<rparr>]"
  using function_unit_control [of "sample_packet BRR 8 0 5" BRR sample_env 3]
  by (simp add: sample_packet_def opcode_of_Some)

text \<open>
  Where the tokens of a packet go, in order: to one destination or to both, by the marker; but BRR chooses
  by its second operand, NTG always sends to both, and RTD to the one its second operand holds.
\<close>

definition receivers :: "execution_packet \<Rightarrow> destination_type list" where
  "receivers p =
     (if pkt_opcode p = opcode_val BRR then [if pkt_data_2 p \<noteq> 0 then pkt_destination_1 p else pkt_destination_2 p]
      else if pkt_opcode p = opcode_val NTG then [pkt_destination_1 p, pkt_destination_2 p]
      else if pkt_opcode p = opcode_val RTD then [ucast (pkt_data_2 p)]
      else if pkt_marker p = BOTH_OUTPUT_MARKER then [pkt_destination_1 p, pkt_destination_2 p]
      else [pkt_destination_1 p])"

lemma function_unit_answers:
  "if pkt_opcode p = opcode_val HLT
   then function_unit env calls p = Exit (ucast (pkt_data_1 p))
   else \<exists>result. function_unit env calls p
         = Ok (result, calls + (if pkt_opcode p \<in> {opcode_val NTG, opcode_val RND} then 1 else 0))
     \<and> map tok_destination (send_result result) = receivers p"
proof (cases "opcode_of (pkt_opcode p)")
  case None
  then have "pkt_opcode p \<noteq> opcode_val op" for op
    using opcode_of_Some [of "pkt_opcode p" op] by auto
  from this [of HLT] this [of BRR] this [of NTG] this [of RTD] this [of RND] show ?thesis
    by (auto simp: function_unit_def None place_result_def send_result_def Let_def receivers_def
        BOTH_OUTPUT_MARKER_def ONE_OUTPUT_MARKER_def)
next
  case (Some op)
  then have op: "pkt_opcode p = opcode_val op" by (simp add: opcode_of_Some)
  show ?thesis
    unfolding function_unit_known [OF op] place_result_def receivers_def op
    by (cases op) (auto simp: send_result_def Let_def FALSE_def
        initial_output_def BOTH_OUTPUT_MARKER_def ONE_OUTPUT_MARKER_def)
qed

text \<open>
  C32: whatever the packet - an opcode the unit is not meant to get and opcode numbers that are not in the
  enum included - the function unit answers or, for HLT only, exits with the operand as status. The answer
  is one token or two, and they go to the receivers of the packet, in order: its first destination, or both
  when its marker says so; for BRR the first or the second one, as the second operand is not zero or zero;
  for NTG both; for RTD the one the second operand holds. NTG and RND take one random number, the others
  none.
\<close>

theorem function_unit_total:
  "if pkt_opcode p = opcode_val HLT
   then function_unit env calls p = Exit (ucast (pkt_data_1 p))
   else \<exists>result. function_unit env calls p
         = Ok (result, calls + (if pkt_opcode p \<in> {opcode_val NTG, opcode_val RND} then 1 else 0))
     \<and> map tok_destination (send_result result) = receivers p"
  by (rule function_unit_answers)

text \<open>The opcodes that other units answer before a packet comes here.\<close>

definition input_opcodes :: "opcode_type set" where
  "input_opcodes = {OPN, RED, WRT, CLS, LOD, LS, SDF, ULK, LSK}"

definition sent_tokens :: "(execution_result \<times> nat) outcome \<Rightarrow> (token_type list \<times> nat) outcome" where
  "sent_tokens r = outcome_bind r (\<lambda>(result, calls). Ok (send_result result, calls))"

lemma defined_tokens:
  assumes "opcode_of (pkt_opcode p) = Some op" and "op \<notin> input_opcodes"
    and "op \<in> {SHL, SHR} \<longrightarrow> pkt_data_2 p < 64"
    and "env_random env' = env_random env" and "env_time env' = env_time env"
  shows "sent_tokens (function_unit env' calls p) = sent_tokens (function_unit env calls p)"
proof -
  have op: "pkt_opcode p = opcode_val op" using assms(1) by (simp add: opcode_of_Some)
  show ?thesis
    using assms(2-5)
    by (cases op) (auto simp: function_unit_known [OF op] place_result_def op send_result_def Let_def
        initial_output_def BOTH_OUTPUT_MARKER_def ONE_OUTPUT_MARKER_def input_opcodes_def new_tag_area_def sent_tokens_def)
qed

text \<open>Any other packet carries what is undefined to its first token.\<close>

lemma undefined_token:
  assumes "\<And>op. opcode_of (pkt_opcode p) = Some op \<Longrightarrow> op \<in> input_opcodes \<or> op \<in> {SHL, SHR} \<and> \<not> pkt_data_2 p < 64"
  shows "\<exists>result. function_unit env calls p = Ok (result, calls) \<and> tok_data (hd (send_result result)) = env_undef env p"
proof (cases "opcode_of (pkt_opcode p)")
  case None
  then have "pkt_opcode p \<noteq> opcode_val op" for op
    using opcode_of_Some [of "pkt_opcode p" op] by auto
  from this [of BRR] this [of NTG] this [of RTD] show ?thesis
    by (auto simp: function_unit_def None place_result_def send_result_def Let_def)
next
  case (Some op)
  then have op: "pkt_opcode p = opcode_val op" by (simp add: opcode_of_Some)
  from assms [OF Some] show ?thesis
    unfolding function_unit_known [OF op] place_result_def op
    by (cases op) (auto simp: send_result_def Let_def input_opcodes_def)
qed

text \<open>
  C34: when something uninitialised or undefined reaches a token. What is sent is independent of the value
  of an uninitialised computation_result, of an undefined shift, and of what the stack held in the result,
  for exactly these packets: those with an opcode of the enum that is not answered by another unit - the
  file opcodes and LOD -, and with a shift amount below 64 when it is a shift.
\<close>

theorem function_unit_defined:
  "(\<forall>env env' calls. env_random env' = env_random env \<and> env_time env' = env_time env
      \<longrightarrow> sent_tokens (function_unit env' calls p) = sent_tokens (function_unit env calls p))
   \<longleftrightarrow> (\<exists>op. opcode_of (pkt_opcode p) = Some op \<and> op \<notin> input_opcodes
         \<and> (op \<in> {SHL, SHR} \<longrightarrow> pkt_data_2 p < 64))"
proof
  assume same: "\<forall>env env' calls. env_random env' = env_random env \<and> env_time env' = env_time env
      \<longrightarrow> sent_tokens (function_unit env' calls p) = sent_tokens (function_unit env calls p)"
  show "\<exists>op. opcode_of (pkt_opcode p) = Some op \<and> op \<notin> input_opcodes \<and> (op \<in> {SHL, SHR} \<longrightarrow> pkt_data_2 p < 64)"
  proof (rule ccontr)
    assume "\<nexists>op. opcode_of (pkt_opcode p) = Some op \<and> op \<notin> input_opcodes \<and> (op \<in> {SHL, SHR} \<longrightarrow> pkt_data_2 p < 64)"
    then have bad: "opcode_of (pkt_opcode p) = Some op \<Longrightarrow> op \<in> input_opcodes \<or> op \<in> {SHL, SHR} \<and> \<not> pkt_data_2 p < 64"
      for op by blast
    let ?env = "sample_env\<lparr>env_undef := (\<lambda>p. 1)\<rparr>"
    from undefined_token [OF bad, of ?env 0] obtain r1 where
      "function_unit ?env 0 p = Ok (r1, 0)" "tok_data (hd (send_result r1)) = 1" by auto
    moreover from undefined_token [OF bad, of sample_env 0] obtain r2 where
      "function_unit sample_env 0 p = Ok (r2, 0)" "tok_data (hd (send_result r2)) = 0" by (auto simp: sample_env_def)
    moreover have "sent_tokens (function_unit ?env 0 p) = sent_tokens (function_unit sample_env 0 p)"
      by (rule same [rule_format]) simp
    ultimately have "send_result r1 = send_result r2" by (simp add: sent_tokens_def)
    with \<open>tok_data (hd (send_result r1)) = 1\<close> \<open>tok_data (hd (send_result r2)) = 0\<close> show False by simp
  qed
next
  assume "\<exists>op. opcode_of (pkt_opcode p) = Some op \<and> op \<notin> input_opcodes \<and> (op \<in> {SHL, SHR} \<longrightarrow> pkt_data_2 p < 64)"
  then obtain op where op: "opcode_of (pkt_opcode p) = Some op" "op \<notin> input_opcodes"
    "op \<in> {SHL, SHR} \<longrightarrow> pkt_data_2 p < 64" by blast
  show "\<forall>env env' calls. env_random env' = env_random env \<and> env_time env' = env_time env
      \<longrightarrow> sent_tokens (function_unit env' calls p) = sent_tokens (function_unit env calls p)"
    by (intro allI impI) (elim conjE, rule defined_tokens [OF op])
qed

theorem function_unit_defined_witness:
  "sent_tokens (function_unit (sample_env\<lparr>env_undef := (\<lambda>p. 99)\<rparr>) 0 (sample_packet SHL 1 3 0))
   = sent_tokens (function_unit sample_env 0 (sample_packet SHL 1 3 0))"
proof -
  have "\<exists>op. opcode_of (pkt_opcode (sample_packet SHL 1 3 0)) = Some op \<and> op \<notin> input_opcodes
      \<and> (op \<in> {SHL, SHR} \<longrightarrow> pkt_data_2 (sample_packet SHL 1 3 0) < 64)"
    by (rule exI [of _ SHL]) (simp add: sample_packet_def opcode_of_Some input_opcodes_def)
  then show ?thesis by (intro function_unit_defined [THEN iffD2, rule_format]) auto
qed

end
