(* ===== verification/Trap_Table_Laws.thy ===== *)
theory Trap_Table_Laws
  imports Trap_Table
begin

text \<open>
  The open-addressing table of khash.h behaves as a map: triangular probing visits every bucket, so
  every search returns; kh_get finds exactly the stored keys; kh_put with its rehashing and kh_del
  change the map by one entry. The laws are those of the overwriting store.
\<close>

section \<open>Flags\<close>

definition flags_for :: "nat \<Rightarrow> u32 list \<Rightarrow> bool" where
  "flags_for n F \<longleftrightarrow> (\<forall>i<n. i div 16 < length F)"

lemma flag_bit_index: "2 * (i mod 16) + 1 < (32 :: nat)" "2 * (i mod 16) < (32 :: nat)" for i :: nat
proof -
  have "i mod 16 < 16" by simp
  then show "2 * (i mod 16) + 1 < 32" "2 * (i mod 16) < 32" by linarith+
qed

lemma ac_isempty_bit: "ac_isempty F i \<longleftrightarrow> bit (F ! (i div 16)) (2 * (i mod 16) + 1)"
  using flag_bit_index [of i]
  by (simp add: ac_isempty_def word_eq_0_bits bit_simps del: div_mult_self1 cong: conj_cong)

lemma ac_isdel_bit: "ac_isdel F i \<longleftrightarrow> bit (F ! (i div 16)) (2 * (i mod 16))"
  using flag_bit_index [of i]
  by (simp add: ac_isdel_def word_eq_0_bits bit_simps cong: conj_cong)

lemma ac_iseither_bits: "ac_iseither F i \<longleftrightarrow> ac_isempty F i \<or> ac_isdel F i"
proof -
  have "ac_iseither F i \<longleftrightarrow> (\<exists>k<2. bit (F ! (i div 16)) (2 * (i mod 16) + k))"
    using flag_bit_index [of i]
    by (auto simp: ac_iseither_def word_eq_0_bits bit_simps)
  also have "\<dots> \<longleftrightarrow> ac_isempty F i \<or> ac_isdel F i"
    unfolding ac_isempty_bit ac_isdel_bit by (auto simp: less_2_cases_iff)
  finally show ?thesis .
qed

lemma same_flag_bit:
  "i div 16 = j div 16 \<Longrightarrow> i mod 16 = j mod 16 \<Longrightarrow> i = j" for i j :: nat
  by (metis div_mult_mod_eq)

lemma flag_masks:
  fixes m :: nat
  assumes "m < 16"
  shows "bit (push_bit (2 * m) 1 :: u32) k \<longleftrightarrow> k = 2 * m"
    and "bit (2 ^ (2 * m) :: u32) k \<longleftrightarrow> k = 2 * m"
    and "bit (push_bit (2 * m) 2 :: u32) k \<longleftrightarrow> k = 2 * m + 1"
    and "bit (push_bit (2 * m) 3 :: u32) k \<longleftrightarrow> k = 2 * m \<or> k = 2 * m + 1"
  using assms by (auto simp: bit_simps)

lemma flag_positions:
  fixes m n :: nat
  shows "2 * m = 2 * n \<longleftrightarrow> m = n" and "2 * m + 1 = 2 * n + 1 \<longleftrightarrow> m = n"
    and "Suc (2 * m) \<noteq> 2 * n" and "2 * m \<noteq> Suc (2 * n)"
  by presburger+

lemma flag_after_set:
  assumes "i div 16 < length F"
  shows "ac_isempty (F[i div 16 := F ! (i div 16) OR mk]) j \<longleftrightarrow>
      ac_isempty F j \<or> j div 16 = i div 16 \<and> bit mk (2 * (j mod 16) + 1)"
    and "ac_isdel (F[i div 16 := F ! (i div 16) OR mk]) j \<longleftrightarrow>
      ac_isdel F j \<or> j div 16 = i div 16 \<and> bit mk (2 * (j mod 16))"
    and "ac_isempty (F[i div 16 := F ! (i div 16) AND NOT mk]) j \<longleftrightarrow>
      ac_isempty F j \<and> \<not> (j div 16 = i div 16 \<and> bit mk (2 * (j mod 16) + 1))"
    and "ac_isdel (F[i div 16 := F ! (i div 16) AND NOT mk]) j \<longleftrightarrow>
      ac_isdel F j \<and> \<not> (j div 16 = i div 16 \<and> bit mk (2 * (j mod 16)))"
  using assms flag_bit_index [of j]
  by (auto simp: ac_isempty_bit ac_isdel_bit nth_list_update bit_or_iff bit_and_iff bit_not_iff)

lemma same_flag: "j div 16 = i div 16 \<and> j mod 16 = i mod 16 \<longleftrightarrow> j = i" for i j :: nat
  by (metis div_mult_mod_eq)

lemma flags_set:
  assumes "i div 16 < length F"
  shows "ac_isempty (ac_set_isempty_false i F) j \<longleftrightarrow> ac_isempty F j \<and> j \<noteq> i"
    and "ac_isdel (ac_set_isempty_false i F) j \<longleftrightarrow> ac_isdel F j"
    and "ac_isempty (ac_set_isboth_false i F) j \<longleftrightarrow> ac_isempty F j \<and> j \<noteq> i"
    and "ac_isdel (ac_set_isboth_false i F) j \<longleftrightarrow> ac_isdel F j \<and> j \<noteq> i"
    and "ac_isempty (ac_set_isdel_true i F) j \<longleftrightarrow> ac_isempty F j"
    and "ac_isdel (ac_set_isdel_true i F) j \<longleftrightarrow> ac_isdel F j \<or> j = i"
  unfolding ac_set_isempty_false_def ac_set_isboth_false_def ac_set_isdel_true_def
    flag_after_set [OF assms]
  using same_flag [of j i] by (auto simp: flag_masks flag_positions)

lemma length_flags_set [simp]:
  "length (ac_set_isempty_false i F) = length F" "length (ac_set_isboth_false i F) = length F"
  "length (ac_set_isdel_true i F) = length F"
  by (simp_all add: ac_set_isempty_false_def ac_set_isboth_false_def ac_set_isdel_true_def)

lemma memset_flags:
  fixes m :: nat
  assumes "m < 16"
  shows "bit (0xaaaaaaaa :: u32) (2 * m + 1) \<and> \<not> bit (0xaaaaaaaa :: u32) (2 * m)"
proof -
  have all: "\<forall>m\<in>set [0..<16]. bit (0xaaaaaaaa :: u32) (2 * m + 1) \<and> \<not> bit (0xaaaaaaaa :: u32) (2 * m)"
    by code_simp
  have "m \<in> set [0..<16]" using assms by simp
  then show ?thesis by (rule all [THEN bspec])
qed

lemma bucket_word:
  assumes "i < 2 ^ m"
  shows "i div 16 < ac_fsize (2 ^ m)"
proof (cases "m < 4")
  case True
  have "2 ^ m < (2 :: nat) ^ 4" by (rule power_strict_increasing) (use True in simp_all)
  with assms show ?thesis by (simp add: ac_fsize_def)
next
  case False
  then have eq: "(2 :: nat) ^ m = 2 ^ (m - 4) * 16"
    using power_add [of "2 :: nat" "m - 4" 4] by simp
  moreover have "\<not> 2 ^ (m - 4) * 16 < (16 :: nat)" by simp
  ultimately show ?thesis using assms by (simp add: ac_fsize_def less_mult_imp_div_less)
qed

lemma all_empty:
  assumes "i < 2 ^ m"
  shows "ac_isempty (all_empty_flags (2 ^ m)) i" and "\<not> ac_isdel (all_empty_flags (2 ^ m)) i"
  using bucket_word [OF assms] memset_flags [of "i mod 16"]
  by (simp_all add: ac_isempty_bit ac_isdel_bit all_empty_flags_def)

section \<open>Triangular probing\<close>

definition tri :: "nat \<Rightarrow> nat" where
  "tri s = s * (s + 1) div 2"

lemma tri_simps [simp]: "tri 0 = 0" "tri (Suc s) = tri s + Suc s"
  by (simp_all add: tri_def)

lemma two_tri: "2 * tri s = s * (s + 1)"
  by (induction s) simp_all

definition probe :: "nat \<Rightarrow> nat \<Rightarrow> nat \<Rightarrow> nat" where
  "probe n h s = (h + tri s) mod n"

lemma mask_mod: "a AND (2 ^ m - 1) = a mod 2 ^ m" for a :: nat
  by (metis take_bit_eq_mod take_bit_eq_mask mask_eq_exp_minus_1)

lemma probe_0: "h AND (2 ^ m - 1) = probe (2 ^ m) h 0"
  unfolding mask_mod by (simp add: probe_def)

lemma probe_Suc: "(probe (2 ^ m) h s + Suc s) AND (2 ^ m - 1) = probe (2 ^ m) h (Suc s)"
  unfolding mask_mod probe_def mod_add_left_eq by (simp add: ac_simps)

lemma probe_less [simp]: "0 < n \<Longrightarrow> probe n h s < n"
  by (simp add: probe_def)

text \<open>Within the first \<open>2 ^ m\<close> steps no bucket is visited twice.\<close>

lemma tri_distinct:
  assumes "s < t" and "t < 2 ^ m"
  shows "tri s mod 2 ^ m \<noteq> tri t mod 2 ^ m"
proof
  assume "tri s mod 2 ^ m = tri t mod 2 ^ m"
  then have "int (tri t) mod 2 ^ m = int (tri s) mod 2 ^ m"
    by (metis of_nat_mod of_nat_numeral of_nat_power)
  then have "(2 :: int) ^ m dvd int (tri t) - int (tri s)"
    by (simp add: mod_eq_dvd_iff)
  then have "(2 :: int) * 2 ^ m dvd 2 * (int (tri t) - int (tri s))"
    by (rule mult_dvd_mono [OF dvd_refl])
  moreover have "2 * (int (tri t) - int (tri s)) = (int t - int s) * (int t + int s + 1)"
    using two_tri [of s, THEN arg_cong, of int] two_tri [of t, THEN arg_cong, of int]
    by (simp add: algebra_simps)
  ultimately have dvd: "(2 :: int) ^ Suc m dvd (int t - int s) * (int t + int s + 1)"
    by simp
  have "odd (int t - int s) \<or> odd (int t + int s + 1)" by presburger
  then have "(2 :: int) ^ Suc m dvd int t - int s \<or> (2 :: int) ^ Suc m dvd int t + int s + 1"
    using dvd by (metis coprime_dvd_mult_left_iff coprime_dvd_mult_right_iff coprime_left_2_iff_odd
        coprime_power_left_iff zero_less_Suc)
  moreover have "0 < int t - int s" "0 < int t + int s + 1" using assms by simp_all
  moreover have "int t < 2 ^ m" using assms by (metis of_nat_less_iff of_nat_numeral of_nat_power)
  then have "int t - int s < 2 ^ Suc m \<and> int t + int s + 1 < 2 ^ Suc m"
    using assms(1) unfolding power_Suc by linarith
  ultimately show False using zdvd_not_zless by metis
qed

lemma nat_mod_cancel:
  "(h + a) mod n = (h + b) mod n \<longleftrightarrow> a mod n = b mod n" for h a b n :: nat
proof -
  have "(h + a) mod n = (h + b) mod n \<longleftrightarrow> (int h + int a) mod int n = (int h + int b) mod int n"
    by (metis of_nat_add of_nat_eq_iff of_nat_mod)
  also have "\<dots> \<longleftrightarrow> int a mod int n = int b mod int n"
    by (simp add: mod_eq_dvd_iff)
  also have "\<dots> \<longleftrightarrow> a mod n = b mod n"
    by (metis of_nat_eq_iff of_nat_mod)
  finally show ?thesis .
qed

lemma probe_distinct:
  assumes "s < 2 ^ m" and "t < 2 ^ m" and "probe (2 ^ m) h s = probe (2 ^ m) h t"
  shows "s = t"
proof (rule ccontr)
  assume "s \<noteq> t"
  moreover have "tri s mod 2 ^ m = tri t mod 2 ^ m"
    using assms(3) unfolding probe_def by (simp only: nat_mod_cancel)
  ultimately show False using tri_distinct assms(1,2) by (metis nat_neq_iff)
qed

lemma probe_onto:
  assumes "i < 2 ^ m"
  shows "\<exists>s<2 ^ m. probe (2 ^ m) h s = i"
proof -
  have "inj_on (probe (2 ^ m) h) {..<2 ^ m}"
    by (auto simp: inj_on_def intro: probe_distinct)
  then have "card (probe (2 ^ m) h ` {..<2 ^ m}) = card {..<2 ^ m :: nat}"
    by (simp add: card_image)
  moreover have "probe (2 ^ m) h ` {..<2 ^ m} \<subseteq> {..<2 ^ m}" by auto
  ultimately have "probe (2 ^ m) h ` {..<2 ^ m} = {..<2 ^ m}"
    by (simp add: card_subset_eq)
  with assms show ?thesis by (metis imageE lessThan_iff)
qed

section \<open>The invariant and the map of a table\<close>

definition home :: "u64 \<Rightarrow> nat" where
  "home key = unat (kh_int64_hash_func key)"

definition live :: "'v kh_table \<Rightarrow> nat set" where
  "live h = {i. i < kh_n_buckets h \<and> \<not> ac_iseither (kh_flags h) i}"

definition occupied :: "'v kh_table \<Rightarrow> nat set" where
  "occupied h = {i. i < kh_n_buckets h \<and> \<not> ac_isempty (kh_flags h) i}"

text \<open>The search for a key comes to bucket \<open>i\<close> before any empty bucket.\<close>

definition reachable :: "u32 list \<Rightarrow> nat \<Rightarrow> u64 \<Rightarrow> nat \<Rightarrow> bool" where
  "reachable F n key i \<longleftrightarrow> (\<exists>s<n. i = probe n (home key) s
     \<and> (\<forall>t < s. \<not> ac_isempty F (probe n (home key) t)))"

definition kh_built :: "nat \<Rightarrow> 'v kh_table \<Rightarrow> bool" where
  "kh_built m h \<longleftrightarrow> 2 \<le> m \<and> kh_n_buckets h = 2 ^ m
     \<and> length (kh_flags h) = ac_fsize (2 ^ m) \<and> length (kh_keys h) = 2 ^ m \<and> length (kh_vals h) = 2 ^ m
     \<and> kh_upper_bound h = hash_upper (2 ^ m)
     \<and> kh_size h = card (live h) \<and> kh_n_occupied h = card (occupied h)
     \<and> kh_n_occupied h \<le> kh_upper_bound h
     \<and> inj_on ((!) (kh_keys h)) (live h)
     \<and> (\<forall>i\<in>live h. reachable (kh_flags h) (2 ^ m) (kh_keys h ! i) i)"

definition kh_inv :: "'v kh_table \<Rightarrow> bool" where
  "kh_inv h \<longleftrightarrow> h = kh_init \<or> (\<exists>m. kh_built m h)"

definition kh_lookup :: "'v kh_table \<Rightarrow> u64 \<Rightarrow> 'v option" where
  "kh_lookup h key = map_option ((!) (kh_vals h))
     (find (\<lambda>i. \<not> ac_iseither (kh_flags h) i \<and> kh_keys h ! i = key) [0..<kh_n_buckets h])"

lemma live_occupied: "live h \<subseteq> occupied h"
  by (auto simp: live_def occupied_def ac_iseither_bits)

lemma finite_occupied [simp]: "finite (occupied h)"
  by (simp add: occupied_def)

lemma finite_live [simp]: "finite (live h)"
  by (simp add: live_def)

lemma hash_upper_less: "2 \<le> m \<Longrightarrow> hash_upper (2 ^ m) < 2 ^ m"
proof -
  assume "2 \<le> m"
  then have "(2 :: nat) ^ 2 \<le> 2 ^ m" by (intro power_increasing) simp_all
  then show ?thesis by (simp add: hash_upper_def)
qed

lemma kh_lookup_init [simp]: "kh_lookup kh_init = (\<lambda>_. None)"
  by (simp add: kh_lookup_def kh_init_def fun_eq_iff)

lemma live_init [simp]: "live kh_init = {}"
  by (simp add: live_def kh_init_def)

lemma kh_inv_inj: "kh_inv h \<Longrightarrow> inj_on ((!) (kh_keys h)) (live h)"
  by (auto simp: kh_inv_def kh_built_def)

lemma find_upt_SomeD: "find P [0..<n] = Some i \<Longrightarrow> i < n \<and> P i"
  by (auto simp: find_Some_iff)

lemma kh_lookup_None:
  "kh_lookup h key = None \<longleftrightarrow> (\<forall>i\<in>live h. kh_keys h ! i \<noteq> key)"
  by (auto simp: kh_lookup_def find_None_iff live_def)

lemma kh_lookup_Some:
  assumes "inj_on ((!) (kh_keys h)) (live h)"
  shows "kh_lookup h key = Some v \<longleftrightarrow> (\<exists>i\<in>live h. kh_keys h ! i = key \<and> kh_vals h ! i = v)"
proof
  assume "kh_lookup h key = Some v"
  then show "\<exists>i\<in>live h. kh_keys h ! i = key \<and> kh_vals h ! i = v"
    by (auto simp: kh_lookup_def live_def dest: find_upt_SomeD)
next
  assume "\<exists>i\<in>live h. kh_keys h ! i = key \<and> kh_vals h ! i = v"
  then obtain i where i: "i \<in> live h" "kh_keys h ! i = key" "kh_vals h ! i = v" by auto
  then obtain w where w: "kh_lookup h key = Some w"
    using kh_lookup_None [of h key] by blast
  then obtain j where j: "j \<in> live h" "kh_keys h ! j = key" "kh_vals h ! j = w"
    by (auto simp: kh_lookup_def live_def dest: find_upt_SomeD)
  with i have "j = i" using assms by (auto simp: inj_on_def)
  with i j w show "kh_lookup h key = Some v" by simp
qed

section \<open>Searches return\<close>

definition passes :: "'v kh_table \<Rightarrow> u64 \<Rightarrow> nat \<Rightarrow> bool" where
  "passes h key i \<longleftrightarrow> \<not> ac_isempty (kh_flags h) i \<and> (ac_isdel (kh_flags h) i \<or> kh_keys h ! i \<noteq> key)"

lemma search_stops:
  assumes "kh_built m h"
  shows "\<exists>d<2 ^ m. \<not> passes h key (probe (2 ^ m) a d) \<and> (\<forall>t<d. passes h key (probe (2 ^ m) a t))"
proof -
  have "card (occupied h) < card {..<2 ^ m :: nat}"
    using assms hash_upper_less [of m] by (simp add: kh_built_def)
  moreover have "occupied h \<subseteq> {..<2 ^ m}"
    using assms by (auto simp: occupied_def kh_built_def)
  ultimately have "\<exists>i<2 ^ m. i \<notin> occupied h"
    by (metis finite_lessThan lessThan_iff less_le_not_le card_mono finite_occupied subsetI)
  then obtain i where i: "i < 2 ^ m" "ac_isempty (kh_flags h) i"
    using assms by (auto simp: occupied_def kh_built_def)
  then obtain s where "s < 2 ^ m" "\<not> passes h key (probe (2 ^ m) a s)"
    using probe_onto [of i m a] by (auto simp: passes_def)
  then show ?thesis
    using exists_least_iff [of "\<lambda>s. s < 2 ^ m \<and> \<not> passes h key (probe (2 ^ m) a s)"]
    by (meson less_trans)
qed

lemma probe_Suc_simp:
  "Suc (probe (2 ^ m) h s + s) AND (2 ^ m - Suc 0) = probe (2 ^ m) h (Suc s)"
  using probe_Suc [of m h s] by simp

lemma probe_not_first:
  "0 < s \<Longrightarrow> s < 2 ^ m \<Longrightarrow> probe (2 ^ m) a s \<noteq> probe (2 ^ m) a 0"
  using probe_distinct [of s m 0 a] by auto

lemma kh_get_loop_walk:
  assumes "kh_n_buckets h = 2 ^ m" and "\<forall>t<d. passes h key (probe (2 ^ m) a (s + t))"
    and "\<not> passes h key (probe (2 ^ m) a (s + d))" and "s + d < 2 ^ m" and "d < fuel"
  shows "kh_get_loop fuel h key (probe (2 ^ m) a 0) (probe (2 ^ m) a s) s
     = Some (if ac_iseither (kh_flags h) (probe (2 ^ m) a (s + d)) then 2 ^ m
             else probe (2 ^ m) a (s + d))"
  using assms
proof (induction d arbitrary: s fuel)
  case 0
  then obtain f where "fuel = Suc f" by (cases fuel) auto
  with 0 show ?case by (auto simp: passes_def)
next
  case (Suc d)
  then obtain f where f: "fuel = Suc f" by (cases fuel) auto
  have go: "passes h key (probe (2 ^ m) a s)" using Suc.prems(2) by auto
  have "kh_get_loop f h key (probe (2 ^ m) a 0) (probe (2 ^ m) a (Suc s)) (Suc s)
     = Some (if ac_iseither (kh_flags h) (probe (2 ^ m) a (Suc s + d)) then 2 ^ m
             else probe (2 ^ m) a (Suc s + d))"
    using Suc.prems f by (intro Suc.IH) auto
  moreover have "probe (2 ^ m) a (Suc s) \<noteq> probe (2 ^ m) a 0"
    using Suc.prems(4) by (intro probe_not_first) auto
  ultimately show ?case
    using go Suc.prems(1) by (simp add: f passes_def Let_def probe_Suc_simp)
qed

text \<open>Where the search for a key stops: at its bucket, or at an empty one when it is not stored.\<close>

lemma search_result:
  assumes built: "kh_built m h" and stop: "\<not> passes h key (probe (2 ^ m) (home key) d)"
    and before: "\<forall>t<d. passes h key (probe (2 ^ m) (home key) t)"
  shows "i \<in> live h \<Longrightarrow> kh_keys h ! i = key \<Longrightarrow> probe (2 ^ m) (home key) d = i"
    and "\<forall>i\<in>live h. kh_keys h ! i \<noteq> key \<Longrightarrow> ac_isempty (kh_flags h) (probe (2 ^ m) (home key) d)"
proof -
  let ?P = "probe (2 ^ m) (home key)"
  have live: "?P t \<in> live h \<longleftrightarrow> \<not> ac_iseither (kh_flags h) (?P t)" for t
    using built by (simp add: live_def kh_built_def)
  show "?P d = i" if i: "i \<in> live h" "kh_keys h ! i = key"
  proof -
    have "reachable (kh_flags h) (2 ^ m) key i" using built i by (auto simp: kh_built_def)
    then obtain s where s: "i = ?P s" "\<forall>t < s. \<not> ac_isempty (kh_flags h) (?P t)"
      by (auto simp: reachable_def)
    have stops: "\<not> passes h key (?P s)"
      using i s(1) by (auto simp: passes_def live_def ac_iseither_bits)
    have "d \<le> s" using before stops by (meson not_le)
    moreover have "\<not> ac_isempty (kh_flags h) (?P s)"
      using i s(1) by (auto simp: live_def ac_iseither_bits)
    ultimately have "\<not> ac_isempty (kh_flags h) (?P d)"
      using s(2) by (cases "d = s") auto
    then have "?P d \<in> live h \<and> kh_keys h ! ?P d = key"
      using stop by (auto simp: passes_def live ac_iseither_bits)
    then show ?thesis using built i by (auto simp: kh_built_def inj_on_def)
  qed
  show "ac_isempty (kh_flags h) (?P d)" if "\<forall>i\<in>live h. kh_keys h ! i \<noteq> key"
    using that stop live [of d] by (auto simp: passes_def ac_iseither_bits)
qed

lemma kh_get_run:
  assumes built: "kh_built m h"
  shows "\<exists>d<2 ^ m. \<not> passes h key (probe (2 ^ m) (home key) d)
     \<and> (\<forall>t<d. passes h key (probe (2 ^ m) (home key) t))
     \<and> kh_get h key = Some (if ac_iseither (kh_flags h) (probe (2 ^ m) (home key) d) then 2 ^ m
                            else probe (2 ^ m) (home key) d)"
proof -
  have n: "kh_n_buckets h = 2 ^ m" using built by (simp add: kh_built_def)
  from search_stops [OF built, of key "home key"] obtain d where
    d: "d < 2 ^ m" "\<not> passes h key (probe (2 ^ m) (home key) d)"
    "\<forall>t<d. passes h key (probe (2 ^ m) (home key) t)" by auto
  have "kh_get h key = kh_get_loop (2 * 2 ^ m) h key (probe (2 ^ m) (home key) 0)
      (probe (2 ^ m) (home key) 0) 0"
    unfolding kh_get_def n Let_def home_def probe_0 by simp
  with kh_get_loop_walk [of h m d key "home key" 0 "2 * 2 ^ m"] n d show ?thesis by auto
qed

lemma kh_get_found:
  assumes "kh_inv h" and i: "i \<in> live h" "kh_keys h ! i = key"
  shows "kh_get h key = Some i"
proof -
  obtain m where built: "kh_built m h" using assms by (auto simp: kh_inv_def)
  from kh_get_run [OF built, of key] obtain d where
    d: "\<not> passes h key (probe (2 ^ m) (home key) d)"
      "\<forall>t<d. passes h key (probe (2 ^ m) (home key) t)"
    and get: "kh_get h key = Some (if ac_iseither (kh_flags h) (probe (2 ^ m) (home key) d) then 2 ^ m
                            else probe (2 ^ m) (home key) d)" by auto
  have "probe (2 ^ m) (home key) d = i" by (rule search_result(1) [OF built d i])
  with get i show ?thesis by (simp add: live_def)
qed

lemma kh_get_missing:
  assumes "kh_inv h" and missing: "\<forall>i\<in>live h. kh_keys h ! i \<noteq> key"
  shows "kh_get h key = Some (kh_n_buckets h)"
proof (cases "h = kh_init")
  case True
  then show ?thesis by (simp add: kh_get_def kh_init_def)
next
  case False
  then obtain m where built: "kh_built m h" using assms by (auto simp: kh_inv_def)
  from kh_get_run [OF built, of key] search_result(2) [OF built _ _ missing] built
  show ?thesis by (auto simp: ac_iseither_bits kh_built_def)
qed

section \<open>The bucket for a new key\<close>

definition last_deleted :: "'v kh_table \<Rightarrow> (nat \<Rightarrow> nat) \<Rightarrow> nat \<Rightarrow> nat \<Rightarrow> nat \<Rightarrow> nat" where
  "last_deleted h P s d site =
     fold (\<lambda>t site. if ac_isdel (kh_flags h) (P t) then P t else site) [s..<s + d] site"

lemma last_deleted_cases:
  "last_deleted h P s d site = site
   \<or> (\<exists>t. s \<le> t \<and> t < s + d \<and> ac_isdel (kh_flags h) (P t) \<and> last_deleted h P s d site = P t)"
  unfolding last_deleted_def
proof (induction d)
  case (Suc d)
  show ?case
  proof (cases "ac_isdel (kh_flags h) (P (s + d))")
    case True
    then show ?thesis by (auto intro!: exI [of _ "s + d"])
  next
    case False
    with Suc show ?thesis by (auto simp: less_Suc_eq)
  qed
qed simp

lemma last_deleted_Suc:
  "last_deleted h P s (Suc d) site =
     last_deleted h P (Suc s) d (if ac_isdel (kh_flags h) (P s) then P s else site)"
  by (simp add: last_deleted_def upt_conv_Cons del: upt_Suc)

lemma kh_put_loop_walk:
  assumes "kh_n_buckets h = 2 ^ m" and "\<forall>t<d. passes h key (probe (2 ^ m) a (s + t))"
    and "\<not> passes h key (probe (2 ^ m) a (s + d))" and "s + d < 2 ^ m" and "d < fuel"
  shows "kh_put_loop fuel h key (probe (2 ^ m) a 0) (probe (2 ^ m) a s) s site
     = Some (let x = last_deleted h (probe (2 ^ m) a) s d site
             in if ac_isempty (kh_flags h) (probe (2 ^ m) a (s + d)) \<and> x \<noteq> 2 ^ m then x
                else probe (2 ^ m) a (s + d))"
  using assms
proof (induction d arbitrary: s fuel site)
  case 0
  then obtain f where "fuel = Suc f" by (cases fuel) auto
  with 0 show ?case by (auto simp: passes_def last_deleted_def Let_def)
next
  case (Suc d)
  then obtain f where f: "fuel = Suc f" by (cases fuel) auto
  have go: "passes h key (probe (2 ^ m) a s)" using Suc.prems(2) by auto
  let ?site = "if ac_isdel (kh_flags h) (probe (2 ^ m) a s) then probe (2 ^ m) a s else site"
  have "probe (2 ^ m) a (Suc s) \<noteq> probe (2 ^ m) a 0"
    using Suc.prems(4) by (intro probe_not_first) auto
  with go Suc.prems(1) have "kh_put_loop fuel h key (probe (2 ^ m) a 0) (probe (2 ^ m) a s) s site =
      kh_put_loop f h key (probe (2 ^ m) a 0) (probe (2 ^ m) a (Suc s)) (Suc s) ?site"
    unfolding f kh_put_loop.simps(2) passes_def Let_def by (simp only: probe_Suc simp_thms if_True if_False)
  also have "\<dots> = Some (let x = last_deleted h (probe (2 ^ m) a) (Suc s) d ?site
             in if ac_isempty (kh_flags h) (probe (2 ^ m) a (Suc s + d)) \<and> x \<noteq> 2 ^ m then x
                else probe (2 ^ m) a (Suc s + d))"
    using Suc.prems f by (intro Suc.IH) auto
  finally show ?case by (simp only: last_deleted_Suc add_Suc add_Suc_right)
qed

lemma kh_put_bucket_cases:
  assumes built: "kh_built m h"
  shows "\<exists>x. kh_put_bucket h key = Some x \<and> x < 2 ^ m
     \<and> (if \<exists>i\<in>live h. kh_keys h ! i = key then x \<in> live h \<and> kh_keys h ! x = key
        else ac_iseither (kh_flags h) x \<and> reachable (kh_flags h) (2 ^ m) key x)"
proof -
  let ?P = "probe (2 ^ m) (home key)"
  have n: "kh_n_buckets h = 2 ^ m" using built by (simp add: kh_built_def)
  from search_stops [OF built, of key "home key"] obtain d where
    d: "d < 2 ^ m" "\<not> passes h key (?P d)" "\<forall>t<d. passes h key (?P t)" by auto
  have shortcut: "d = 0" if "ac_isempty (kh_flags h) (?P 0)"
    using that d(3) by (auto simp: passes_def)
  define x0 where "x0 = last_deleted h ?P 0 d (2 ^ m)"
  define x where "x = (if ac_isempty (kh_flags h) (?P d) \<and> x0 \<noteq> 2 ^ m then x0 else ?P d)"
  have put: "kh_put_bucket h key = Some x"
    using kh_put_loop_walk [of h m d key "home key" 0 "2 * 2 ^ m" "2 ^ m"] n d shortcut
    unfolding kh_put_bucket_def n Let_def home_def [symmetric] probe_0
    by (auto simp: x_def x0_def last_deleted_def)
  have walked: "\<not> ac_isempty (kh_flags h) (?P t)" if "t < d" for t
    using d(3) that by (auto simp: passes_def)
  have x: "\<exists>s\<le>d. x = ?P s \<and> (s = d \<or> ac_isempty (kh_flags h) (?P d) \<and> ac_isdel (kh_flags h) (?P s))"
  proof (cases "ac_isempty (kh_flags h) (?P d) \<and> x0 \<noteq> 2 ^ m")
    case True
    then obtain t where "t < d" "ac_isdel (kh_flags h) (?P t)" "x0 = ?P t"
      using last_deleted_cases [of h ?P 0 d "2 ^ m"] by (auto simp: x0_def)
    with True show ?thesis by (intro exI [of _ t]) (auto simp: x_def)
  next
    case False
    then show ?thesis by (auto simp: x_def)
  qed
  show ?thesis
  proof (cases "\<exists>i\<in>live h. kh_keys h ! i = key")
    case True
    then obtain i where i: "i \<in> live h" "kh_keys h ! i = key" by auto
    have "?P d = i" by (rule search_result(1) [OF built d(2,3) i])
    moreover have "\<not> ac_isempty (kh_flags h) i" using i by (simp add: live_def ac_iseither_bits)
    ultimately have "x = i" by (simp add: x_def)
    with i put n show ?thesis by (auto simp: live_def)
  next
    case False
    then have "ac_isempty (kh_flags h) (?P d)"
      using search_result(2) [OF built d(2,3)] by auto
    moreover obtain s where "s \<le> d" "x = ?P s" "s = d \<or> ac_isdel (kh_flags h) (?P s)"
      using x by auto
    ultimately show ?thesis
      using put False d(1) walked
      by (auto simp: ac_iseither_bits reachable_def intro!: exI [of _ s])
  qed
qed

section \<open>Writing to a bucket\<close>

lemma option_eqI: "(\<And>v. a = Some v \<longleftrightarrow> b = Some v) \<Longrightarrow> a = b"
  by (metis option.exhaust option.distinct(1))

lemma live_less: "kh_built m h \<Longrightarrow> i \<in> live h \<Longrightarrow> i < 2 ^ m"
  by (simp add: live_def kh_built_def)

lemma reachable_mono:
  assumes "reachable F n key i" and "\<And>j. ac_isempty G j \<Longrightarrow> ac_isempty F j"
  shows "reachable G n key i"
  using assms unfolding reachable_def by blast

lemma flag_word: "kh_built m h \<Longrightarrow> x < 2 ^ m \<Longrightarrow> x div 16 < length (kh_flags h)"
  using bucket_word [of x m] by (simp add: kh_built_def)

definition fill_bucket :: "nat \<Rightarrow> u64 \<Rightarrow> 'v \<Rightarrow> 'v kh_table \<Rightarrow> 'v kh_table" where
  "fill_bucket x key v h = h\<lparr>kh_keys := (kh_keys h)[x := key], kh_vals := (kh_vals h)[x := v],
     kh_flags := ac_set_isboth_false x (kh_flags h), kh_size := Suc (kh_size h),
     kh_n_occupied := (if ac_isempty (kh_flags h) x then Suc (kh_n_occupied h) else kh_n_occupied h)\<rparr>"

lemma fill_bucket_sets:
  assumes "kh_built m h" and "x < 2 ^ m"
  shows "live (fill_bucket x key v h) = insert x (live h)"
    and "occupied (fill_bucket x key v h) = insert x (occupied h)"
  using assms flags_set [OF flag_word [OF assms]]
  by (auto simp: live_def occupied_def fill_bucket_def ac_iseither_bits kh_built_def)

lemma fill_bucket_built:
  assumes built: "kh_built m h" and x: "x < 2 ^ m" and free: "ac_iseither (kh_flags h) x"
    and path: "reachable (kh_flags h) (2 ^ m) key x" and room: "kh_n_occupied h < kh_upper_bound h"
    and absent: "\<forall>i\<in>live h. kh_keys h ! i \<noteq> key"
  shows "kh_built m (fill_bucket x key v h)"
proof -
  let ?h = "fill_bucket x key v h"
  note sets = fill_bucket_sets [OF built x, of key v]
  have x_live: "x \<notin> live h" using free by (simp add: live_def)
  have x_occupied: "x \<in> occupied h \<longleftrightarrow> \<not> ac_isempty (kh_flags h) x"
    using built x by (simp add: occupied_def kh_built_def)
  have lens: "length (kh_keys h) = 2 ^ m" using built by (simp add: kh_built_def)
  have keys: "kh_keys ?h ! i = (if i = x then key else kh_keys h ! i)" if "i < 2 ^ m" for i
    using x that lens by (simp add: fill_bucket_def)
  have empty: "ac_isempty (kh_flags ?h) j \<Longrightarrow> ac_isempty (kh_flags h) j" for j
    using flags_set [OF flag_word [OF built x]] by (simp add: fill_bucket_def)
  have inj: "inj_on ((!) (kh_keys ?h)) (live ?h)"
    using built absent x_live live_less [OF built] x
    by (auto simp: sets inj_on_def keys kh_built_def)
  have "reachable (kh_flags ?h) (2 ^ m) (kh_keys ?h ! i) i" if "i \<in> live ?h" for i
  proof -
    have "reachable (kh_flags h) (2 ^ m) (kh_keys ?h ! i) i"
      using that built path x live_less [OF built] by (auto simp: sets keys kh_built_def)
    then show ?thesis using empty by (rule reachable_mono)
  qed
  with built inj x_live x_occupied room show ?thesis
    unfolding kh_built_def sets by (auto simp: fill_bucket_def insert_absorb)
qed

lemma fill_bucket_lookup:
  assumes built: "kh_built m h" and x: "x < 2 ^ m" and free: "ac_iseither (kh_flags h) x"
    and inj: "inj_on ((!) (kh_keys (fill_bucket x key v h))) (live (fill_bucket x key v h))"
    and absent: "\<forall>i\<in>live h. kh_keys h ! i \<noteq> key"
  shows "kh_lookup (fill_bucket x key v h) = (kh_lookup h)(key \<mapsto> v)"
proof (rule ext, rule option_eqI)
  fix k w
  have x_live: "x \<notin> live h" using free by (simp add: live_def)
  have lens: "length (kh_keys h) = 2 ^ m" "length (kh_vals h) = 2 ^ m"
    using built by (simp_all add: kh_built_def)
  have at_x: "kh_keys (fill_bucket x key v h) ! x = key" "kh_vals (fill_bucket x key v h) ! x = v"
    using lens x by (simp_all add: fill_bucket_def)
  have others: "kh_keys (fill_bucket x key v h) ! i = kh_keys h ! i"
    "kh_vals (fill_bucket x key v h) ! i = kh_vals h ! i" if "i \<in> live h" for i
  proof -
    have "i \<noteq> x" using that x_live by auto
    then show "kh_keys (fill_bucket x key v h) ! i = kh_keys h ! i"
      "kh_vals (fill_bucket x key v h) ! i = kh_vals h ! i"
      by (simp_all add: fill_bucket_def)
  qed
  have old: "inj_on ((!) (kh_keys h)) (live h)" using built by (simp add: kh_built_def)
  show "kh_lookup (fill_bucket x key v h) k = Some w \<longleftrightarrow> ((kh_lookup h)(key \<mapsto> v)) k = Some w"
    unfolding kh_lookup_Some [OF inj] fun_upd_apply fill_bucket_sets [OF built x]
    using absent by (auto simp: kh_lookup_Some [OF old] at_x others)
qed

lemma set_value_live:
  assumes built: "kh_built m h" and x: "x \<in> live h"
  shows "kh_built m (kh_set_value x v h)"
    and "kh_lookup (kh_set_value x v h) = (kh_lookup h)(kh_keys h ! x \<mapsto> v)"
proof -
  have same: "live (kh_set_value x v h) = live h" "occupied (kh_set_value x v h) = occupied h"
    by (simp_all add: live_def occupied_def kh_set_value_def)
  show new: "kh_built m (kh_set_value x v h)"
    using built unfolding kh_built_def same by (simp add: kh_set_value_def)
  have inj: "inj_on ((!) (kh_keys h)) (live h)" using built by (simp add: kh_built_def)
  have inj': "inj_on ((!) (kh_keys (kh_set_value x v h))) (live (kh_set_value x v h))"
    using new by (simp add: kh_built_def)
  have "length (kh_vals h) = 2 ^ m" using built by (simp add: kh_built_def)
  then have vals: "kh_vals (kh_set_value x v h) ! i = (if i = x then v else kh_vals h ! i)"
    if "i \<in> live h" for i
    using live_less [OF built that] by (auto simp: kh_set_value_def)
  have keys: "kh_keys (kh_set_value x v h) = kh_keys h" by (simp add: kh_set_value_def)
  show "kh_lookup (kh_set_value x v h) = (kh_lookup h)(kh_keys h ! x \<mapsto> v)"
  proof (rule ext, rule option_eqI)
    fix k w
    show "kh_lookup (kh_set_value x v h) k = Some w
      \<longleftrightarrow> ((kh_lookup h)(kh_keys h ! x \<mapsto> v)) k = Some w"
      unfolding kh_lookup_Some [OF inj'] same keys using inj x
      by (auto simp: kh_lookup_Some [OF inj] inj_on_def vals)
  qed
qed

lemma del_live:
  assumes built: "kh_built m h" and x: "x \<in> live h"
  shows "kh_built m (kh_del x h)"
    and "kh_lookup (kh_del x h) = (kh_lookup h)(kh_keys h ! x := None)"
proof -
  have less: "x < 2 ^ m" using live_less [OF built x] .
  note flags = flags_set [OF flag_word [OF built less]]
  have del: "kh_del x h = h\<lparr>kh_flags := ac_set_isdel_true x (kh_flags h), kh_size := kh_size h - 1\<rparr>"
    using x by (auto simp: kh_del_def live_def)
  have live: "live (kh_del x h) = live h - {x}" and occ: "occupied (kh_del x h) = occupied h"
    by (auto simp: del live_def occupied_def flags ac_iseither_bits)
  have inj: "inj_on ((!) (kh_keys h)) (live h)" using built by (simp add: kh_built_def)
  have inj': "inj_on ((!) (kh_keys (kh_del x h))) (live (kh_del x h))"
    unfolding live using inj by (auto simp: del inj_on_def)
  have "reachable (kh_flags (kh_del x h)) (2 ^ m) (kh_keys h ! i) i" if "i \<in> live h" for i
  proof (rule reachable_mono)
    show "reachable (kh_flags h) (2 ^ m) (kh_keys h ! i) i"
      using built that by (simp add: kh_built_def)
    show "ac_isempty (kh_flags (kh_del x h)) j \<Longrightarrow> ac_isempty (kh_flags h) j" for j
      by (simp add: del flags)
  qed
  moreover have "card (live h - {x}) = kh_size h - 1"
    using built x by (simp add: kh_built_def)
  moreover have "kh_keys (kh_del x h) = kh_keys h" "kh_vals (kh_del x h) = kh_vals h"
    "kh_n_buckets (kh_del x h) = kh_n_buckets h" "kh_upper_bound (kh_del x h) = kh_upper_bound h"
    "kh_n_occupied (kh_del x h) = kh_n_occupied h" "kh_size (kh_del x h) = kh_size h - 1"
    "length (kh_flags (kh_del x h)) = length (kh_flags h)"
    by (simp_all add: del)
  ultimately show "kh_built m (kh_del x h)"
    using inj' built unfolding kh_built_def live occ by simp
  show "kh_lookup (kh_del x h) = (kh_lookup h)(kh_keys h ! x := None)"
  proof (rule ext, rule option_eqI)
    fix k w
    show "kh_lookup (kh_del x h) k = Some w \<longleftrightarrow> ((kh_lookup h)(kh_keys h ! x := None)) k = Some w"
      unfolding kh_lookup_Some [OF inj'] live using inj x
      by (auto simp: kh_lookup_Some [OF inj] inj_on_def del)
  qed
qed

section \<open>Rehashing keeps the entries\<close>

definition entry :: "u64 list \<Rightarrow> 'v list \<Rightarrow> nat \<Rightarrow> u64 \<times> 'v" where
  "entry K V i = (K ! i, V ! i)"

definition to_move :: "nat \<Rightarrow> 'v rehash_state \<Rightarrow> nat set" where
  "to_move n s = {i. i < n \<and> \<not> ac_iseither (rh_flags s) i}"

definition moved :: "nat \<Rightarrow> 'v rehash_state \<Rightarrow> nat set" where
  "moved m s = {i. i < 2 ^ m \<and> \<not> ac_isempty (rh_new_flags s) i}"

text \<open>
  During the rehash every entry is in a bucket still to be moved or in one already moved, and no
  bucket is both.
\<close>

definition rehash_inv :: "nat \<Rightarrow> nat \<Rightarrow> (u64 \<times> 'v) set \<Rightarrow> 'v rehash_state \<Rightarrow> bool" where
  "rehash_inv n m E s \<longleftrightarrow> n \<le> 2 ^ m \<and> (\<forall>i<n. i div 16 < length (rh_flags s))
     \<and> length (rh_new_flags s) = ac_fsize (2 ^ m)
     \<and> length (rh_keys s) = 2 ^ m \<and> length (rh_vals s) = 2 ^ m
     \<and> (\<forall>i<2 ^ m. \<not> ac_isdel (rh_new_flags s) i)
     \<and> to_move n s \<inter> moved m s = {}
     \<and> inj_on ((!) (rh_keys s)) (to_move n s \<union> moved m s)
     \<and> entry (rh_keys s) (rh_vals s) ` (to_move n s \<union> moved m s) = E
     \<and> (\<forall>i\<in>moved m s. reachable (rh_new_flags s) (2 ^ m) (rh_keys s ! i) i)"

lemma finite_to_move [simp]: "finite (to_move n s)" "finite (moved m s)"
  by (simp_all add: to_move_def moved_def)

lemma rehash_card:
  assumes "rehash_inv n m E s"
  shows "finite E" and "card (moved m s) \<le> card E"
proof -
  let ?U = "to_move n s \<union> moved m s"
  have E: "E = entry (rh_keys s) (rh_vals s) ` ?U" using assms by (simp add: rehash_inv_def)
  have "inj_on (entry (rh_keys s) (rh_vals s)) ?U"
    using assms by (auto simp: rehash_inv_def inj_on_def entry_def)
  then have "card E = card ?U" by (simp add: E card_image)
  then show "card (moved m s) \<le> card E" by (simp add: card_mono)
  show "finite E" by (simp add: E)
qed

lemma find_empty_walk:
  assumes "\<forall>t<d. \<not> ac_isempty G (probe (2 ^ m) a (s + t))"
    and "ac_isempty G (probe (2 ^ m) a (s + d))" and "d < fuel"
  shows "find_empty fuel G (2 ^ m - 1) (probe (2 ^ m) a s) s = Some (probe (2 ^ m) a (s + d))"
  using assms
proof (induction d arbitrary: s fuel)
  case 0
  then obtain f where "fuel = Suc f" by (cases fuel) auto
  with 0 show ?case by simp
next
  case (Suc d)
  then obtain f where f: "fuel = Suc f" by (cases fuel) auto
  have "\<not> ac_isempty G (probe (2 ^ m) a s)" using Suc.prems(1) by auto
  then have "find_empty fuel G (2 ^ m - 1) (probe (2 ^ m) a s) s =
      find_empty f G (2 ^ m - 1) (probe (2 ^ m) a (Suc s)) (Suc s)"
    unfolding f find_empty.simps(2) by (simp only: probe_Suc simp_thms if_True)
  also have "\<dots> = Some (probe (2 ^ m) a (Suc s + d))"
    using Suc.prems f by (intro Suc.IH) auto
  finally show ?case by (simp only: add_Suc add_Suc_right)
qed

lemma find_empty_finds:
  assumes "card {i. i < 2 ^ m \<and> \<not> ac_isempty G i} < 2 ^ m"
  shows "\<exists>i<2 ^ m. find_empty (2 ^ m) G (2 ^ m - 1) (home key AND (2 ^ m - 1)) 0 = Some i
     \<and> ac_isempty G i \<and> reachable G (2 ^ m) key i"
proof -
  let ?P = "probe (2 ^ m) (home key)"
  have "{i. i < 2 ^ m \<and> \<not> ac_isempty G i} \<noteq> {..<2 ^ m}"
    using assms by (metis card_lessThan less_irrefl)
  then obtain i where "i < 2 ^ m" "ac_isempty G i" by auto
  then have "\<exists>d. d < 2 ^ m \<and> ac_isempty G (?P d)" using probe_onto by metis
  then obtain d where d: "d < 2 ^ m" "ac_isempty G (?P d)"
      and least: "\<forall>t<d. \<not> (t < 2 ^ m \<and> ac_isempty G (?P t))"
    using exists_least_iff [of "\<lambda>d. d < 2 ^ m \<and> ac_isempty G (?P d)"] by auto
  from least d(1) have before: "\<forall>t<d. \<not> ac_isempty G (?P t)" by auto
  have "find_empty (2 ^ m) G (2 ^ m - 1) (?P 0) 0 = Some (?P (0 + d))"
    using before d by (intro find_empty_walk) auto
  with d before show ?thesis
    unfolding probe_0 by (intro exI [of _ "?P d"]) (auto simp: reachable_def)
qed

text \<open>Putting one entry into an empty bucket of the new table.\<close>

definition put_entry :: "nat \<Rightarrow> u64 \<Rightarrow> 'v \<Rightarrow> 'v rehash_state \<Rightarrow> 'v rehash_state" where
  "put_entry i key val s = s\<lparr>rh_new_flags := ac_set_isempty_false i (rh_new_flags s),
     rh_keys := (rh_keys s)[i := key], rh_vals := (rh_vals s)[i := val]\<rparr>"

lemma put_entry_inv:
  assumes inv: "rehash_inv n m E s" and key: "key \<notin> fst ` E" and i: "i < 2 ^ m"
    and empty: "ac_isempty (rh_new_flags s) i" and path: "reachable (rh_new_flags s) (2 ^ m) key i"
    and kept: "i \<notin> to_move n s"
  shows "rehash_inv n m (insert (key, val) E) (put_entry i key val s)
    \<and> to_move n (put_entry i key val s) = to_move n s"
proof -
  let ?s = "put_entry i key val s" and ?U = "to_move n s \<union> moved m s"
  have word: "i div 16 < length (rh_new_flags s)"
    using inv bucket_word [OF i] by (simp add: rehash_inv_def)
  note flags = flags_set [OF word]
  have old: "to_move n ?s = to_move n s" by (simp add: to_move_def put_entry_def)
  have new: "moved m ?s = insert i (moved m s)"
    using i by (auto simp: moved_def put_entry_def flags)
  have out: "i \<notin> ?U" using kept empty by (simp add: moved_def)
  have U: "to_move n ?s \<union> moved m ?s = insert i ?U" by (auto simp: old new)
  have lens: "length (rh_keys s) = 2 ^ m" "length (rh_vals s) = 2 ^ m"
    using inv by (simp_all add: rehash_inv_def)
  have at_i: "rh_keys ?s ! i = key" "rh_vals ?s ! i = val"
    using lens i by (simp_all add: put_entry_def)
  have others: "rh_keys ?s ! j = rh_keys s ! j" "rh_vals ?s ! j = rh_vals s ! j" if "j \<noteq> i" for j
    using that by (simp_all add: put_entry_def)
  have E: "E = entry (rh_keys s) (rh_vals s) ` ?U" using inv by (simp add: rehash_inv_def)
  have fresh: "rh_keys s ! j \<noteq> key" if "j \<in> ?U" for j
    using key that unfolding E by (auto simp: entry_def image_iff)
  have keys: "rh_keys ?s ! j = rh_keys s ! j" "rh_vals ?s ! j = rh_vals s ! j" if "j \<in> ?U" for j
    using that out others by metis+
  have "inj_on ((!) (rh_keys s)) ?U" using inv by (simp add: rehash_inv_def)
  then have inj: "inj_on ((!) (rh_keys ?s)) (insert i ?U)"
    using fresh out unfolding inj_on_insert
    by (auto simp: at_i keys inj_on_def)
  have entries: "entry (rh_keys ?s) (rh_vals ?s) ` insert i ?U = insert (key, val) E"
    unfolding E by (auto simp: entry_def at_i keys image_iff)
  have reach: "reachable (rh_new_flags ?s) (2 ^ m) (rh_keys ?s ! j) j" if "j \<in> moved m ?s" for j
  proof (rule reachable_mono)
    show "reachable (rh_new_flags s) (2 ^ m) (rh_keys ?s ! j) j"
    proof (cases "j = i")
      case True
      then show ?thesis using path by (simp add: at_i)
    next
      case False
      then show ?thesis using inv that by (simp add: others new rehash_inv_def)
    qed
    show "ac_isempty (rh_new_flags ?s) k \<Longrightarrow> ac_isempty (rh_new_flags s) k" for k
      by (simp add: put_entry_def flags)
  qed
  have nodel: "\<forall>j<2 ^ m. \<not> ac_isdel (rh_new_flags ?s) j"
    using inv by (simp add: rehash_inv_def put_entry_def flags)
  have disjoint: "to_move n ?s \<inter> moved m ?s = {}"
    using inv kept by (simp add: old new rehash_inv_def)
  have rest: "n \<le> 2 ^ m" "\<forall>i<n. i div 16 < length (rh_flags ?s)"
    "length (rh_new_flags ?s) = ac_fsize (2 ^ m)" "length (rh_keys ?s) = 2 ^ m" "length (rh_vals ?s) = 2 ^ m"
    using inv by (simp_all add: rehash_inv_def put_entry_def)
  show ?thesis
    unfolding rehash_inv_def U using rest nodel disjoint inj entries reach old by blast
qed

text \<open>Taking an entry out of the old table: the bucket is marked deleted.\<close>

lemma take_entry_inv:
  assumes inv: "rehash_inv n m E s" and i: "i \<in> to_move n s"
  shows "rehash_inv n m (E - {entry (rh_keys s) (rh_vals s) i})
      (s\<lparr>rh_flags := ac_set_isdel_true i (rh_flags s)\<rparr>)"
    and "to_move n (s\<lparr>rh_flags := ac_set_isdel_true i (rh_flags s)\<rparr>) = to_move n s - {i}"
    and "rh_keys s ! i \<notin> fst ` (E - {entry (rh_keys s) (rh_vals s) i})"
    and "entry (rh_keys s) (rh_vals s) i \<in> E"
proof -
  let ?s = "s\<lparr>rh_flags := ac_set_isdel_true i (rh_flags s)\<rparr>" and ?e = "entry (rh_keys s) (rh_vals s)"
  let ?U = "to_move n s \<union> moved m s"
  have word: "i div 16 < length (rh_flags s)" using inv i by (auto simp: rehash_inv_def to_move_def)
  note flags = flags_set [OF word]
  show old: "to_move n ?s = to_move n s - {i}"
    by (auto simp: to_move_def flags ac_iseither_bits)
  have new: "moved m ?s = moved m s" by (simp add: moved_def)
  have apart: "i \<notin> moved m s" using inv i by (auto simp: rehash_inv_def)
  then have U: "to_move n ?s \<union> moved m s = ?U - {i}" by (auto simp: old)
  have inj: "inj_on ((!) (rh_keys s)) ?U" and E: "E = ?e ` ?U"
    using inv by (simp_all add: rehash_inv_def)
  then have "inj_on ?e ?U" by (auto simp: inj_on_def entry_def)
  then have entries: "?e ` (?U - {i}) = E - {?e i}"
    unfolding E using i by (auto simp: inj_on_def)
  show "rh_keys s ! i \<notin> fst ` (E - {?e i})"
    unfolding entries [symmetric] using inj i by (auto simp: inj_on_def entry_def)
  show "?e i \<in> E" using i by (simp add: E)
  have inj': "inj_on ((!) (rh_keys s)) (?U - {i})" using inj by (rule inj_on_subset) auto
  show "rehash_inv n m (E - {?e i}) ?s"
  proof -
    have "\<forall>j<n. j div 16 < length (rh_flags ?s)" "to_move n ?s \<inter> moved m s = {}"
      using inv by (auto simp: rehash_inv_def old)
    moreover have "rh_keys ?s = rh_keys s" "rh_vals ?s = rh_vals s" "rh_new_flags ?s = rh_new_flags s"
      by simp_all
    ultimately show ?thesis
      using inv inj' entries unfolding rehash_inv_def new U by simp
  qed
qed

lemma card_replace:
  assumes "finite E" and "e \<in> E" and "x \<notin> E"
  shows "card (insert x (E - {e})) = card E"
proof -
  have "card (insert x (E - {e})) = Suc (card (E - {e}))"
    using assms by (intro card_insert_disjoint) auto
  also have "\<dots> = card E" using assms by (intro card_Suc_Diff1)
  finally show ?thesis .
qed

lemma kick_out_moves:
  assumes "rehash_inv n m E s" and "key \<notin> fst ` E" and "card E < 2 ^ m"
    and "card (to_move n s) < fuel"
  shows "\<exists>s'. kick_out fuel n (2 ^ m) key val s = Some s' \<and> rehash_inv n m (insert (key, val) E) s'
     \<and> to_move n s' \<subseteq> to_move n s"
  using assms
proof (induction fuel arbitrary: E s key val)
  case 0
  then show ?case by simp
next
  case (Suc fuel)
  have "card (moved m s) < 2 ^ m"
    using rehash_card(2) [OF Suc.prems(1)] Suc.prems(3) by simp
  then obtain i where i: "i < 2 ^ m" "ac_isempty (rh_new_flags s) i"
      "reachable (rh_new_flags s) (2 ^ m) key i"
    and find: "find_empty (2 ^ m) (rh_new_flags s) (2 ^ m - 1) (home key AND (2 ^ m - 1)) 0 = Some i"
    using find_empty_finds [of m "rh_new_flags s" key] by (auto simp: moved_def)
  have old: "i < n \<and> \<not> ac_iseither (rh_flags s) i \<longleftrightarrow> i \<in> to_move n s"
    by (simp add: to_move_def)
  let ?t = "s\<lparr>rh_flags := ac_set_isdel_true i (rh_flags s)\<rparr>"
  have same: "(put_entry i key val s)\<lparr>rh_flags := ac_set_isdel_true i (rh_flags s)\<rparr> = put_entry i key val ?t"
    by (rule rehash_state.equality) (simp_all add: put_entry_def)
  have step: "kick_out (Suc fuel) n (2 ^ m) key val s =
      (if i \<in> to_move n s then kick_out fuel n (2 ^ m) (rh_keys s ! i) (rh_vals s ! i) (put_entry i key val ?t)
       else Some (put_entry i key val s))"
    unfolding kick_out.simps(2) Let_def home_def [symmetric] find option.case old
    unfolding same [symmetric] by (simp add: put_entry_def)
  show ?case
  proof (cases "i \<in> to_move n s")
    case False
    with put_entry_inv [OF Suc.prems(1,2) i False, of val] step show ?thesis by auto
  next
    case True
    let ?e = "entry (rh_keys s) (rh_vals s) i" and ?E = "E - {entry (rh_keys s) (rh_vals s) i}"
    note taken = take_entry_inv [OF Suc.prems(1) True]
    have key: "key \<notin> fst ` ?E" "(key, val) \<notin> E" using Suc.prems(2) by (auto simp: image_iff)
    have put: "rehash_inv n m (insert (key, val) ?E) (put_entry i key val ?t)
        \<and> to_move n (put_entry i key val ?t) = to_move n ?t"
      using i taken(2) by (intro put_entry_inv [OF taken(1) key(1)]) simp_all
    have pending: "rh_keys s ! i \<notin> fst ` insert (key, val) ?E"
      using taken(3,4) Suc.prems(2) by (auto simp: entry_def image_iff)
    have "card (insert (key, val) ?E) < 2 ^ m"
      using card_replace [OF rehash_card(1) [OF Suc.prems(1)] taken(4) key(2)] Suc.prems(3) by simp
    moreover have "card (to_move n (put_entry i key val ?t)) < fuel"
      using put taken(2) card_Suc_Diff1 [OF finite_to_move(1) True] Suc.prems(4) by simp
    moreover have "insert (rh_keys s ! i, rh_vals s ! i) (insert (key, val) ?E) = insert (key, val) E"
      using taken(4) by (auto simp: entry_def)
    ultimately show ?thesis
      using Suc.IH [OF conjunct1 [OF put] pending, of "rh_vals s ! i"] step True put taken(2) by auto
  qed
qed

lemma rehash_bucket_moves:
  assumes inv: "rehash_inv n m E s" and room: "card E < 2 ^ m" and j: "j < n"
  shows "\<exists>s'. rehash_bucket n (2 ^ m) j (Some s) = Some s' \<and> rehash_inv n m E s'
     \<and> to_move n s' \<subseteq> to_move n s - {j}"
proof (cases "j \<in> to_move n s")
  case False
  with inv j show ?thesis by (auto simp: rehash_bucket_def to_move_def)
next
  case True
  let ?e = "entry (rh_keys s) (rh_vals s) j" and ?t = "s\<lparr>rh_flags := ac_set_isdel_true j (rh_flags s)\<rparr>"
  note taken = take_entry_inv [OF inv True]
  have "card (E - {?e}) < 2 ^ m"
    using room by (meson card_Diff1_le le_less_trans rehash_card(1) [OF inv])
  moreover have "card (to_move n ?t) < Suc n"
  proof -
    have "to_move n ?t \<subseteq> {..<n}" by (auto simp: to_move_def)
    from card_mono [OF finite_lessThan this] show ?thesis by simp
  qed
  ultimately obtain s' where "kick_out (Suc n) n (2 ^ m) (rh_keys s ! j) (rh_vals s ! j) ?t = Some s'"
    "rehash_inv n m (insert (rh_keys s ! j, rh_vals s ! j) (E - {?e})) s'" "to_move n s' \<subseteq> to_move n ?t"
    using kick_out_moves [OF taken(1,3)] by blast
  moreover have "insert (rh_keys s ! j, rh_vals s ! j) (E - {?e}) = E"
    using taken(4) by (auto simp: entry_def)
  ultimately show ?thesis
    using True taken(2) by (simp add: rehash_bucket_def to_move_def)
qed

lemma rehash_all_moves:
  assumes inv: "rehash_inv n m E s" and room: "card E < 2 ^ m" and k: "k \<le> n"
  shows "\<exists>s'. fold (rehash_bucket n (2 ^ m)) [0..<k] (Some s) = Some s' \<and> rehash_inv n m E s'
     \<and> to_move n s' \<inter> {..<k} = {}"
  using k
proof (induction k)
  case 0
  with inv show ?case by simp
next
  case (Suc k)
  then obtain s' where s': "fold (rehash_bucket n (2 ^ m)) [0..<k] (Some s) = Some s'"
    "rehash_inv n m E s'" "to_move n s' \<inter> {..<k} = {}" by auto
  from rehash_bucket_moves [OF s'(2) room, of k] Suc.prems obtain s'' where
    "rehash_bucket n (2 ^ m) k (Some s') = Some s''" "rehash_inv n m E s''"
    "to_move n s'' \<subseteq> to_move n s' - {k}" by auto
  moreover from this s'(3) have "to_move n s'' \<inter> {..<Suc k} = {}"
    unfolding lessThan_Suc by blast
  ultimately show ?case using s'(1) by simp
qed

section \<open>Rounding up to a power of two\<close>

definition smear :: "u32 \<Rightarrow> u32" where
  "smear x =
     (let x = x OR drop_bit 1 x;
          x = x OR drop_bit 2 x;
          x = x OR drop_bit 4 x;
          x = x OR drop_bit 8 x
      in x OR drop_bit 16 x)"

lemma kroundup32_smear: "kroundup32 x = smear (x - 1) + 1"
  by (simp add: kroundup32_def smear_def Let_def)

lemma window_double:
  "(\<exists>d<n. P (k + d)) \<or> (\<exists>d<n. P (k + n + d)) \<longleftrightarrow> (\<exists>d<2 * n. P (k + d))" for n k :: nat
proof
  assume "(\<exists>d<n. P (k + d)) \<or> (\<exists>d<n. P (k + n + d))"
  then show "\<exists>d<2 * n. P (k + d)"
  proof
    assume "\<exists>d<n. P (k + d)"
    then obtain d where "d < n" "P (k + d)" by auto
    then show ?thesis by (intro exI [of _ d]) simp
  next
    assume "\<exists>d<n. P (k + n + d)"
    then obtain d where "d < n" "P (k + (n + d))" by (auto simp: add.assoc)
    then show ?thesis by (intro exI [of _ "n + d"]) simp
  qed
next
  assume "\<exists>d<2 * n. P (k + d)"
  then obtain d where d: "d < 2 * n" "P (k + d)" by auto
  show "(\<exists>d<n. P (k + d)) \<or> (\<exists>d<n. P (k + n + d))"
  proof (cases "d < n")
    case True
    with d(2) show ?thesis by auto
  next
    case False
    with d have "d - n < n \<and> P (k + n + (d - n))" by simp
    then show ?thesis by blast
  qed
qed

lemma window_step:
  fixes x :: u32
  assumes "\<And>k. bit x k \<longleftrightarrow> (\<exists>d<n. bit y (k + d))"
  shows "bit (x OR drop_bit n x) k \<longleftrightarrow> (\<exists>d<2 * n. bit y (k + d))"
proof -
  have "bit (x OR drop_bit n x) k \<longleftrightarrow> bit x k \<or> bit x (n + k)"
    by (simp add: bit_or_iff bit_drop_bit_eq)
  then show ?thesis
    using window_double [of n "bit y" k] by (simp only: assms add.commute [of n])
qed

lemma bit_smear: "bit (smear x) k \<longleftrightarrow> (\<exists>d<32. bit x (k + d))"
proof -
  have "bit x k \<longleftrightarrow> (\<exists>d<1. bit x (k + d))" for k by simp
  from window_step [OF this] have "bit (x OR drop_bit 1 x) k \<longleftrightarrow> (\<exists>d<2. bit x (k + d))" for k
    by simp
  note window_step [OF window_step [OF window_step [OF window_step [OF this]]]]
  then show ?thesis by (simp add: smear_def Let_def)
qed

lemma unat_less_exp:
  fixes w :: u32
  assumes "\<And>k. bit w k \<Longrightarrow> k < m"
  shows "unat w < 2 ^ m"
proof -
  have "take_bit m w = w"
    using assms by (intro bit_word_eqI) (auto simp: bit_take_bit_iff)
  then have "take_bit m (unat w) = unat w" by (metis unsigned_take_bit_eq)
  then show ?thesis by (metis take_bit_nat_less_exp)
qed

lemma exp_bits:
  fixes w :: u32
  assumes "unat w < 2 ^ m" and "bit w k"
  shows "k < m"
proof -
  have "bit (unat w) k" using assms(2) by (simp add: bit_unsigned_iff)
  moreover have "take_bit m (unat w) = unat w" using assms(1) by (simp add: take_bit_nat_eq_self)
  ultimately show ?thesis by (metis bit_take_bit_iff)
qed

lemma kroundup32_up:
  fixes x :: u32
  assumes "2 ^ m < unat x" and "unat x \<le> 2 ^ Suc m" and "m < 31"
  shows "unat (kroundup32 x) = 2 ^ Suc m"
proof -
  have "x \<noteq> 0" using assms(1) by auto
  then have y: "unat (x - 1) = unat x - 1"
    by (simp add: unat_minus_one)
  have "unat (x - 1) < 2 ^ Suc m"
    unfolding y using assms(1,2) by linarith
  then have low: "bit (x - 1) k \<Longrightarrow> k < Suc m" for k by (rule exp_bits)
  have "\<exists>k\<ge>m. bit (x - 1) k"
  proof (rule ccontr)
    assume "\<not> ?thesis"
    then have "unat (x - 1) < 2 ^ m" by (intro unat_less_exp) (meson not_le)
    with y assms(1) show False by simp
  qed
  with low have top: "bit (x - 1) m" by (metis less_Suc_eq_le le_antisym)
  have "smear (x - 1) = mask (Suc m)"
  proof (rule bit_word_eqI)
    fix k assume "k < LENGTH(32)"
    show "bit (smear (x - 1)) k = bit (mask (Suc m) :: u32) k"
    proof (cases "k \<le> m")
      case True
      then have "\<exists>d<32. bit (x - 1) (k + d)"
        using top assms(3) by (intro exI [of _ "m - k"]) simp
      with True assms(3) show ?thesis by (simp add: bit_smear bit_mask_iff)
    next
      case False
      then have "\<not> bit (x - 1) (k + d)" for d using low [of "k + d"] by auto
      with False show ?thesis by (simp add: bit_smear bit_mask_iff)
    qed
  qed
  then have "kroundup32 x = 2 ^ Suc m"
    by (simp add: kroundup32_smear mask_eq_exp_minus_1)
  moreover have "unat (2 ^ Suc m :: u32) = 2 ^ Suc m"
  proof -
    have "(2 :: nat) ^ Suc m < 2 ^ 32" using assms(3) by (intro power_strict_increasing) simp_all
    then show ?thesis using unat_of_nat [of "2 ^ Suc m", where 'a = 32] by simp
  qed
  ultimately show ?thesis by simp
qed

section \<open>Growing\<close>

lemma lookup_entries:
  assumes "inj_on ((!) (kh_keys h)) (live h)"
  shows "kh_lookup h key = Some v \<longleftrightarrow> (key, v) \<in> entry (kh_keys h) (kh_vals h) ` live h"
  by (auto simp: kh_lookup_Some [OF assms] entry_def image_iff)

lemma kh_inv_shape:
  assumes "kh_inv h"
  shows "length (kh_keys h) = kh_n_buckets h" and "length (kh_vals h) = kh_n_buckets h"
    and "i < kh_n_buckets h \<Longrightarrow> i div 16 < length (kh_flags h)"
    and "kh_size h = card (live h)"
proof -
  show "length (kh_keys h) = kh_n_buckets h" "length (kh_vals h) = kh_n_buckets h"
    using assms by (auto simp: kh_inv_def kh_built_def kh_init_def)
  show "i div 16 < length (kh_flags h)" if "i < kh_n_buckets h"
  proof -
    have "kh_n_buckets (kh_init :: 'a kh_table) = 0" by (simp add: kh_init_def)
    with that have "h \<noteq> kh_init" by auto
    with assms obtain m where built: "kh_built m h" by (auto simp: kh_inv_def)
    then have "i < 2 ^ m" using that by (simp add: kh_built_def)
    with built show ?thesis by (rule flag_word)
  qed
  show "kh_size h = card (live h)"
    using assms by (auto simp: kh_inv_def kh_built_def) (simp add: kh_init_def)
qed

lemma realloc_grow:
  assumes "length xs \<le> n"
  shows "length (realloc_list junk n xs) = n"
    and "i < length xs \<Longrightarrow> realloc_list junk n xs ! i = xs ! i"
  using assms by (simp_all add: realloc_list_def nth_append)

lemma kh_resize_grows:
  assumes inv: "kh_inv h" and m: "2 \<le> m"
    and rounded: "(let r = unat (kroundup32 (of_nat req)) in if r < 4 then 4 else r) = 2 ^ m"
    and n: "kh_n_buckets h \<le> 2 ^ m" and room: "kh_size h < hash_upper (2 ^ m)"
  shows "\<exists>h'. kh_resize junk_key junk_val req h = Some h' \<and> kh_built m h'
     \<and> kh_lookup h' = kh_lookup h \<and> kh_n_occupied h' < kh_upper_bound h' \<and> kh_size h' = kh_size h"
proof -
  let ?n = "kh_n_buckets h" and ?E = "entry (kh_keys h) (kh_vals h) ` live h"
  note shape = kh_inv_shape [OF inv] and inj = kh_inv_inj [OF inv]
  define K where "K = (if ?n < 2 ^ m then realloc_list junk_key (2 ^ m) (kh_keys h) else kh_keys h)"
  define V where "V = (if ?n < 2 ^ m then realloc_list junk_val (2 ^ m) (kh_vals h) else kh_vals h)"
  define s where "s = \<lparr>rh_flags = kh_flags h, rh_new_flags = all_empty_flags (2 ^ m), rh_keys = K, rh_vals = V\<rparr>"
  have lens: "length K = 2 ^ m" "length V = 2 ^ m"
    using n shape(1,2) by (auto simp: K_def V_def realloc_grow)
  have same: "K ! i = kh_keys h ! i" "V ! i = kh_vals h ! i" if "i < ?n" for i
    using that n shape(1,2) by (auto simp: K_def V_def realloc_grow)
  have old: "to_move ?n s = live h" and new: "moved m s = {}"
    by (auto simp: to_move_def live_def s_def moved_def all_empty)
  have "entry K V ` live h = ?E"
    using same by (intro image_cong) (auto simp: entry_def live_def)
  moreover have "inj_on ((!) K) (live h)"
    using inj same by (auto simp: inj_on_def live_def)
  ultimately have start: "rehash_inv ?n m ?E s"
    unfolding rehash_inv_def old new using n shape(3) lens
    by (simp add: s_def all_empty) (simp add: all_empty_flags_def)
  have "inj_on (entry (kh_keys h) (kh_vals h)) (live h)"
    using inj by (auto simp: inj_on_def entry_def)
  then have card: "card ?E = kh_size h" by (simp add: card_image shape(4))
  then have "card ?E < 2 ^ m" using room hash_upper_less [OF m] by simp
  from rehash_all_moves [OF start this le_refl] obtain s' where
    s': "fold (rehash_bucket ?n (2 ^ m)) [0..<?n] (Some s) = Some s'" "rehash_inv ?n m ?E s'"
    "to_move ?n s' \<inter> {..<?n} = {}" by auto
  have none: "to_move ?n s' = {}" using s'(3) by (auto simp: to_move_def)
  define h' where "h' = h\<lparr>kh_n_buckets := 2 ^ m, kh_n_occupied := kh_size h,
     kh_upper_bound := hash_upper (2 ^ m), kh_flags := rh_new_flags s',
     kh_keys := rh_keys s', kh_vals := rh_vals s'\<rparr>"
  have "kh_resize junk_key junk_val req h = Some h'"
    unfolding kh_resize_def Let_def rounded [unfolded Let_def]
    using room n s'(1) by (simp add: h'_def s_def K_def V_def)
  moreover have sets: "live h' = moved m s'" "occupied h' = moved m s'"
    using s'(2) by (auto simp: live_def occupied_def moved_def h'_def ac_iseither_bits rehash_inv_def)
  have E: "entry (rh_keys s') (rh_vals s') ` moved m s' = ?E" and inj': "inj_on ((!) (rh_keys s')) (moved m s')"
    using s'(2) by (auto simp: rehash_inv_def none)
  have "inj_on (entry (rh_keys s') (rh_vals s')) (moved m s')"
    using inj' by (auto simp: inj_on_def entry_def)
  then have "card (moved m s') = kh_size h"
    using card E by (metis card_image)
  then have "kh_built m h'"
    unfolding kh_built_def sets using s'(2) m room inj'
    by (simp add: h'_def rehash_inv_def)
  moreover have "kh_lookup h' = kh_lookup h"
  proof (rule ext, rule option_eqI)
    fix k v
    have "inj_on ((!) (kh_keys h')) (live h')" using inj' by (simp add: sets) (simp add: h'_def)
    from lookup_entries [OF this, of k v] lookup_entries [OF inj, of k v] E
    show "kh_lookup h' k = Some v \<longleftrightarrow> kh_lookup h k = Some v"
      unfolding sets by (simp add: h'_def)
  qed
  moreover have "kh_n_occupied h' < kh_upper_bound h'" "kh_size h' = kh_size h"
    using room by (simp_all add: h'_def)
  ultimately show ?thesis by blast
qed

lemma kroundup32_1: "unat (kroundup32 1) = 1"
  by (simp add: kroundup32_def)

lemma unat_of_nat_small: "n < 2 ^ 32 \<Longrightarrow> unat (of_nat n :: u32) = n"
  using unat_of_nat [of n, where 'a = 32] by simp

lemma round_same:
  assumes "2 \<le> m" and "m \<le> 31"
  shows "(let r = unat (kroundup32 (of_nat (2 ^ m - 1))) in if r < 4 then 4 else r) = 2 ^ m"
proof -
  from assms(1) obtain k where k: "m = Suc k" "1 \<le> k" by (cases m) auto
  have big: "(2 :: nat) ^ m < 2 ^ 32" "(4 :: nat) \<le> 2 ^ m" "(2 :: nat) \<le> 2 ^ k"
    using assms k power_increasing [of 2 m "2 :: nat"] power_increasing [of 1 k "2 :: nat"]
      power_strict_increasing_iff [of "2 :: nat" m 32] by simp_all
  then have unat: "unat (of_nat (2 ^ m - 1) :: u32) = 2 ^ m - 1"
    by (intro unat_of_nat_small) linarith
  have "2 ^ k < unat (of_nat (2 ^ m - 1) :: u32)" "unat (of_nat (2 ^ m - 1) :: u32) \<le> 2 ^ Suc k"
    using big(3) unfolding unat by (simp_all add: k(1))
  then have "unat (kroundup32 (of_nat (2 ^ m - 1))) = 2 ^ m"
    unfolding k(1) using k assms(2) by (intro kroundup32_up) simp_all
  then show ?thesis using big(2) by (simp only: Let_def) simp
qed

lemma round_next:
  assumes "2 \<le> m" and "m < 31"
  shows "(let r = unat (kroundup32 (of_nat (2 ^ m + 1))) in if r < 4 then 4 else r) = 2 ^ Suc m"
proof -
  have big: "(2 :: nat) ^ m < 2 ^ 31" "(4 :: nat) \<le> 2 ^ m"
    using assms power_increasing [of 2 m "2 :: nat"] power_strict_increasing_iff [of "2 :: nat" m 31]
    by simp_all
  then have unat: "unat (of_nat (2 ^ m + 1) :: u32) = 2 ^ m + 1"
    by (intro unat_of_nat_small) simp
  have "2 ^ m < unat (of_nat (2 ^ m + 1) :: u32)" "unat (of_nat (2 ^ m + 1) :: u32) \<le> 2 ^ Suc m"
    using big(2) unfolding unat power_Suc by linarith+
  then have "unat (kroundup32 (of_nat (2 ^ m + 1))) = 2 ^ Suc m"
    using assms(2) by (intro kroundup32_up) simp_all
  then show ?thesis using big(2) by (simp only: Let_def) simp
qed

lemma hash_upper_half: "2 * s < n \<Longrightarrow> s < hash_upper n"
  by (simp add: hash_upper_def less_eq_Suc_le less_eq_div_iff_mult_less_eq)

lemma hash_upper_double: "s \<le> n \<Longrightarrow> 4 \<le> n \<Longrightarrow> s < hash_upper (2 * n)"
  by (simp add: hash_upper_def less_eq_Suc_le less_eq_div_iff_mult_less_eq)

lemma kh_put_grow_works:
  assumes inv: "kh_inv h" and room: "kh_n_buckets h < 2 ^ 31"
  shows "\<exists>h' m. kh_put_grow junk_key junk_val h = Some h' \<and> kh_built m h'
     \<and> kh_lookup h' = kh_lookup h \<and> kh_n_occupied h' < kh_upper_bound h' \<and> kh_size h' = kh_size h
     \<and> kh_n_buckets h' \<le> max (kh_n_buckets h) (4 * Suc (kh_size h))"
proof (cases "h = kh_init")
  case True
  have "\<exists>h'. kh_resize junk_key junk_val 1 h = Some h' \<and> kh_built 2 h'
     \<and> kh_lookup h' = kh_lookup h \<and> kh_n_occupied h' < kh_upper_bound h' \<and> kh_size h' = kh_size h"
    using inv by (intro kh_resize_grows) (simp_all add: True kh_init_def kroundup32_1 hash_upper_def)
  then show ?thesis
    by (auto simp: True kh_put_grow_def kh_init_def kh_built_def intro!: exI [of _ 2])
next
  case False
  with inv obtain m where built: "kh_built m h" by (auto simp: kh_inv_def)
  then have m: "2 \<le> m" and n: "kh_n_buckets h = 2 ^ m" by (simp_all add: kh_built_def)
  have "m < 31" using room power_strict_increasing_iff [of "2 :: nat" m 31] unfolding n by simp
  have "card (live h) \<le> card (occupied h)" by (intro card_mono live_occupied finite_occupied)
  then have size: "kh_size h < 2 ^ m"
    using built hash_upper_less [OF m] by (simp add: kh_built_def)
  have four: "(4 :: nat) \<le> 2 ^ m" using m power_increasing [of 2 m "2 :: nat"] by simp
  show ?thesis
  proof (cases "kh_upper_bound h \<le> kh_n_occupied h")
    case False
    with built show ?thesis by (auto simp: kh_put_grow_def)
  next
    case full: True
    show ?thesis
    proof (cases "2 * kh_size h < 2 ^ m")
      case True
      from kh_resize_grows [OF inv m round_same [OF m], of junk_key junk_val] \<open>m < 31\<close> n
        hash_upper_half [OF True]
      obtain h' where "kh_resize junk_key junk_val (2 ^ m - 1) h = Some h'" "kh_built m h'"
        "kh_lookup h' = kh_lookup h" "kh_n_occupied h' < kh_upper_bound h'" "kh_size h' = kh_size h"
        by auto
      with full True n show ?thesis by (auto simp: kh_put_grow_def kh_built_def)
    next
      case False
      have "kh_size h < hash_upper (2 ^ Suc m)"
        using hash_upper_double [of "kh_size h" "2 ^ m"] size four by simp
      with kh_resize_grows [OF inv _ round_next [OF m \<open>m < 31\<close>], of junk_key junk_val] m n
      obtain h' where "kh_resize junk_key junk_val (2 ^ m + 1) h = Some h'" "kh_built (Suc m) h'"
        "kh_lookup h' = kh_lookup h" "kh_n_occupied h' < kh_upper_bound h'" "kh_size h' = kh_size h"
        by auto
      moreover from this False have "kh_n_buckets h' \<le> 4 * Suc (kh_size h)"
        by (simp add: kh_built_def)
      ultimately show ?thesis using full False n by (auto simp: kh_put_grow_def)
    qed
  qed
qed

section \<open>The table is an overwriting store\<close>

lemma kh_put_works:
  assumes inv: "kh_inv h" and room: "kh_n_buckets h < 2 ^ 31"
  shows "\<exists>h' x r m. kh_put junk_key junk_val key h = Some (h', x, r)
     \<and> kh_n_buckets h' \<le> max (kh_n_buckets h) (4 * Suc (kh_size h))
     \<and> kh_size h' \<le> Suc (kh_size h) \<and> (r = 0 \<longleftrightarrow> kh_lookup h key \<noteq> None)
     \<and> (\<forall>v. kh_built m (kh_set_value x v h')
          \<and> kh_lookup (kh_set_value x v h') = (kh_lookup h)(key \<mapsto> v))"
proof -
  from kh_put_grow_works [OF inv room, of junk_key junk_val] obtain h1 m where
    grow: "kh_put_grow junk_key junk_val h = Some h1" and built: "kh_built m h1"
    and lookup: "kh_lookup h1 = kh_lookup h" and free: "kh_n_occupied h1 < kh_upper_bound h1"
    and size: "kh_size h1 = kh_size h"
    and buckets: "kh_n_buckets h1 \<le> max (kh_n_buckets h) (4 * Suc (kh_size h))" by blast
  from kh_put_bucket_cases [OF built, of key] obtain x where
    x: "kh_put_bucket h1 key = Some x" "x < 2 ^ m" and
    cases: "if \<exists>i\<in>live h1. kh_keys h1 ! i = key then x \<in> live h1 \<and> kh_keys h1 ! x = key
        else ac_iseither (kh_flags h1) x \<and> reachable (kh_flags h1) (2 ^ m) key x" by blast
  show ?thesis
  proof (cases "\<exists>i\<in>live h1. kh_keys h1 ! i = key")
    case True
    with cases have here: "x \<in> live h1" "kh_keys h1 ! x = key" by auto
    have "kh_put junk_key junk_val key h = Some (h1, x, 0)"
      using grow x(1) here(1) by (simp add: kh_put_def live_def ac_iseither_bits)
    moreover have "kh_lookup h key \<noteq> None"
      using True by (auto simp: lookup [symmetric] kh_lookup_None)
    ultimately show ?thesis
      using set_value_live [OF built here(1)] here(2) lookup buckets size by auto
  next
    case False
    with cases have away: "ac_iseither (kh_flags h1) x" "reachable (kh_flags h1) (2 ^ m) key x" by auto
    from False have absent: "\<forall>i\<in>live h1. kh_keys h1 ! i \<noteq> key" by auto
    have "\<exists>h' r. kh_put junk_key junk_val key h = Some (h', x, r) \<and> r \<noteq> 0
      \<and> (\<forall>v. kh_set_value x v h' = fill_bucket x key v h1)
      \<and> kh_size h' = Suc (kh_size h1) \<and> kh_n_buckets h' = kh_n_buckets h1"
      using grow x(1) away(1)
      by (cases "ac_isempty (kh_flags h1) x")
        (auto simp: kh_put_def kh_set_value_def fill_bucket_def ac_iseither_bits)
    then obtain h' r where put: "kh_put junk_key junk_val key h = Some (h', x, r)" "r \<noteq> 0"
      and fill: "\<And>v. kh_set_value x v h' = fill_bucket x key v h1"
      and size': "kh_size h' = Suc (kh_size h1)" "kh_n_buckets h' = kh_n_buckets h1" by blast
    have filled: "kh_built m (fill_bucket x key v h1)" for v
      by (rule fill_bucket_built [OF built x(2) away free absent])
    have "kh_lookup (fill_bucket x key v h1) = (kh_lookup h1)(key \<mapsto> v)" for v
      using filled by (intro fill_bucket_lookup [OF built x(2) away(1) _ absent]) (simp add: kh_built_def)
    moreover have "kh_lookup h key = None"
      using absent by (simp add: lookup [symmetric] kh_lookup_None)
    ultimately show ?thesis
      using put filled fill size size' buckets lookup by auto
  qed
qed

lemma kh_get_lookup:
  assumes inv: "kh_inv h"
  shows "\<exists>k. kh_get h key = Some k
     \<and> (if k = kh_n_buckets h then kh_lookup h key = None
        else k \<in> live h \<and> kh_keys h ! k = key \<and> kh_lookup h key = Some (kh_vals h ! k))"
proof (cases "kh_lookup h key")
  case None
  with kh_get_missing [OF inv, of key] show ?thesis by (auto simp: kh_lookup_None)
next
  case (Some v)
  then obtain i where i: "i \<in> live h" "kh_keys h ! i = key" "kh_vals h ! i = v"
    using kh_lookup_Some [OF kh_inv_inj [OF inv]] by blast
  then have "i \<noteq> kh_n_buckets h" by (simp add: live_def)
  with i Some kh_get_found [OF inv i(1,2)] show ?thesis by auto
qed

definition table_put :: "u64 \<Rightarrow> 'v \<Rightarrow> u64 \<Rightarrow> 'v \<Rightarrow> 'v kh_table \<Rightarrow> 'v kh_table" where
  "table_put junk_key junk_val key v h = (case kh_put junk_key junk_val key h of
     Some (h', x, r) \<Rightarrow> kh_set_value x v h' | None \<Rightarrow> h)"

definition table_del :: "u64 \<Rightarrow> 'v kh_table \<Rightarrow> 'v kh_table" where
  "table_del key h = (case kh_get h key of Some k \<Rightarrow> kh_del k h | None \<Rightarrow> h)"

definition table_room :: "'v kh_table \<Rightarrow> bool" where
  "table_room h \<longleftrightarrow> kh_n_buckets h < 2 ^ 31"

lemma table_put_works:
  assumes "kh_inv h" and "table_room h"
  shows "kh_inv (table_put junk_key junk_val key v h)"
    and "kh_lookup (table_put junk_key junk_val key v h) = (kh_lookup h)(key \<mapsto> v)"
    and "kh_n_buckets (table_put junk_key junk_val key v h) \<le> max (kh_n_buckets h) (4 * Suc (kh_size h))"
    and "kh_size (table_put junk_key junk_val key v h) \<le> Suc (kh_size h)"
proof -
  let ?h = "table_put junk_key junk_val key v h"
  from kh_put_works [OF assms(1) assms(2) [unfolded table_room_def], of junk_key junk_val key]
  obtain h' x r m where "kh_put junk_key junk_val key h = Some (h', x, r)"
    and ok: "kh_n_buckets h' \<le> max (kh_n_buckets h) (4 * Suc (kh_size h))" "kh_size h' \<le> Suc (kh_size h)"
      "kh_built m (kh_set_value x v h')" "kh_lookup (kh_set_value x v h') = (kh_lookup h)(key \<mapsto> v)"
    by blast
  then have h: "?h = kh_set_value x v h'" by (simp add: table_put_def)
  show "kh_inv ?h" "kh_lookup ?h = (kh_lookup h)(key \<mapsto> v)" using ok h by (auto simp: kh_inv_def)
  show "kh_n_buckets ?h \<le> max (kh_n_buckets h) (4 * Suc (kh_size h))" "kh_size ?h \<le> Suc (kh_size h)"
    using ok(1,2) unfolding h by (simp_all add: kh_set_value_def)
qed

lemma table_del_works:
  assumes inv: "kh_inv h" and present: "kh_lookup h key \<noteq> None"
  shows "kh_inv (table_del key h)" and "kh_lookup (table_del key h) = (kh_lookup h)(key := None)"
proof -
  have "h \<noteq> kh_init" using present by auto
  then obtain m where built: "kh_built m h" using inv by (auto simp: kh_inv_def)
  obtain k where k: "kh_get h key = Some k" "k \<in> live h" "kh_keys h ! k = key"
    using kh_get_lookup [OF inv, of key] present by (metis (full_types))
  with del_live [OF built k(2)]
  show "kh_inv (table_del key h)" "kh_lookup (table_del key h) = (kh_lookup h)(key := None)"
    by (auto simp: table_del_def kh_inv_def)
qed

lemma finite_kh_lookup: "kh_inv h \<Longrightarrow> finite (dom (kh_lookup h))"
proof -
  assume inv: "kh_inv h"
  have "dom (kh_lookup h) \<subseteq> (!) (kh_keys h) ` live h"
    using kh_lookup_Some [OF kh_inv_inj [OF inv]] by fastforce
  then show ?thesis by (rule finite_subset) simp
qed

lemma kh_init_inv [simp]: "kh_inv kh_init"
  by (simp add: kh_inv_def)

interpretation trap_table: overwriting_store kh_inv table_room kh_lookup
  "table_put junk_key junk_val" table_del for junk_key junk_val
  by unfold_locales (simp_all add: finite_kh_lookup table_put_works table_del_works)

section \<open>Runs of table operations\<close>

text \<open>
  What the processing unit does to the table: store a value under a key, and look a key up and
  delete it when it is there. None when a search does not return.
\<close>

datatype 'v table_op = Store_op u64 'v | Release_op u64

fun table_step :: "u64 \<Rightarrow> 'v \<Rightarrow> 'v table_op \<Rightarrow> 'v kh_table \<Rightarrow> 'v kh_table option" where
  "table_step junk_key junk_val (Store_op key v) h =
     (case kh_put junk_key junk_val key h of None \<Rightarrow> None
      | Some (h', x, r) \<Rightarrow> Some (kh_set_value x v h'))"
| "table_step junk_key junk_val (Release_op key) h =
     (case kh_get h key of None \<Rightarrow> None
      | Some k \<Rightarrow> Some (if k \<noteq> kh_n_buckets h then kh_del k h else h))"

fun table_run :: "u64 \<Rightarrow> 'v \<Rightarrow> 'v table_op list \<Rightarrow> 'v kh_table \<Rightarrow> 'v kh_table option" where
  "table_run junk_key junk_val [] h = Some h"
| "table_run junk_key junk_val (a # as) h =
     (case table_step junk_key junk_val a h of None \<Rightarrow> None
      | Some h' \<Rightarrow> table_run junk_key junk_val as h')"

fun map_step :: "'v table_op \<Rightarrow> (u64 \<Rightarrow> 'v option) \<Rightarrow> u64 \<Rightarrow> 'v option" where
  "map_step (Store_op key v) t = t(key \<mapsto> v)"
| "map_step (Release_op key) t = t(key := None)"

lemma table_step_works:
  assumes inv: "kh_inv h" and room: "table_room h"
  shows "\<exists>h'. table_step junk_key junk_val a h = Some h' \<and> kh_inv h'
     \<and> kh_lookup h' = map_step a (kh_lookup h)
     \<and> kh_n_buckets h' \<le> max (kh_n_buckets h) (4 * Suc (kh_size h)) \<and> kh_size h' \<le> Suc (kh_size h)"
proof (cases a)
  case (Store_op key v)
  from kh_put_works [OF inv room [unfolded table_room_def], of junk_key junk_val key]
  obtain h' x r m where put: "kh_put junk_key junk_val key h = Some (h', x, r)" by blast
  then have "table_put junk_key junk_val key v h = kh_set_value x v h'" by (simp add: table_put_def)
  with put table_put_works [OF inv room, of junk_key junk_val key v] Store_op show ?thesis by simp
next
  case (Release_op key)
  from kh_get_lookup [OF inv, of key] obtain k where k: "kh_get h key = Some k"
    "if k = kh_n_buckets h then kh_lookup h key = None
     else k \<in> live h \<and> kh_keys h ! k = key \<and> kh_lookup h key = Some (kh_vals h ! k)" by blast
  show ?thesis
  proof (cases "k = kh_n_buckets h")
    case True
    with k inv Release_op show ?thesis by (simp add: fun_upd_idem)
  next
    case False
    with k have "kh_lookup h key \<noteq> None" by simp
    from table_del_works [OF inv this] k False Release_op show ?thesis
      by (simp add: table_del_def) (simp add: kh_del_def le_SucI)
  qed
qed

lemma table_run_works:
  assumes "kh_inv h" and "kh_n_buckets h \<le> 4 * c" and "kh_size h \<le> c" and "c + length as \<le> 2 ^ 28"
  shows "\<exists>h'. table_run junk_key junk_val as h = Some h' \<and> kh_inv h'
     \<and> kh_lookup h' = fold map_step as (kh_lookup h)"
  using assms
proof (induction "as" arbitrary: h c)
  case Nil
  then show ?case by simp
next
  case (Cons a "as")
  have "table_room h" using Cons.prems(2,4) by (simp add: table_room_def)
  from table_step_works [OF Cons.prems(1) this, of junk_key junk_val a] obtain h1 where
    h1: "table_step junk_key junk_val a h = Some h1" "kh_inv h1" "kh_lookup h1 = map_step a (kh_lookup h)"
    "kh_n_buckets h1 \<le> max (kh_n_buckets h) (4 * Suc (kh_size h))" "kh_size h1 \<le> Suc (kh_size h)"
    by blast
  have "kh_n_buckets h1 \<le> 4 * Suc c" "kh_size h1 \<le> Suc c" "Suc c + length as \<le> 2 ^ 28"
    using h1(4,5) Cons.prems(2-4) by simp_all
  from Cons.IH [OF h1(2) this] h1(1,3) show ?case by simp
qed

text \<open>
  C9: the open-addressing table behaves as a map. Any sequence of up to \<open>2 ^ 28\<close> stores and
  releases on the fresh table returns - every probing loop ends, through growth, rehashing and
  deleted buckets - and afterwards kh_get finds each key exactly when the map has it, at the bucket
  with its value.
\<close>

theorem trap_table_refines_map:
  assumes "length as \<le> 2 ^ 28"
  shows "\<exists>h. table_run junk_key junk_val as kh_init = Some h
     \<and> (\<forall>key. \<exists>k. kh_get h key = Some k
          \<and> fold map_step as (\<lambda>_. None) key
            = (if k = kh_n_buckets h then None else Some (kh_vals h ! k)))"
proof -
  have "kh_n_buckets (kh_init :: 'a kh_table) \<le> 4 * 0" "kh_size (kh_init :: 'a kh_table) \<le> 0"
    by (simp_all add: kh_init_def)
  from table_run_works [OF kh_init_inv this, of "as" junk_key junk_val] assms
  have "\<exists>h. table_run junk_key junk_val as kh_init = Some h \<and> kh_inv h
      \<and> kh_lookup h = fold map_step as (\<lambda>_. None)" by simp
  then obtain h where
    h: "table_run junk_key junk_val as kh_init = Some h" "kh_inv h"
    "kh_lookup h = fold map_step as (\<lambda>_. None)" by blast
  from h(1) show ?thesis
    using kh_get_lookup [OF h(2)] by (intro exI [of _ h]) (metis (full_types) h(3))
qed

abbreviation sample_ops :: "nat table_op list" where
  "sample_ops \<equiv> [Store_op 5 10, Store_op 9 11, Store_op 13 12, Store_op 17 13, Release_op 9,
     Store_op 21 14, Release_op 1]"

theorem trap_table_refines_map_witness:
  "\<exists>h. table_run 0 0 sample_ops kh_init = Some h
     \<and> (\<forall>key. \<exists>k. kh_get h key = Some k
          \<and> fold map_step sample_ops (\<lambda>_. None) key
            = (if k = kh_n_buckets h then None else Some (kh_vals h ! k)))"
  by (rule trap_table_refines_map) simp

text \<open>
  Kroundup32 rounds up to a power of two: for an argument from 1 to \<open>2 ^ 31\<close> the result is
  the least power of two that is not smaller.
\<close>

theorem kroundup32_least:
  assumes "1 \<le> unat x" and "unat x \<le> 2 ^ 31"
  shows "\<exists>m. unat (kroundup32 x) = 2 ^ m \<and> unat x \<le> 2 ^ m \<and> (\<forall>k. unat x \<le> 2 ^ k \<longrightarrow> m \<le> k)"
proof (cases "unat x = 1")
  case True
  then have "x = 1" by (metis unat_1 word_unat_eq_iff)
  then show ?thesis using kroundup32_1 by (intro exI [of _ 0]) simp
next
  case False
  define m where "m = (LEAST k. unat x \<le> 2 ^ k)"
  have up: "unat x \<le> 2 ^ m" unfolding m_def using assms(2) by (rule LeastI)
  have least: "unat x \<le> 2 ^ k \<Longrightarrow> m \<le> k" for k unfolding m_def by (rule Least_le)
  have "m \<noteq> 0" using up False assms(1) by (cases m) auto
  then obtain k where k: "m = Suc k" by (cases m) auto
  have "2 ^ k < unat x" using least [of k] k by (meson not_less_eq_eq not_le order_refl)
  moreover have "m \<le> 31" using least assms(2) by auto
  ultimately have "unat (kroundup32 x) = 2 ^ m"
    using up k by (simp only: kroundup32_up)
  with up least show ?thesis by auto
qed

theorem kroundup32_least_witness:
  "\<exists>m. unat (kroundup32 5) = 2 ^ m \<and> (5 :: nat) \<le> 2 ^ m \<and> (\<forall>k. (5 :: nat) \<le> 2 ^ k \<longrightarrow> m \<le> k)"
  using kroundup32_least [of 5] by simp

lemma ac_fsize_positive: "ac_fsize n = 0 \<longleftrightarrow> False"
  by (auto simp: ac_fsize_def div_eq_0_iff)

text \<open>Clearing empties the map and keeps the buckets, so the cleared table can be used on.\<close>

lemma kh_clear_empties:
  assumes "kh_inv h"
  shows "kh_inv (kh_clear h) \<and> kh_lookup (kh_clear h) = (\<lambda>_. None) \<and> kh_n_buckets (kh_clear h) = kh_n_buckets h"
proof (cases "kh_flags h = []")
  case True
  with assms have "h = kh_init"
    by (auto simp: kh_inv_def kh_built_def ac_fsize_positive)
  then show ?thesis by (simp add: kh_clear_def) (simp add: kh_init_def)
next
  case False
  with assms obtain m where m: "kh_built m h" by (auto simp: kh_inv_def kh_init_def)
  then have n: "kh_n_buckets h = 2 ^ m" by (simp add: kh_built_def)
  have none: "live (kh_clear h) = {}" "occupied (kh_clear h) = {}"
    using False n by (auto simp: live_def occupied_def kh_clear_def ac_iseither_bits all_empty)
  have "kh_built m (kh_clear h)"
    using m none False by (simp add: kh_built_def) (simp add: kh_clear_def all_empty_flags_def)
  moreover have "kh_lookup (kh_clear h) = (\<lambda>_. None)"
    using none(1) by (simp add: fun_eq_iff kh_lookup_None)
  ultimately show ?thesis using False by (auto simp: kh_inv_def kh_clear_def)
qed

end
