(* ===== verification/Trap_Mode.thy ===== *)
theory Trap_Mode
  imports Processing_Unit Trap_Table_Laws
begin

text \<open>
  The single-step trap mode of processing_unit.c against a specification over a map of held tokens:
  the results of user instructions are held back and announced to the trap code, whose answer
  releases or drops them.
\<close>

section \<open>Runs of the processing unit\<close>

text \<open>The packets are executed in order, and the outgoing tokens collected.\<close>

fun processing_unit_run :: "bool \<Rightarrow> pu_env \<Rightarrow> execution_packet list \<Rightarrow> pu_state
    \<Rightarrow> (pu_state \<times> token_type list) outcome" where
  "processing_unit_run trap_flag env [] st = Ok (st, [])"
| "processing_unit_run trap_flag env (p # ps) st =
     outcome_bind (processing_unit_step trap_flag env p st) (\<lambda>(st1, out1).
     outcome_bind (processing_unit_run trap_flag env ps st1) (\<lambda>(st2, out2). Ok (st2, out1 @ out2)))"

definition pu_init :: pu_state where
  "pu_init = \<lparr>pu_random_calls = 0, pu_hash_table = kh_init\<rparr>"

section \<open>The specification\<close>

text \<open>
  What happens to the results of one packet: they are sent; or they are intercepted, and three
  tokens for each are sent to the trap code instead; or the packet is the answer of the trap code,
  and the token held under its key is sent or dropped.
\<close>

datatype trap_event =
  Sent "token_type list"
| Intercepted "token_type list" "token_type list"
| Answered "token_type list"

fun event_tokens :: "trap_event \<Rightarrow> token_type list" where
  "event_tokens (Sent ts) = ts"
| "event_tokens (Intercepted ts notices) = notices"
| "event_tokens (Answered ts) = ts"

type_synonym trap_state = "nat \<times> (u64 \<Rightarrow> token_type option)"

definition trap_key :: "pu_env \<Rightarrow> nat \<Rightarrow> destination_type" where
  "trap_key env calls = ucast (env_random env (Suc calls))"

definition trap_notice :: "pu_env \<Rightarrow> destination_type \<Rightarrow> token_type \<Rightarrow> nat \<Rightarrow> token_type list" where
  "trap_notice env input token calls =
     (let tag = ucast (ucast (env_random env calls) :: u32)
      in [\<lparr>tok_destination = 0, tok_data = hash (ucast input), tok_tag = tag\<rparr>,
          \<lparr>tok_destination = 16, tok_data = hash (ucast (tok_destination token)), tok_tag = tag\<rparr>,
          \<lparr>tok_destination = 32, tok_data = ucast (trap_key env calls), tok_tag = tag\<rparr>])"

fun hold_tokens :: "pu_env \<Rightarrow> destination_type \<Rightarrow> token_type list \<Rightarrow> trap_state
    \<Rightarrow> trap_state \<times> token_type list" where
  "hold_tokens env input [] s = (s, [])"
| "hold_tokens env input (t # ts) (calls, held) =
     (let (s', notices) = hold_tokens env input ts (calls + 2, held(ucast (trap_key env calls) \<mapsto> t))
      in (s', trap_notice env input t calls @ notices))"

definition user_address :: "execution_packet \<Rightarrow> bool" where
  "user_address p \<longleftrightarrow> 100 \<le> unat (DESTINATION_TO_ADDRESS (pkt_input p)) mod 65536"

definition trap_spec :: "bool \<Rightarrow> pu_env \<Rightarrow> execution_packet \<Rightarrow> trap_state
    \<Rightarrow> (trap_state \<times> trap_event) outcome" where
  "trap_spec trap_flag env p s = (case s of (calls, held) \<Rightarrow>
     outcome_bind (function_unit env calls p) (\<lambda>(result, calls').
       let key = ucast (tok_destination (output_1 result)) in
       if trap_flag \<and> pkt_opcode p = opcode_val RTD \<and> held key \<noteq> None
       then Ok ((calls', held(key := None)),
              Answered (if tok_data (output_1 result) = 1 then [the (held key)] else []))
       else if trap_flag \<and> user_address p
       then let (s', notices) = hold_tokens env (pkt_input p) (send_result result) (calls', held)
            in Ok (s', Intercepted (send_result result) notices)
       else Ok ((calls', held), Sent (send_result result))))"

fun trap_spec_run :: "bool \<Rightarrow> pu_env \<Rightarrow> execution_packet list \<Rightarrow> trap_state
    \<Rightarrow> (trap_state \<times> trap_event list) outcome" where
  "trap_spec_run trap_flag env [] s = Ok (s, [])"
| "trap_spec_run trap_flag env (p # ps) s =
     outcome_bind (trap_spec trap_flag env p s) (\<lambda>(s1, e).
     outcome_bind (trap_spec_run trap_flag env ps s1) (\<lambda>(s2, es). Ok (s2, e # es)))"

section \<open>The code refines the specification\<close>

definition pu_abs :: "pu_state \<Rightarrow> trap_state" where
  "pu_abs st = (pu_random_calls st, kh_lookup (pu_hash_table st))"

text \<open>The table is well formed and has taken at most \<open>c\<close> tokens.\<close>

definition pu_ok :: "nat \<Rightarrow> pu_state \<Rightarrow> bool" where
  "pu_ok c st \<longleftrightarrow> kh_inv (pu_hash_table st) \<and> kh_n_buckets (pu_hash_table st) \<le> 4 * c
     \<and> kh_size (pu_hash_table st) \<le> c"

lemma outcome_bind_cong:
  "f = f' \<Longrightarrow> (\<And>x. f' = Ok x \<Longrightarrow> g x = g' x) \<Longrightarrow> outcome_bind f g = outcome_bind f' g'"
  by (cases f') auto

lemma trap_check: "TRAP_CODE_LIMIT \<le> ucast (DESTINATION_TO_ADDRESS (pkt_input p)) \<longleftrightarrow> user_address p"
proof -
  have "unat (ucast (DESTINATION_TO_ADDRESS (pkt_input p)) :: 16 word)
      = unat (DESTINATION_TO_ADDRESS (pkt_input p)) mod 65536"
    by (simp add: unsigned_ucast_eq take_bit_eq_mod)
  moreover have "unat (100 :: 16 word) = 100" by simp
  ultimately show ?thesis
    by (simp only: user_address_def TRAP_CODE_LIMIT_def word_le_nat_alt)
qed

lemma trap_destinations:
  "CREATE_DESTINATION 0 INPUT_ONE MATCHING_ONE = 0" "CREATE_DESTINATION 1 INPUT_ONE MATCHING_ONE = 16"
  "CREATE_DESTINATION 2 INPUT_ONE MATCHING_ONE = 32"
  by (simp_all add: CREATE_DESTINATION_def INPUT_ONE_def MATCHING_ONE_def)

lemma single_step_token_holds:
  assumes ok: "pu_ok c st" and c: "c < 2 ^ 28"
  shows "\<exists>st'. single_step_token env input token st
       = Ok (st', trap_notice env input token (pu_random_calls st)) \<and> pu_ok (Suc c) st'
     \<and> pu_abs st' = (pu_random_calls st + 2,
          (kh_lookup (pu_hash_table st))(ucast (trap_key env (pu_random_calls st)) \<mapsto> token))"
proof -
  let ?h = "pu_hash_table st" and ?key = "ucast (trap_key env (pu_random_calls st)) :: u64"
  have inv: "kh_inv ?h" and room: "kh_n_buckets ?h < 2 ^ 31" and room': "table_room ?h"
    using ok c by (simp_all add: pu_ok_def table_room_def)
  from kh_put_works [OF inv room, of "env_junk_key env" "env_junk_token env" ?key] obtain h' x r m where
    put: "kh_put (env_junk_key env) (env_junk_token env) ?key ?h = Some (h', x, r)"
    "kh_n_buckets h' \<le> max (kh_n_buckets ?h) (4 * Suc (kh_size ?h))" "kh_size h' \<le> Suc (kh_size ?h)"
    "kh_built m (kh_set_value x token h')"
    "kh_lookup (kh_set_value x token h') = (kh_lookup ?h)(?key \<mapsto> token)" by blast
  then have "kh_inv (kh_set_value x token h')" by (auto simp: kh_inv_def)
  moreover have "kh_n_buckets (kh_set_value x token h') = kh_n_buckets h'"
    "kh_size (kh_set_value x token h') = kh_size h'" by (simp_all add: kh_set_value_def)
  moreover have "max (kh_n_buckets ?h) (4 * Suc (kh_size ?h)) \<le> 4 * Suc c" "kh_size h' \<le> Suc c"
    using put(3) ok by (simp_all add: pu_ok_def)
  moreover from this(1) put(2) have "kh_n_buckets h' \<le> 4 * Suc c" by (rule order_trans [rotated])
  ultimately show ?thesis
    using put(1,4,5)
    by (simp add: single_step_token_def Let_def trap_key_def [symmetric] pu_abs_def pu_ok_def
        trap_notice_def new_tag_area_def trap_destinations)
qed

text \<open>What one packet does to the abstract state, in the vocabulary of the code's output.\<close>

definition step_view :: "(pu_state \<times> token_type list) outcome \<Rightarrow> (trap_state \<times> token_type list) outcome" where
  "step_view r = outcome_bind r (\<lambda>(st, out). Ok (pu_abs st, out))"

lemma emit_result_holds:
  assumes ok: "pu_ok c st" and c: "c + 2 \<le> 2 ^ 28"
  shows "\<exists>st' out. emit_result trap_flag env p result st = Ok (st', out) \<and> pu_ok (c + 2) st'
     \<and> (if trap_flag \<and> user_address p
        then hold_tokens env (pkt_input p) (send_result result) (pu_abs st) = (pu_abs st', out)
        else st' = st \<and> out = send_result result)"
proof -
  have more: "pu_ok (c + 2) st'" if "pu_ok d st'" "d \<le> c + 2" for d st'
    using that by (auto simp: pu_ok_def)
  from single_step_token_holds [OF ok, of env "pkt_input p" "output_1 result"] c obtain st1 where
    one: "single_step_token env (pkt_input p) (output_1 result) st
       = Ok (st1, trap_notice env (pkt_input p) (output_1 result) (pu_random_calls st))"
    "pu_ok (Suc c) st1"
    "pu_abs st1 = (pu_random_calls st + 2, (kh_lookup (pu_hash_table st))
       (ucast (trap_key env (pu_random_calls st)) \<mapsto> output_1 result))" by auto
  from single_step_token_holds [OF one(2), of env "pkt_input p" "output_2 result"] c obtain st2 where
    two: "single_step_token env (pkt_input p) (output_2 result) st1
       = Ok (st2, trap_notice env (pkt_input p) (output_2 result) (pu_random_calls st1))"
    "pu_ok (Suc (Suc c)) st2"
    "pu_abs st2 = (pu_random_calls st1 + 2, (kh_lookup (pu_hash_table st1))
       (ucast (trap_key env (pu_random_calls st1)) \<mapsto> output_2 result))" by auto
  have st1: "pu_random_calls st1 = pu_random_calls st + 2"
    "kh_lookup (pu_hash_table st1) = (kh_lookup (pu_hash_table st))
       (ucast (trap_key env (pu_random_calls st)) \<mapsto> output_1 result)"
    using one(3) by (simp_all add: pu_abs_def)
  show ?thesis
  proof (cases "trap_flag \<and> user_address p")
    case False
    moreover from this have "emit_result trap_flag env p result st = Ok (st, send_result result)"
      by (auto simp: emit_result_def trap_check)
    ultimately show ?thesis using more [OF ok] by auto
  next
    case True
    show ?thesis
    proof (cases "res_marker result = BOTH_OUTPUT_MARKER")
      case both: True
      with True one(1) two more [OF two(2)] st1 show ?thesis
        by (simp add: emit_result_def trap_check send_result_def pu_abs_def Let_def)
    next
      case False
      with True one more [OF one(2)] show ?thesis
        by (simp add: emit_result_def trap_check send_result_def pu_abs_def [of st])
    qed
  qed
qed

lemma processing_unit_step_refines:
  assumes ok: "pu_ok c st" and c: "c + 2 \<le> 2 ^ 28"
  shows "step_view (processing_unit_step trap_flag env p st)
       = outcome_bind (trap_spec trap_flag env p (pu_abs st)) (\<lambda>(s, e). Ok (s, event_tokens e))"
    and "processing_unit_step trap_flag env p st = Ok (st', out) \<Longrightarrow> pu_ok (c + 2) st'"
proof -
  let ?R = "\<lambda>r. step_view r
       = outcome_bind (trap_spec trap_flag env p (pu_abs st)) (\<lambda>(s, e). Ok (s, event_tokens e))
     \<and> (\<forall>st' out. r = Ok (st', out) \<longrightarrow> pu_ok (c + 2) st')"
  have "?R (processing_unit_step trap_flag env p st)"
  proof (cases "function_unit env (pu_random_calls st) p")
    case (Exit e)
    then show ?thesis
      by (simp add: processing_unit_step_def trap_spec_def pu_abs_def step_view_def)
  next
    case Fault
    then show ?thesis
      by (simp add: processing_unit_step_def trap_spec_def pu_abs_def step_view_def)
  next
    case (Ok rc)
    then obtain result calls where fu: "function_unit env (pu_random_calls st) p = Ok (result, calls)"
      by (cases rc) auto
    let ?st0 = "st\<lparr>pu_random_calls := calls\<rparr>" and ?h = "pu_hash_table st"
    let ?key = "ucast (tok_destination (output_1 result)) :: u64"
    have ok0: "pu_ok c ?st0" using ok by (simp add: pu_ok_def)
    have abs0: "pu_abs ?st0 = (calls, kh_lookup ?h)" by (simp add: pu_abs_def)
    from emit_result_holds [OF ok0 c, of trap_flag env p result] obtain st1 out where
      emit: "emit_result trap_flag env p result ?st0 = Ok (st1, out)" "pu_ok (c + 2) st1"
      "if trap_flag \<and> user_address p
        then hold_tokens env (pkt_input p) (send_result result) (pu_abs ?st0) = (pu_abs st1, out)
        else st1 = ?st0 \<and> out = send_result result" by blast
    have inv: "kh_inv ?h" using ok by (simp add: pu_ok_def)
    from kh_get_lookup [OF inv, of ?key] obtain k where k: "kh_get ?h ?key = Some k"
      "if k = kh_n_buckets ?h then kh_lookup ?h ?key = None
       else k \<in> live ?h \<and> kh_keys ?h ! k = ?key \<and> kh_lookup ?h ?key = Some (kh_vals ?h ! k)" by blast
    show ?thesis
    proof (cases "trap_flag \<and> pkt_opcode p = opcode_val RTD \<and> kh_lookup ?h ?key \<noteq> None")
      case True
      then have here: "k \<noteq> kh_n_buckets ?h" "k \<in> live ?h" "kh_lookup ?h ?key = Some (kh_vals ?h ! k)"
        using k(2) by (auto split: if_splits)
      have del: "kh_del k ?h = table_del ?key ?h" by (simp add: table_del_def k(1))
      have "kh_n_buckets (kh_del k ?h) = kh_n_buckets ?h" "kh_size (kh_del k ?h) \<le> kh_size ?h"
        by (simp_all add: kh_del_def)
      with True ok table_del_works [OF inv, of ?key]
      have "pu_ok (c + 2) (?st0\<lparr>pu_hash_table := kh_del k ?h\<rparr>)"
        "pu_abs (?st0\<lparr>pu_hash_table := kh_del k ?h\<rparr>) = (calls, (kh_lookup ?h)(?key := None))"
        by (simp_all add: pu_ok_def pu_abs_def del)
      with True here k(1) fu show ?thesis
        by (simp add: processing_unit_step_def trap_spec_def step_view_def pu_abs_def [of st] Let_def)
    next
      case False
      then have "processing_unit_step trap_flag env p st = emit_result trap_flag env p result ?st0"
        using k fu by (auto simp: processing_unit_step_def Let_def)
      with False emit fu show ?thesis
        by (auto simp: trap_spec_def step_view_def pu_abs_def [of st] abs0 Let_def split: if_splits)
    qed
  qed
  then show "step_view (processing_unit_step trap_flag env p st)
       = outcome_bind (trap_spec trap_flag env p (pu_abs st)) (\<lambda>(s, e). Ok (s, event_tokens e))"
    "processing_unit_step trap_flag env p st = Ok (st', out) \<Longrightarrow> pu_ok (c + 2) st'" by auto
qed

lemma processing_unit_run_refines:
  assumes "pu_ok c st" and "c + 2 * length ps \<le> 2 ^ 28"
  shows "step_view (processing_unit_run trap_flag env ps st)
       = outcome_bind (trap_spec_run trap_flag env ps (pu_abs st))
           (\<lambda>(s, es). Ok (s, concat (map event_tokens es)))"
  using assms
proof (induction ps arbitrary: st c)
  case Nil
  then show ?case by (simp add: step_view_def)
next
  case (Cons p ps)
  have c: "c + 2 \<le> 2 ^ 28" using Cons.prems(2) by simp
  note step = processing_unit_step_refines [OF Cons.prems(1) c, of trap_flag env p]
  show ?case
  proof (cases "processing_unit_step trap_flag env p st")
    case (Ok r)
    obtain st1 out1 where r: "processing_unit_step trap_flag env p st = Ok (st1, out1)"
      using Ok by (cases r) auto
    from step(1) obtain e where e: "trap_spec trap_flag env p (pu_abs st) = Ok (pu_abs st1, e)"
      "event_tokens e = out1"
      unfolding r by (cases "trap_spec trap_flag env p (pu_abs st)") (auto simp: step_view_def)
    have "pu_ok (c + 2) st1" using step(2) r by simp
    from Cons.IH [OF this] Cons.prems(2)
    have IH: "step_view (processing_unit_run trap_flag env ps st1)
       = outcome_bind (trap_spec_run trap_flag env ps (pu_abs st1))
           (\<lambda>(s, es). Ok (s, concat (map event_tokens es)))" by simp
    show ?thesis
    proof (cases "processing_unit_run trap_flag env ps st1")
      case (Ok r2)
      with IH r e show ?thesis
        by (cases "trap_spec_run trap_flag env ps (pu_abs st1)") (auto simp: step_view_def split: prod.splits)
    next
      case (Exit x)
      with IH r e show ?thesis
        by (cases "trap_spec_run trap_flag env ps (pu_abs st1)") (auto simp: step_view_def)
    next
      case Fault
      with IH r e show ?thesis
        by (cases "trap_spec_run trap_flag env ps (pu_abs st1)") (auto simp: step_view_def)
    qed
  next
    case (Exit x)
    with step(1) show ?thesis
      by (cases "trap_spec trap_flag env p (pu_abs st)") (auto simp: step_view_def)
  next
    case Fault
    with step(1) show ?thesis
      by (cases "trap_spec trap_flag env p (pu_abs st)") (auto simp: step_view_def)
  qed
qed

lemma pu_init_ok: "pu_ok 0 pu_init" "pu_abs pu_init = (0, \<lambda>_. None)"
  by (simp_all add: pu_ok_def pu_init_def pu_abs_def) (simp_all add: kh_init_def)

section \<open>Properties of the trap mode\<close>

text \<open>
  C8: the loop of the processing unit, with its hash table of held tokens, implements the
  specification over a map of held tokens: for up to \<open>2 ^ 27\<close> packets it emits the same tokens in
  the same order, exits exactly when the specification does and with the same status, and the table
  holds exactly the tokens of the map.
\<close>

theorem processing_unit_refines_trap_spec:
  assumes "length ps \<le> 2 ^ 27"
  shows "outcome_bind (processing_unit_run trap_flag env ps pu_init)
       (\<lambda>(st, out). Ok ((pu_random_calls st, kh_lookup (pu_hash_table st)), out))
     = outcome_bind (trap_spec_run trap_flag env ps (0, \<lambda>_. None))
       (\<lambda>(s, es). Ok (s, concat (map event_tokens es)))"
  using processing_unit_run_refines [OF pu_init_ok(1), of ps trap_flag env] assms
  by (simp add: step_view_def pu_abs_def pu_init_ok(2) [unfolded pu_abs_def])

text \<open>A user packet at address 240 whose result is trapped, and the answer of the trap code.\<close>

abbreviation user_packet :: execution_packet where
  "user_packet \<equiv> (sample_packet ADD 3 4 0)\<lparr>pkt_input := 3840, pkt_marker := 0\<rparr>"

abbreviation zero_env :: pu_env where
  "zero_env \<equiv> sample_env\<lparr>env_random := (\<lambda>n. 0)\<rparr>"

abbreviation trap_answer :: execution_packet where
  "trap_answer \<equiv> (sample_packet RTD 1 0 0)\<lparr>pkt_input := 48, pkt_marker := 0\<rparr>"

theorem processing_unit_refines_trap_spec_witness:
  "outcome_bind (processing_unit_run True zero_env [user_packet, trap_answer] pu_init)
       (\<lambda>(st, out). Ok ((pu_random_calls st, kh_lookup (pu_hash_table st)), out))
     = outcome_bind (trap_spec_run True zero_env [user_packet, trap_answer] (0, \<lambda>_. None))
       (\<lambda>(s, es). Ok (s, concat (map event_tokens es)))"
  by (rule processing_unit_refines_trap_spec) simp

text \<open>The results that were intercepted, and the held tokens that were sent on.\<close>

definition intercepted_tokens :: "trap_event list \<Rightarrow> token_type multiset" where
  "intercepted_tokens es = mset (concat (map (\<lambda>e. case e of Intercepted ts ns \<Rightarrow> ts | _ \<Rightarrow> []) es))"

definition answered_tokens :: "trap_event list \<Rightarrow> token_type multiset" where
  "answered_tokens es = mset (concat (map (\<lambda>e. case e of Answered ts \<Rightarrow> ts | _ \<Rightarrow> []) es))"

text \<open>What an event says about its packet.\<close>

definition event_of_packet :: "pu_env \<Rightarrow> execution_packet \<Rightarrow> trap_event \<Rightarrow> bool" where
  "event_of_packet env p e = (case e of
     Sent ts \<Rightarrow> \<not> user_address p
   | Intercepted ts notices \<Rightarrow> user_address p
       \<and> (\<exists>calls result calls'. function_unit env calls p = Ok (result, calls') \<and> ts = send_result result)
       \<and> length notices = 3 * length ts
       \<and> (\<forall>t\<in>set notices. DESTINATION_TO_ADDRESS (tok_destination t) < 3)
   | Answered ts \<Rightarrow> pkt_opcode p = opcode_val RTD \<and> length ts \<le> 1)"

lemma map_contents_upd:
  assumes "finite (dom m)"
  shows "map_contents (m(k \<mapsto> v)) \<subseteq># add_mset v (map_contents m)"
proof (cases "m k")
  case None
  with assms show ?thesis by (simp add: map_contents_insert)
next
  case (Some w)
  have "map_contents (m(k \<mapsto> v)) = map_contents ((m(k := None))(k \<mapsto> v))" by simp
  also have "\<dots> = add_mset v (map_contents (m(k := None)))"
    using assms by (intro map_contents_insert) auto
  finally show ?thesis using map_contents_delete [OF assms Some] by simp
qed

lemma hold_tokens_contents:
  assumes "finite (dom (snd s))" and "hold_tokens env input ts s = (s', notices)"
  shows "finite (dom (snd s')) \<and> map_contents (snd s') \<subseteq># mset ts + map_contents (snd s)
     \<and> length notices = 3 * length ts
     \<and> (\<forall>t\<in>set notices. DESTINATION_TO_ADDRESS (tok_destination t) < 3)"
  using assms
proof (induction ts arbitrary: s s' notices)
  case Nil
  then show ?case by simp
next
  case (Cons t ts)
  obtain calls held where s: "s = (calls, held)" by (cases s)
  let ?k = "ucast (trap_key env calls) :: u64"
  obtain s1 n1 where h: "hold_tokens env input ts (calls + 2, held(?k \<mapsto> t)) = (s1, n1)"
    by (cases "hold_tokens env input ts (calls + 2, held(?k \<mapsto> t))")
  have fin: "finite (dom held)" using Cons.prems(1) s by simp
  have fin2: "finite (dom (snd (calls + 2, held(?k \<mapsto> t))))" using fin by simp
  from Cons.IH [OF fin2 h] have IH: "finite (dom (snd s1))"
    "map_contents (snd s1) \<subseteq># mset ts + map_contents (held(?k \<mapsto> t))" "length n1 = 3 * length ts"
    "\<forall>t\<in>set n1. DESTINATION_TO_ADDRESS (tok_destination t) < 3"
    unfolding snd_conv by blast+
  have out: "s' = s1" "notices = trap_notice env input t calls @ n1"
    using Cons.prems(2) h s by simp_all
  have "map_contents (snd s1) \<subseteq># mset ts + add_mset t (map_contents held)"
    using IH(2) map_contents_upd [OF fin] by (meson subset_mset.add_left_mono subset_mset.order_trans)
  moreover have "length (trap_notice env input t calls) = 3"
    "\<forall>t\<in>set (trap_notice env input t calls). DESTINATION_TO_ADDRESS (tok_destination t) < 3"
    by (simp_all add: trap_notice_def Let_def DESTINATION_TO_ADDRESS_def)
  ultimately show ?case using IH out s by auto
qed

lemma trap_spec_event:
  assumes fin: "finite (dom (snd s))" and step: "trap_spec True env p s = Ok (s', e)"
  shows "finite (dom (snd s')) \<and> event_of_packet env p e
     \<and> answered_tokens [e] + map_contents (snd s') \<subseteq># intercepted_tokens [e] + map_contents (snd s)"
proof -
  obtain calls held where s: "s = (calls, held)" by (cases s)
  then have fin': "finite (dom held)" using fin by simp
  from step obtain result calls' where fu: "function_unit env calls p = Ok (result, calls')"
    unfolding s trap_spec_def by (cases "function_unit env calls p") auto
  let ?key = "ucast (tok_destination (output_1 result)) :: u64"
  consider (answer) t where "pkt_opcode p = opcode_val RTD" "held ?key = Some t"
    | (user) "\<not> (pkt_opcode p = opcode_val RTD \<and> held ?key \<noteq> None)" "user_address p"
    | (other) "\<not> (pkt_opcode p = opcode_val RTD \<and> held ?key \<noteq> None)" "\<not> user_address p"
    by blast
  then show ?thesis
  proof cases
    case answer
    have "map_contents held = add_mset t (map_contents (held(?key := None)))"
      by (rule map_contents_delete [OF fin' answer(2)])
    with answer step fu fin' show ?thesis
      by (auto simp: s trap_spec_def Let_def event_of_packet_def answered_tokens_def intercepted_tokens_def)
  next
    case user
    obtain s1 notices where h: "hold_tokens env (pkt_input p) (send_result result) (calls', held) = (s1, notices)"
      by (cases "hold_tokens env (pkt_input p) (send_result result) (calls', held)")
    from step fu user h have out: "s' = s1" "e = Intercepted (send_result result) notices"
      unfolding s trap_spec_def by (auto simp: Let_def)
    from hold_tokens_contents [OF _ h] fin' fu user(2) show ?thesis
      unfolding out s
      by (auto simp: event_of_packet_def answered_tokens_def intercepted_tokens_def)
  next
    case other
    with step fu have "s' = (calls', held)" "e = Sent (send_result result)"
      unfolding s trap_spec_def by (auto simp: Let_def)
    with other fin' show ?thesis
      by (simp add: s event_of_packet_def answered_tokens_def intercepted_tokens_def)
  qed
qed

lemma trap_spec_run_events:
  assumes "finite (dom (snd s))" and "trap_spec_run True env ps s = Ok (s', es)"
  shows "list_all2 (event_of_packet env) ps es
     \<and> answered_tokens es + map_contents (snd s') \<subseteq># intercepted_tokens es + map_contents (snd s)"
  using assms
proof (induction ps arbitrary: s es)
  case Nil
  then show ?case by (simp add: answered_tokens_def intercepted_tokens_def)
next
  case (Cons p ps)
  from Cons.prems(2) obtain s1 e where step: "trap_spec True env p s = Ok (s1, e)"
    by (cases "trap_spec True env p s") auto
  with Cons.prems(2) obtain es' where rest: "trap_spec_run True env ps s1 = Ok (s', es')"
    and es: "es = e # es'"
    by (cases "trap_spec_run True env ps s1") auto
  note one = trap_spec_event [OF Cons.prems(1) step]
  from Cons.IH [OF _ rest] one have IH: "list_all2 (event_of_packet env) ps es'"
    "answered_tokens es' + map_contents (snd s') \<subseteq># intercepted_tokens es' + map_contents (snd s1)"
    by auto
  have split: "answered_tokens es = answered_tokens [e] + answered_tokens es'"
    "intercepted_tokens es = intercepted_tokens [e] + intercepted_tokens es'"
    by (simp_all add: es answered_tokens_def intercepted_tokens_def)
  have "answered_tokens [e] + (answered_tokens es' + map_contents (snd s'))
      \<subseteq># answered_tokens [e] + (intercepted_tokens es' + map_contents (snd s1))"
    using IH(2) by (rule subset_mset.add_left_mono)
  also have "\<dots> = (answered_tokens [e] + map_contents (snd s1)) + intercepted_tokens es'"
    by (simp add: ac_simps)
  also have "\<dots> \<subseteq># (intercepted_tokens [e] + map_contents (snd s)) + intercepted_tokens es'"
    using one by (intro subset_mset.add_right_mono) simp
  finally have "answered_tokens es + map_contents (snd s') \<subseteq># intercepted_tokens es + map_contents (snd s)"
    unfolding split by (simp add: ac_simps)
  moreover have "list_all2 (event_of_packet env) ps es' \<and> event_of_packet env p e"
    using one IH(1) by blast
  ultimately show ?case unfolding es by simp
qed

text \<open>
  What leaves the processing unit in trap mode. Each packet gives one event, in order: results
  go out directly only from packets whose instruction address is below 100 modulo \<open>2 ^ 16\<close>; the
  results of every other packet are kept, and three tokens for the instructions 0, 1 and 2 of the
  trap code go out for each; and a kept token goes out only as the answer to an RTD. No kept token
  goes out twice, or goes out and stays in the table.
\<close>

theorem trap_mode_confines:
  assumes "length ps \<le> 2 ^ 27" and "processing_unit_run True env ps pu_init = Ok (st, out)"
  shows "\<exists>es. out = concat (map event_tokens es) \<and> list_all2 (event_of_packet env) ps es
     \<and> answered_tokens es + map_contents (kh_lookup (pu_hash_table st)) \<subseteq># intercepted_tokens es"
proof -
  have "step_view (processing_unit_run True env ps pu_init)
     = outcome_bind (trap_spec_run True env ps (0, \<lambda>_. None)) (\<lambda>(s, es). Ok (s, concat (map event_tokens es)))"
    using processing_unit_run_refines [OF pu_init_ok(1), of ps True env] assms(1) by (simp add: pu_init_ok(2))
  with assms(2) obtain s es where run: "trap_spec_run True env ps (0, \<lambda>_. None) = Ok (s, es)"
    and out: "out = concat (map event_tokens es)" and s: "s = pu_abs st"
    by (cases "trap_spec_run True env ps (0, \<lambda>_. None)") (auto simp: step_view_def)
  from trap_spec_run_events [OF _ run] out s show ?thesis by (auto simp: pu_abs_def)
qed

theorem trap_mode_confines_witness:
  "\<exists>st es. processing_unit_run True zero_env [user_packet, trap_answer] pu_init
       = Ok (st, concat (map event_tokens es))
     \<and> list_all2 (event_of_packet zero_env) [user_packet, trap_answer] es
     \<and> answered_tokens es + map_contents (kh_lookup (pu_hash_table st)) \<subseteq># intercepted_tokens es"
proof -
  let ?run = "processing_unit_run True zero_env [user_packet, trap_answer] pu_init"
  have "is_ok ?run" by code_simp
  then obtain st out where "?run = Ok (st, out)" by (cases ?run) auto
  with trap_mode_confines [OF _ this] show ?thesis by auto
qed

text \<open>
  The hash under which the trap code sees instruction addresses has no collisions: different
  32-bit destinations have different hashes.
\<close>

theorem trap_hash_injective:
  "hash (ucast d) = hash (ucast e) \<longleftrightarrow> d = e" for d e :: destination_type
proof
  assume eq: "hash (ucast d) = hash (ucast e)"
  have bit: "bit (hash (ucast x)) k \<longleftrightarrow> k < 32 \<and> (bit x k \<noteq> (11 \<le> k \<and> bit x (k - 11)))"
    for x :: destination_type and k
    by (auto simp: hash_def kh_int64_hash_func_def bit_simps dest: bit_imp_le_length)
  have "bit d k = bit e k" if "k < 32" for k
    using that
  proof (induction k rule: less_induct)
    case (less k)
    have "bit (hash (ucast d)) k = bit (hash (ucast e)) k" using eq by simp
    then have "(bit d k \<noteq> (11 \<le> k \<and> bit d (k - 11))) = (bit e k \<noteq> (11 \<le> k \<and> bit e (k - 11)))"
      using less.prems by (simp add: bit)
    moreover have "11 \<le> k \<Longrightarrow> bit d (k - 11) = bit e (k - 11)"
      using less.IH [of "k - 11"] less.prems by simp
    ultimately show ?case by auto
  qed
  then show "d = e" by (intro bit_word_eqI) simp
qed simp

end
