(* ===== verification/Loaded_Code.thy ===== *)
theory Loaded_Code
  imports Instruction_Store Trap_Mode
begin

text \<open>
  Code that a LOD has loaded, between instruction_store.c and processing_unit.c: how the packets that start
  it are numbered, and what trap mode makes of the numbers.
\<close>

section \<open>The packets that start loaded code\<close>

lemma load_image_info:
  assumes "load_image content is_privileged cs = Ok (cs', Some info)"
  shows "lci_instructions info = length (cs_instructions cs)
     \<and> lci_instructions info + lci_current_num_instructions info = length (cs_instructions cs')"
  using load_image_cases [OF assms]
  by (auto dest!: resolve_references_spec simp: loaded_as_def split: if_splits)

lemma load_file_info:
  assumes "load_file malloc fd is_privileged cs = Ok (cs', Some info)"
  shows "lci_instructions info = length (cs_instructions cs)
     \<and> lci_instructions info + lci_current_num_instructions info = length (cs_instructions cs')"
proof -
  from assms obtain content where "load_image content is_privileged cs = Ok (cs', Some info)"
    by (auto simp: load_file_def outcome_bind_Ok_iff split: option.splits)
  then show ?thesis by (rule load_image_info)
qed

text \<open>The check for trap code looks at the number in the packet only.\<close>

lemma started_below_limit:
  assumes "starts_as inst i p"
  shows "user_address p \<longleftrightarrow> 100 \<le> i mod 65536"
proof -
  have "unat (DESTINATION_TO_ADDRESS (pkt_input p)) mod 65536 = i mod 65536"
    using assms by (simp add: starts_as_def mod_mod_cancel)
  then show ?thesis by (simp add: user_address_def)
qed

lemma not_trapped:
  assumes "\<not> user_address p" and "pkt_opcode p \<noteq> opcode_val RTD"
  shows "processing_unit_step True env p st = processing_unit_step False env p st"
  using assms by (simp add: processing_unit_step_def emit_result_def trap_check [symmetric])

text \<open>
  C30: the numbers of loaded code. When a LOD succeeds, the packets behind the two that call main are those
  of the new instructions that need no token - both operands literal, or one literal and an opcode with
  one operand -, in order, with their opcodes, literals, destinations and no tag. But the instruction at
  place \<open>start + i\<close> of the store is given the number \<open>i\<close>; so, when \<open>i\<close> is below 100 modulo \<open>2 ^ 16\<close>, and it is
  no RTD, the processing unit with trap mode executes it as it would without, wherever it has been loaded.
\<close>

theorem loaded_code_misnumbered:
  assumes "load_instruction env inst address pair cs = Ok (cs', ps)"
    and "se_open env (c_string (take 7 (le_bytes 8 (tok_data (token_1 pair))))) = Some fd"
    and "load_file (se_malloc env) fd False cs = Ok (cs', Some info)"
    and "start = length (cs_instructions cs)"
  shows "\<exists>ready. ps = call_packets inst (tok_data (token_2 pair)) (tok_tag (token_1 pair)) address (lci_exports info) @ ready
    \<and> list_all2 (\<lambda>i p. starts_as (cs_instructions cs' ! (start + i)) i p
         \<and> (i mod 2 ^ 16 < 100 \<and> pkt_opcode p \<noteq> opcode_val RTD \<longrightarrow>
              (\<forall>env st. processing_unit_step True env p st = processing_unit_step False env p st)))
       (filter (\<lambda>i. needs_no_token (cs_instructions cs' ! (start + i))) [0..<length (cs_instructions cs') - start]) ready"
proof -
  let ?new = "drop start (cs_instructions cs')"
  have loaded: "take (lci_current_num_instructions info) (drop (lci_instructions info) (cs_instructions cs')) = ?new"
    using load_file_info [OF assms(3)] assms(4) by auto
  obtain ready where ready: "add_ready_instructions 0 ?new = Ok ready"
    and ps: "ps = call_packets inst (tok_data (token_2 pair)) (tok_tag (token_1 pair)) address (lci_exports info) @ ready"
    using assms(1-3) loaded by (auto simp: load_instruction_def Let_def outcome_bind_Ok_iff)
  have short: "start \<le> length (cs_instructions cs')" using load_file_info [OF assms(3)] assms(4) by auto
  have numbered: "filter (needs_no_token \<circ> snd) (enumerate 0 ?new)
      = map (\<lambda>i. (i, cs_instructions cs' ! (start + i)))
          (filter (\<lambda>i. needs_no_token (cs_instructions cs' ! (start + i))) [0..<length (cs_instructions cs') - start])"
  proof -
    have "enumerate 0 ?new = map (\<lambda>i. (i, cs_instructions cs' ! (start + i))) [0..<length (cs_instructions cs') - start]"
      using short by (intro nth_equalityI) (simp_all add: nth_enumerate_eq)
    then show ?thesis by (simp add: filter_map comp_def)
  qed
  have "list_all2 (\<lambda>i p. starts_as (cs_instructions cs' ! (start + i)) i p)
      (filter (\<lambda>i. needs_no_token (cs_instructions cs' ! (start + i))) [0..<length (cs_instructions cs') - start]) ready"
    using add_ready_starts [OF ready] unfolding numbered by (simp add: list_all2_map1)
  then have "list_all2 (\<lambda>i p. starts_as (cs_instructions cs' ! (start + i)) i p
         \<and> (i mod 2 ^ 16 < 100 \<and> pkt_opcode p \<noteq> opcode_val RTD \<longrightarrow>
              (\<forall>env st. processing_unit_step True env p st = processing_unit_step False env p st)))
       (filter (\<lambda>i. needs_no_token (cs_instructions cs' ! (start + i))) [0..<length (cs_instructions cs') - start]) ready"
    by (rule list_all2_mono) (use started_below_limit not_trapped in \<open>auto simp del: opcode_val.simps\<close>)
  with ps show ?thesis by blast
qed

text \<open>A program with one instruction, loaded behind two hundred others.\<close>

definition long_store :: code_store where
  "long_store = \<lparr>cs_instructions = replicate 200 (sample_instruction ADD), cs_exports = []\<rparr>"

definition load_os_pair :: ready_token_pair_type where
  "load_os_pair = (sample_pair 0x736f 4)"

definition loaded_os_instruction :: instruction where
  "loaded_os_instruction = relocate_instruction [] [] 200 False 0 (img_instructions os_image ! 0)"

theorem loaded_code_misnumbered_witness:
  "\<exists>cs' p. load_instruction os_env (sample_instruction LOD) 0 load_os_pair long_store = Ok (cs', [p])
     \<and> length (cs_instructions long_store) = 200 \<and> cs_instructions cs' ! 200 = loaded_os_instruction
     \<and> starts_as loaded_os_instruction 0 p"
proof -
  let ?cs' = "\<lparr>cs_instructions = cs_instructions long_store @ [loaded_os_instruction], cs_exports = []\<rparr>"
  have load: "load_file zero_malloc (image_file os_image) False long_store = Ok (?cs', Some (loaded_as 200 os_image))"
  proof -
    have "image_of_bytes (image_bytes os_image) = Some os_image"
      using image_roundtrip_bytes [of os_image] by (simp add: image_fits_def os_image_def)
    then have "load_image (image_bytes os_image) False long_store = Ok (?cs', Some (loaded_as 200 os_image))"
      by (simp add: load_image_def relocate_all_def loaded_as_def Let_def long_store_def loaded_os_instruction_def)
        (simp add: os_image_def)
    then show ?thesis by (simp add: load_image_file os_image_length)
  qed
  have name: "c_string (take 7 (le_bytes 8 (tok_data (token_1 load_os_pair)))) = [111, 115]" by code_simp
  have opened: "se_open os_env (c_string (take 7 (le_bytes 8 (tok_data (token_1 load_os_pair))))) = Some (image_file os_image)"
    unfolding name by (simp add: os_env_def)
  have fields: "inst_instruction_literal loaded_os_instruction = literal_val TWO"
    by (simp add: loaded_os_instruction_def relocate_fields os_image_def)
  then have starts: "needs_no_token loaded_os_instruction" by (simp add: needs_no_token_def)
  have "\<exists>p. load_instruction os_env (sample_instruction LOD) 0 load_os_pair long_store = Ok (?cs', [p])"
    using load opened fields
    by (simp add: load_instruction_def Let_def loaded_as_def call_packets_def last_export_def long_store_def
        os_image_def os_env_def)
  then obtain p where p: "load_instruction os_env (sample_instruction LOD) 0 load_os_pair long_store = Ok (?cs', [p])" ..
  have "load_file (se_malloc os_env) (image_file os_image) False long_store = Ok (?cs', Some (loaded_as 200 os_image))"
    using load by (simp add: os_env_def)
  from loaded_code_misnumbered [OF p opened this refl] starts p show ?thesis
    by (auto simp: long_store_def nth_append call_packets_def last_export_def loaded_as_def os_image_def)
qed

end
