(* ===== verification/Input_Module.thy ===== *)
theory Input_Module
  imports Machine_Types
begin

text \<open>
  input_module.c: the process between the instruction store and the processing unit that answers the
  file opcodes with system calls and turns them into DUP packets. The system is a parameter: a record
  of functions on a state \<open>'w\<close> of the world, each of which may give no result, when the call does not
  return in this world: a read from a terminal at which nobody has typed, a shell that waits.
\<close>

section \<open>System calls\<close>

text \<open>
  File descriptors and int results are 32-bit words, ssize_t and off_t 64-bit words. read(fd, &c, 1)
  returns its result and what is then in c.
\<close>

record 'w posix =
  px_open :: "byte list \<Rightarrow> u32 \<Rightarrow> u32 \<Rightarrow> 'w \<Rightarrow> (u32 \<times> 'w) option"
  px_read :: "u32 \<Rightarrow> 'w \<Rightarrow> (u64 \<times> byte \<times> 'w) option"
  px_write :: "u32 \<Rightarrow> byte \<Rightarrow> 'w \<Rightarrow> (u64 \<times> 'w) option"
  px_close :: "u32 \<Rightarrow> 'w \<Rightarrow> (u32 \<times> 'w) option"
  px_system :: "byte list \<Rightarrow> 'w \<Rightarrow> (u32 \<times> 'w) option"
  px_unlink :: "byte list \<Rightarrow> 'w \<Rightarrow> (u32 \<times> 'w) option"
  px_lseek :: "u32 \<Rightarrow> u64 \<Rightarrow> 'w \<Rightarrow> (u64 \<times> 'w) option"

definition O_RDONLY :: u32 where "O_RDONLY = 0"
definition O_WRONLY :: u32 where "O_WRONLY = 1"
definition O_RDWR :: u32 where "O_RDWR = 2"
definition O_CREAT :: u32 where "O_CREAT = 0x40"
definition O_TRUNC :: u32 where "O_TRUNC = 0x200"

definition FILE_READ_ONLY :: u32 where "FILE_READ_ONLY = 0"
definition FILE_WRITE_ONLY :: u32 where "FILE_WRITE_ONLY = 1"
definition FILE_READ_WRITE :: u32 where "FILE_READ_WRITE = 2"
definition FILE_CREATE :: u32 where "FILE_CREATE = 0x10"
definition FILE_TRUNCATE :: u32 where "FILE_TRUNCATE = 0x20"

definition FLAG_TO_RW_MODE :: "u32 \<Rightarrow> u32" where
  "FLAG_TO_RW_MODE f = f AND 3"

section \<open>The handlers\<close>

definition os_flags_of :: "u32 \<Rightarrow> u32" where
  "os_flags_of machine_flags =
     (let f0 = 0;
          f1 = (if FLAG_TO_RW_MODE machine_flags = FILE_READ_ONLY then f0 OR O_RDONLY
                else if FLAG_TO_RW_MODE machine_flags = FILE_WRITE_ONLY then f0 OR O_WRONLY
                else if FLAG_TO_RW_MODE machine_flags = FILE_READ_WRITE then f0 OR O_RDWR
                else f0);
          f2 = (if machine_flags AND FILE_CREATE \<noteq> 0 then f1 OR O_CREAT else f1)
      in if machine_flags AND FILE_TRUNCATE \<noteq> 0 then f2 OR O_TRUNC else f2)"

text \<open>
  strncpy of 8 bytes into filename[9] and the NUL behind it; the string the system call reads.
\<close>

definition filename_of :: "data_type \<Rightarrow> byte list" where
  "filename_of data =
     (let source = le_bytes 8 data;
          filename = take 8 (c_string source @ replicate 8 0) @ [0]
      in c_string filename)"

text \<open>The answer of a handler: DUP with a new first operand.\<close>

definition answer :: "execution_packet \<Rightarrow> data_type \<Rightarrow> execution_packet" where
  "answer p v = p\<lparr>pkt_opcode := opcode_val DUP, pkt_data_1 := v\<rparr>"

text \<open>The loop of SDF, which need not end; \<open>input\<close> is the byte read last.\<close>

partial_function (option) sendfile_loop :: "'w posix \<Rightarrow> u32 \<Rightarrow> u32 \<Rightarrow> u32 \<Rightarrow> byte \<Rightarrow> 'w
    \<Rightarrow> (u32 \<times> 'w) option" where
  "sendfile_loop px in_fd out_fd result input w =
     (if result = 1
      then (case px_write px out_fd input w of
              None \<Rightarrow> None
            | Some (written, w1) \<Rightarrow>
                if ucast written = (1 :: u32)
                then (case px_read px in_fd w1 of
                        None \<Rightarrow> None
                      | Some (got, byte, w2) \<Rightarrow> sendfile_loop px in_fd out_fd (ucast got) byte w2)
                else sendfile_loop px in_fd out_fd (ucast written) input w1)
      else Some (result, w))"

definition ls_command :: "byte list" where
  "ls_command = map of_char ''/bin/ls''"

text \<open>The cases of the switch. The mode 0600 of open() is 384.\<close>

definition handle_open :: "'w posix \<Rightarrow> execution_packet \<Rightarrow> 'w \<Rightarrow> (execution_packet \<times> 'w) option" where [simp]:
  "handle_open px p w =
     map_option (\<lambda>(new_fd, w'). (answer p (scast new_fd), w'))
       (px_open px (filename_of (pkt_data_1 p)) (os_flags_of (ucast (pkt_data_2 p))) 384 w)"

definition handle_read :: "'w posix \<Rightarrow> execution_packet \<Rightarrow> 'w \<Rightarrow> (execution_packet \<times> 'w) option" where [simp]:
  "handle_read px p w =
     map_option (\<lambda>(result, input, w'). (answer p (if ucast result = (1 :: u32) then ucast input else - 1), w'))
       (px_read px (ucast (pkt_data_1 p)) w)"

definition handle_write :: "'w posix \<Rightarrow> execution_packet \<Rightarrow> 'w \<Rightarrow> (execution_packet \<times> 'w) option" where [simp]:
  "handle_write px p w =
     map_option (\<lambda>(result, w'). (answer p (if ucast result = (1 :: u32) then TRUE else FALSE), w'))
       (px_write px (ucast (pkt_data_1 p)) (ucast (pkt_data_2 p)) w)"

definition handle_close :: "'w posix \<Rightarrow> execution_packet \<Rightarrow> 'w \<Rightarrow> (execution_packet \<times> 'w) option" where [simp]:
  "handle_close px p w =
     map_option (\<lambda>(result, w'). (answer p (if result = 0 then TRUE else FALSE), w'))
       (px_close px (ucast (pkt_data_1 p)) w)"

definition handle_ls :: "'w posix \<Rightarrow> execution_packet \<Rightarrow> 'w \<Rightarrow> (execution_packet \<times> 'w) option" where [simp]:
  "handle_ls px p w = map_option (\<lambda>(result, w'). (answer p (scast result), w')) (px_system px ls_command w)"

definition handle_sendfile :: "'w posix \<Rightarrow> execution_packet \<Rightarrow> 'w \<Rightarrow> (execution_packet \<times> 'w) option" where [simp]:
  "handle_sendfile px p w =
     (let in_fd = ucast (pkt_data_1 p); out_fd = ucast (pkt_data_2 p)
      in case px_read px in_fd w of
           None \<Rightarrow> None
         | Some (got, byte, w1) \<Rightarrow> map_option (\<lambda>(result, w'). (answer p (scast result), w'))
             (sendfile_loop px in_fd out_fd (ucast got) byte w1))"

definition handle_unlink :: "'w posix \<Rightarrow> execution_packet \<Rightarrow> 'w \<Rightarrow> (execution_packet \<times> 'w) option" where [simp]:
  "handle_unlink px p w =
     map_option (\<lambda>(result, w'). (answer p (scast result), w')) (px_unlink px (filename_of (pkt_data_1 p)) w)"

definition handle_seek :: "'w posix \<Rightarrow> execution_packet \<Rightarrow> 'w \<Rightarrow> (execution_packet \<times> 'w) option" where [simp]:
  "handle_seek px p w =
     map_option (\<lambda>(result, w'). (answer p result, w')) (px_lseek px (ucast (pkt_data_1 p)) (pkt_data_2 p) w)"

text \<open>One iteration of the loop of run_input_module: None when a system call, or SDF, does not return.\<close>

definition input_module_step :: "'w posix \<Rightarrow> execution_packet \<Rightarrow> 'w \<Rightarrow> (execution_packet \<times> 'w) option" where
  "input_module_step px p w =
     (case opcode_of (pkt_opcode p) of
        Some OPN \<Rightarrow> handle_open px p w
      | Some RED \<Rightarrow> handle_read px p w
      | Some WRT \<Rightarrow> handle_write px p w
      | Some CLS \<Rightarrow> handle_close px p w
      | Some LS \<Rightarrow> handle_ls px p w
      | Some SDF \<Rightarrow> handle_sendfile px p w
      | Some ULK \<Rightarrow> handle_unlink px p w
      | Some LSK \<Rightarrow> handle_seek px p w
      | _ \<Rightarrow> Some (p, w))"

text \<open>The loop over a sequence of packets.\<close>

fun input_module_run :: "'w posix \<Rightarrow> execution_packet list \<Rightarrow> 'w \<Rightarrow> (execution_packet list \<times> 'w) option" where
  "input_module_run px [] w = Some ([], w)"
| "input_module_run px (p # ps) w = (case input_module_step px p w of None \<Rightarrow> None
     | Some (p', w1) \<Rightarrow> map_option (\<lambda>(ps', w2). (p' # ps', w2)) (input_module_run px ps w1))"

text \<open>The file descriptors among the operands.\<close>

definition descriptors_of :: "execution_packet \<Rightarrow> u32 list" where
  "descriptors_of p =
     (case opcode_of (pkt_opcode p) of
        Some SDF \<Rightarrow> [ucast (pkt_data_1 p), ucast (pkt_data_2 p)]
      | Some op \<Rightarrow> if op \<in> {RED, WRT, CLS, LSK} then [ucast (pkt_data_1 p)] else []
      | None \<Rightarrow> [])"

section \<open>Properties\<close>

text \<open>The opcodes this module answers.\<close>

definition file_opcodes :: "opcode_type set" where
  "file_opcodes = {OPN, RED, WRT, CLS, LS, SDF, ULK, LSK}"

text \<open>A result of read() or write() as an int.\<close>

definition int_result :: "u64 \<Rightarrow> int" where
  "int_result r = signed_take_bit 31 (uint r)"

lemma int_result: "int_result r = sint (ucast r :: u32)"
  by (simp add: int_result_def sint_uint unsigned_ucast_eq take_bit_word_eq_self signed_take_bit_take_bit)

lemma int_result_one: "int_result r = 1 \<longleftrightarrow> ucast r = (1 :: u32)"
  using signed_word_eqI [of "ucast r" "1 :: u32"] by (auto simp: int_result)

text \<open>
  What SDF is to do: bytes are read and written, one by one, until a read or a write gives something else
  than 1, and that is the result.
\<close>

inductive transfer :: "'w posix \<Rightarrow> u32 \<Rightarrow> u32 \<Rightarrow> 'w \<Rightarrow> int \<Rightarrow> 'w \<Rightarrow> bool" for px in_fd out_fd where
  read_ends: "px_read px in_fd w = Some (got, b, w') \<Longrightarrow> int_result got \<noteq> 1
     \<Longrightarrow> transfer px in_fd out_fd w (int_result got) w'"
| write_ends: "px_read px in_fd w = Some (got, b, w1) \<Longrightarrow> int_result got = 1
     \<Longrightarrow> px_write px out_fd b w1 = Some (written, w') \<Longrightarrow> int_result written \<noteq> 1
     \<Longrightarrow> transfer px in_fd out_fd w (int_result written) w'"
| copies: "px_read px in_fd w = Some (got, b, w1) \<Longrightarrow> int_result got = 1
     \<Longrightarrow> px_write px out_fd b w1 = Some (written, w2) \<Longrightarrow> int_result written = 1
     \<Longrightarrow> transfer px in_fd out_fd w2 v w' \<Longrightarrow> transfer px in_fd out_fd w v w'"

text \<open>
  The system call of each file opcode on the operands \<open>a\<close> and \<open>b\<close>, and what the packet is answered: the
  result of open(), unlink(), lseek(), the shell, or the copying; the byte read, or -1; 1 for a byte that
  has been written and a file that has been closed, else 0.
\<close>

definition open_flags :: "data_type \<Rightarrow> u32" where
  "open_flags b = (if uint b mod 4 = 1 then O_WRONLY else if uint b mod 4 = 2 then O_RDWR else O_RDONLY)
     OR (if bit b 4 then O_CREAT else 0) OR (if bit b 5 then O_TRUNC else 0)"

inductive file_call :: "'w posix \<Rightarrow> opcode_type \<Rightarrow> data_type \<Rightarrow> data_type \<Rightarrow> 'w \<Rightarrow> int \<Rightarrow> 'w \<Rightarrow> bool" for px where
  opened: "px_open px (takeWhile (\<lambda>c. c \<noteq> 0) (le_bytes 8 a)) (open_flags b) 0x180 w = Some (fd, w')
     \<Longrightarrow> file_call px OPN a b w (sint fd) w'"
| byte_read: "px_read px (ucast a) w = Some (r, c, w') \<Longrightarrow> int_result r = 1 \<Longrightarrow> file_call px RED a b w (uint c) w'"
| no_byte_read: "px_read px (ucast a) w = Some (r, c, w') \<Longrightarrow> int_result r \<noteq> 1 \<Longrightarrow> file_call px RED a b w (- 1) w'"
| byte_written: "px_write px (ucast a) (ucast b) w = Some (r, w') \<Longrightarrow> int_result r = 1 \<Longrightarrow> file_call px WRT a b w 1 w'"
| no_byte_written: "px_write px (ucast a) (ucast b) w = Some (r, w') \<Longrightarrow> int_result r \<noteq> 1 \<Longrightarrow> file_call px WRT a b w 0 w'"
| closed: "px_close px (ucast a) w = Some (0, w') \<Longrightarrow> file_call px CLS a b w 1 w'"
| not_closed: "px_close px (ucast a) w = Some (r, w') \<Longrightarrow> r \<noteq> 0 \<Longrightarrow> file_call px CLS a b w 0 w'"
| listed: "px_system px (map of_char ''/bin/ls'') w = Some (r, w') \<Longrightarrow> file_call px LS a b w (sint r) w'"
| copied: "transfer px (ucast a) (ucast b) w v w' \<Longrightarrow> file_call px SDF a b w v w'"
| unlinked: "px_unlink px (takeWhile (\<lambda>c. c \<noteq> 0) (le_bytes 8 a)) w = Some (r, w')
     \<Longrightarrow> file_call px ULK a b w (sint r) w'"
| sought: "px_lseek px (ucast a) b w = Some (r, w') \<Longrightarrow> file_call px LSK a b w (sint r) w'"

inductive_simps file_call_simps: "file_call px OPN a b w v w'" "file_call px RED a b w v w'"
  "file_call px WRT a b w v w'" "file_call px CLS a b w v w'" "file_call px LS a b w v w'"
  "file_call px SDF a b w v w'" "file_call px ULK a b w v w'" "file_call px LSK a b w v w'"

text \<open>
  The flags of OPN. The low two bits choose read, write or both - the unused value 3 gives read
  only -, 0x10 is create and 0x20 truncate, and no other bit reaches open().
\<close>

theorem open_flags_mapping:
  "os_flags_of f = (if f AND 3 = 3 then 0 else f AND 3)
     OR (if bit f 4 then O_CREAT else 0) OR (if bit f 5 then O_TRUNC else 0)"
proof -
  have create: "f AND FILE_CREATE \<noteq> 0 \<longleftrightarrow> bit f 4"
    unfolding word_eq_0_bits by (auto simp: FILE_CREATE_def bit_simps intro!: exI [of _ 4])
  have truncate: "f AND FILE_TRUNCATE \<noteq> 0 \<longleftrightarrow> bit f 5"
    unfolding word_eq_0_bits by (auto simp: FILE_TRUNCATE_def bit_simps intro!: exI [of _ 5])
  have "f AND 3 = take_bit 2 f" by (rule bit_word_eqI) (auto simp: bit_simps)
  then have "unat (f AND 3) = take_bit 2 (unat f)" by (simp only: unsigned_take_bit_eq)
  then have "unat (f AND 3) < 4" using take_bit_nat_less_exp [of 2 "unat f"] by simp
  moreover have small: "w = 0 \<or> w = 1 \<or> w = 2 \<or> w = 3" if "unat w < 4" for w :: u32
    using that unfolding word_unat_eq_iff by (simp, linarith)
  ultimately have "f AND 3 \<in> {0, 1, 2, 3}" by blast
  then show ?thesis
    unfolding os_flags_of_def Let_def create truncate
    by (auto simp: FLAG_TO_RW_MODE_def FILE_READ_ONLY_def FILE_WRITE_ONLY_def FILE_READ_WRITE_def
        O_RDONLY_def O_WRONLY_def O_RDWR_def or.assoc)
qed

lemma filename_of_c_string: "filename_of data = c_string (le_bytes 8 data)"
proof -
  let ?s = "c_string (le_bytes 8 data)"
  have "length ?s \<le> 8" using length_c_string [of "le_bytes 8 data"] by simp
  then have "take 8 (?s @ replicate 8 0) @ [0] = ?s @ 0 # replicate (8 - length ?s) 0"
    by (simp add: replicate_append_same)
  then show ?thesis
    by (simp add: filename_of_def Let_def c_string_append_nul c_string_no_nul)
qed

text \<open>
  A file name of up to eight bytes packed into an operand reaches open() and unlink() as it is.
\<close>

theorem filename_roundtrip:
  assumes "length name \<le> 8" and "0 \<notin> set name"
  shows "filename_of (le_word (name @ replicate (8 - length name) 0)) = name"
proof -
  have "le_bytes 8 (le_word (name @ replicate (8 - length name) 0) :: u64) = name @ replicate (8 - length name) 0"
    using assms(1) by (intro le_bytes_le_word) simp_all
  moreover have "c_string (name @ replicate k 0) = name" for k
  proof (cases k)
    case 0
    have "\<forall>x\<in>set name. x \<noteq> 0" using assms(2) by blast
    then have "takeWhile (\<lambda>b. b \<noteq> 0) name = name" by (simp only: takeWhile_eq_all_conv)
    with 0 show ?thesis by (simp add: c_string_def)
  next
    case (Suc j)
    with assms(2) show ?thesis by (simp add: c_string_append_nul)
  qed
  ultimately show ?thesis by (simp add: filename_of_c_string)
qed

text \<open>SDF.\<close>

definition sendfile :: "'w posix \<Rightarrow> u32 \<Rightarrow> u32 \<Rightarrow> 'w \<Rightarrow> (u32 \<times> 'w) option" where
  "sendfile px in_fd out_fd w = (case px_read px in_fd w of None \<Rightarrow> None
     | Some (got, byte, w1) \<Rightarrow> sendfile_loop px in_fd out_fd (ucast got) byte w1)"

lemma sendfile_transfers:
  assumes "transfer px in_fd out_fd w v w'"
  shows "\<exists>r :: u32. v = sint r \<and> sendfile px in_fd out_fd w = Some (r, w')"
  using assms
proof induction
  case (copies w got b w1 written w2 v w')
  then have "sendfile px in_fd out_fd w = sendfile px in_fd out_fd w2"
    by (auto simp: sendfile_def sendfile_loop.simps [of px in_fd out_fd 1 b w1] int_result_one split: option.splits)
  with copies.IH show ?case by simp
qed (auto simp: sendfile_def sendfile_loop.simps int_result_one intro: int_result)

lemma sendfile_loop_transfer:
  assumes "sendfile_loop px in_fd out_fd result b w = Some (r, w')"
  shows "if result = 1 then \<forall>w0 got. px_read px in_fd w0 = Some (got, b, w) \<and> ucast got = (1 :: u32)
       \<longrightarrow> transfer px in_fd out_fd w0 (sint r) w'
     else r = result \<and> w' = w"
proof -
  let ?P = "\<lambda>px in_fd out_fd result b w (r :: u32, w'). if result = 1
     then \<forall>w0 got. px_read px in_fd w0 = Some (got, b, w) \<and> ucast got = (1 :: u32)
       \<longrightarrow> transfer px in_fd out_fd w0 (sint r) w'
     else r = result \<and> w' = w"
  have "?P px in_fd out_fd result b w (r, w')"
  proof (rule sendfile_loop.raw_induct [where P = ?P, OF _ assms])
    fix loop and px :: "'a posix" and in_fd out_fd result b w y
    assume IH: "\<And>px in_fd out_fd result b w y. loop px in_fd out_fd result b w = Some y
        \<Longrightarrow> ?P px in_fd out_fd result b w y"
      and eq: "(if result = 1 then case px_write px out_fd b w of None \<Rightarrow> None
          | Some (written, w1) \<Rightarrow> if ucast written = (1 :: u32)
            then case px_read px in_fd w1 of None \<Rightarrow> None
              | Some (got, byte, w2) \<Rightarrow> loop px in_fd out_fd (ucast got) byte w2
            else loop px in_fd out_fd (ucast written) b w1
        else Some (result, w)) = Some y"
    obtain r' :: u32 and w' where y: "y = (r', w')" by (cases y)
    show "?P px in_fd out_fd result b w y"
    proof (cases "result = 1")
      case True
      have "transfer px in_fd out_fd w0 (sint r') w'"
        if read: "px_read px in_fd w0 = Some (got, b, w)" and got: "ucast got = (1 :: u32)" for w0 got
      proof -
        from eq True obtain written w1 where wrote: "px_write px out_fd b w = Some (written, w1)"
          by (auto split: option.splits)
        show ?thesis
        proof (cases "ucast written = (1 :: u32)")
          case False
          with eq True wrote have "loop px in_fd out_fd (ucast written) b w1 = Some y" by simp
          from IH [OF this] have "if ucast written = (1 :: u32) then \<forall>w0 got. px_read px in_fd w0 = Some (got, b, w1)
              \<and> ucast got = (1 :: u32) \<longrightarrow> transfer px in_fd out_fd w0 (sint r') w'
            else r' = ucast written \<and> w' = w1" by (simp only: y prod.case)
          with False have "r' = ucast written" "w' = w1" by (simp_all only: if_False)
          moreover have "int_result written \<noteq> 1" "int_result got = 1" using False got by (simp_all add: int_result_one)
          ultimately show ?thesis using write_ends [OF read _ wrote] by (simp add: int_result)
        next
          case wrote_one: True
          with eq True wrote obtain got2 c w2 where read2: "px_read px in_fd w1 = Some (got2, c, w2)"
            and rest: "loop px in_fd out_fd (ucast got2) c w2 = Some y" by (auto split: option.splits)
          have "transfer px in_fd out_fd w1 (sint r') w'"
          proof (cases "ucast got2 = (1 :: u32)")
            case True
            with IH [OF rest] read2 show ?thesis by (simp add: y)
          next
            case False
            with IH [OF rest] have "r' = ucast got2" "w' = w2" by (simp_all add: y)
            moreover have "int_result got2 \<noteq> 1" using False by (simp add: int_result_one)
            ultimately show ?thesis using read_ends [OF read2, of out_fd] by (simp add: int_result)
          qed
          with copies [OF read _ wrote] wrote_one got show ?thesis by (simp add: int_result_one)
        qed
      qed
      then show ?thesis unfolding y prod.case if_P [OF True] by blast
    qed (use eq in \<open>simp add: y\<close>)
  qed
  then show ?thesis by simp
qed

lemma transfer_iff:
  "transfer px in_fd out_fd w v w' \<longleftrightarrow> (\<exists>r :: u32. sendfile px in_fd out_fd w = Some (r, w') \<and> v = sint r)"
proof
  assume "\<exists>r :: u32. sendfile px in_fd out_fd w = Some (r, w') \<and> v = sint r"
  then obtain r :: u32 and got b w1 where v: "v = sint r" and read: "px_read px in_fd w = Some (got, b, w1)"
    and loop: "sendfile_loop px in_fd out_fd (ucast got) b w1 = Some (r, w')"
    by (auto simp: sendfile_def split: option.splits)
  show "transfer px in_fd out_fd w v w'"
  proof (cases "ucast got = (1 :: u32)")
    case True
    with sendfile_loop_transfer [OF loop] read show ?thesis by (simp add: v)
  next
    case False
    with sendfile_loop_transfer [OF loop] have "r = ucast got" "w' = w1" by simp_all
    moreover have "int_result got \<noteq> 1" using False by (simp add: int_result_one)
    ultimately show ?thesis using read_ends [OF read, of out_fd] by (simp add: int_result v)
  qed
qed (auto dest!: sendfile_transfers)

lemma handle_sendfile_eq: "handle_sendfile px p w = map_option (\<lambda>(result, w'). (answer p (scast result), w'))
    (sendfile px (ucast (pkt_data_1 p)) (ucast (pkt_data_2 p)) w)"
  by (auto simp: sendfile_def Let_def split: option.splits)

lemma open_flags: "os_flags_of (ucast b) = open_flags b"
proof -
  let ?f = "ucast b :: u32"
  have "?f AND 3 = take_bit 2 ?f" by (rule bit_word_eqI) (auto simp: bit_simps)
  then have low: "uint (?f AND 3) = uint b mod 4"
    by (simp only: unsigned_take_bit_eq unsigned_ucast_eq take_bit_take_bit) (simp add: take_bit_eq_mod)
  then have low: "?f AND 3 = word_of_int (uint b mod 4)" by (metis word_of_int_uint)
  have bits: "bit ?f 4 = bit b 4" "bit ?f 5 = bit b 5" by (simp_all add: bit_simps)
  have "0 \<le> uint b mod 4" "uint b mod 4 < 4" by simp_all
  then consider "uint b mod 4 = 0" | "uint b mod 4 = 1" | "uint b mod 4 = 2" | "uint b mod 4 = 3" by linarith
  then show ?thesis
    unfolding open_flags_mapping open_flags_def bits
    by cases (simp_all add: low O_RDONLY_def O_WRONLY_def O_RDWR_def)
qed

lemma file_call_iff:
  assumes "op \<in> file_opcodes" and "pkt_opcode p = opcode_val op"
  shows "input_module_step px p w = Some (p', w') \<longleftrightarrow> (\<exists>v. file_call px op (pkt_data_1 p) (pkt_data_2 p) w v w'
     \<and> p' = answer p (word_of_int v))"
proof -
  have op: "opcode_of (pkt_opcode p) = Some op" using assms(2) by (simp only: opcode_of_Some)
  note calls = input_module_step_def answer_def handle_sendfile_eq open_flags [symmetric] filename_of_c_string
    c_string_def ls_command_def TRUE_def FALSE_def file_call_simps int_result_one transfer_iff
  note [simp del] = handle_sendfile_def
  show ?thesis
  proof (cases op)
    case RED
    show ?thesis
    proof (cases "px_read px (ucast (pkt_data_1 p)) w")
      case None
      with op RED show ?thesis by (simp add: calls)
    next
      case (Some x)
      obtain r c w1 where "x = (r, c, w1)" by (cases x)
      with op RED Some show ?thesis by (cases "ucast r = (1 :: u32)") (auto simp: calls)
    qed
  next
    case OPN
    show ?thesis using op unfolding OPN by (auto simp: calls)
  next
    case WRT
    show ?thesis
    proof (cases "px_write px (ucast (pkt_data_1 p)) (ucast (pkt_data_2 p)) w")
      case None
      with op WRT show ?thesis by (simp add: calls)
    next
      case (Some x)
      obtain r w1 where "x = (r, w1)" by (cases x)
      with op WRT Some show ?thesis by (cases "ucast r = (1 :: u32)") (auto simp: calls)
    qed
  next
    case CLS
    show ?thesis
    proof (cases "px_close px (ucast (pkt_data_1 p)) w")
      case None
      with op CLS show ?thesis by (simp add: calls)
    next
      case (Some x)
      obtain r w1 where "x = (r, w1)" by (cases x)
      with op CLS Some show ?thesis by (cases "r = 0") (auto simp: calls)
    qed
  next
    case LS
    show ?thesis using op unfolding LS by (auto simp: calls)
  next
    case SDF
    show ?thesis using op unfolding SDF by (auto simp: calls)
  next
    case ULK
    show ?thesis using op unfolding ULK by (auto simp: calls)
  next
    case LSK
    show ?thesis using op unfolding LSK by (auto simp: calls)
  qed (use assms(1) in \<open>simp_all add: file_opcodes_def\<close>)
qed

lemma input_module_passes:
  assumes "\<And>op. op \<in> file_opcodes \<Longrightarrow> pkt_opcode p \<noteq> opcode_val op"
  shows "input_module_step px p w = Some (p, w)"
proof (cases "opcode_of (pkt_opcode p)")
  case (Some op)
  then have "op \<notin> file_opcodes" using assms [of op] by (auto simp: opcode_of_Some)
  with Some show ?thesis by (cases op) (simp_all add: input_module_step_def file_opcodes_def)
qed (simp add: input_module_step_def)

text \<open>
  C26: what the input module does with a packet. A packet with a file opcode is answered when, and only
  when, its system call returns: the call of its opcode, with the operands as arguments, and the packet
  that goes on is DUP with the answer as first operand and otherwise unchanged, so that the answer goes to
  the destinations of the instruction with its tag. Every other packet goes on unchanged, and without a
  system call.
\<close>

theorem input_module_answers:
  "input_module_step px p w = Some (p', w') \<longleftrightarrow>
     (if \<exists>op\<in>file_opcodes. pkt_opcode p = opcode_val op
      then \<exists>op v. pkt_opcode p = opcode_val op \<and> file_call px op (pkt_data_1 p) (pkt_data_2 p) w v w'
        \<and> p' = p\<lparr>pkt_opcode := opcode_val DUP, pkt_data_1 := word_of_int v\<rparr>
      else p' = p \<and> w' = w)"
proof (cases "\<exists>op\<in>file_opcodes. pkt_opcode p = opcode_val op")
  case True
  then obtain op where op: "op \<in> file_opcodes" "pkt_opcode p = opcode_val op" by blast
  with True file_call_iff [OF op, of px w p' w'] show ?thesis
    by (auto simp: opcode_val_inject answer_def simp del: opcode_val.simps)
next
  case False
  then have "input_module_step px p w = Some (p, w)" by (intro input_module_passes) blast
  with False show ?thesis by auto
qed

lemma sendfile_loop_copies:
  assumes reads: "\<And>w b bs. rest w = b # bs \<Longrightarrow> \<exists>w'. px_read px in_fd w = Some (1, b, w') \<and> rest w' = bs \<and> sent w' = sent w"
    and at_end: "\<And>w. rest w = [] \<Longrightarrow> \<exists>b w'. px_read px in_fd w = Some (0, b, w') \<and> rest w' = [] \<and> sent w' = sent w"
    and writes: "\<And>w b. \<exists>w'. px_write px out_fd b w = Some (1, w') \<and> rest w' = rest w \<and> sent w' = sent w @ [b]"
  shows "\<exists>w'. sendfile_loop px in_fd out_fd 1 b w = Some (0, w') \<and> rest w' = [] \<and> sent w' = sent w @ b # rest w"
proof (induction "rest w" arbitrary: w b)
  case Nil
  from writes [of b w] obtain w1 where w1: "px_write px out_fd b w = Some (1, w1)" "rest w1 = rest w"
    "sent w1 = sent w @ [b]" by auto
  from at_end [of w1] Nil w1 obtain c w2 where w2: "px_read px in_fd w1 = Some (0, c, w2)" "rest w2 = []"
    "sent w2 = sent w1" by auto
  from Nil w1 w2 show ?case
    by (simp add: sendfile_loop.simps [of px in_fd out_fd 1] sendfile_loop.simps [of px in_fd out_fd 0])
next
  case (Cons c cs)
  from writes [of b w] obtain w1 where w1: "px_write px out_fd b w = Some (1, w1)" "rest w1 = rest w"
    "sent w1 = sent w @ [b]" by auto
  from reads [of w1 c cs] Cons.hyps(2) w1 obtain w2 where w2: "px_read px in_fd w1 = Some (1, c, w2)"
    "rest w2 = cs" "sent w2 = sent w1" by auto
  from Cons.hyps(1) [of w2 c] w2 obtain w3 where w3: "sendfile_loop px in_fd out_fd 1 c w2 = Some (0, w3)"
    "rest w3 = []" "sent w3 = sent w2 @ c # rest w2" by auto
  have "sendfile_loop px in_fd out_fd 1 b w = sendfile_loop px in_fd out_fd 1 c w2"
    by (subst sendfile_loop.simps) (simp add: w1 w2)
  with w1 w2 w3 Cons.hyps(2) show ?case by simp
qed

text \<open>
  SDF returns and copies the rest of the input file, byte for byte, to the output file, and
  answers 0 - when reads deliver the file and then its end, writes succeed, and writing does not
  lengthen what is left to read.
\<close>

theorem sendfile_copies:
  assumes "pkt_opcode p = opcode_val SDF"
    and "\<And>w b bs. rest w = b # bs \<Longrightarrow>
      \<exists>w'. px_read px (ucast (pkt_data_1 p)) w = Some (1, b, w') \<and> rest w' = bs \<and> sent w' = sent w"
    and "\<And>w. rest w = [] \<Longrightarrow>
      \<exists>b w'. px_read px (ucast (pkt_data_1 p)) w = Some (0, b, w') \<and> rest w' = [] \<and> sent w' = sent w"
    and "\<And>w b. \<exists>w'. px_write px (ucast (pkt_data_2 p)) b w = Some (1, w') \<and> rest w' = rest w \<and> sent w' = sent w @ [b]"
  shows "\<exists>p' w'. input_module_step px p w = Some (p', w') \<and> pkt_data_1 p' = 0
     \<and> rest w' = [] \<and> sent w' = sent w @ rest w"
proof -
  have op: "opcode_of (pkt_opcode p) = Some SDF" using assms(1) by (simp only: opcode_of_Some)
  show ?thesis
  proof (cases "rest w")
    case Nil
    with assms(3) [of w] show ?thesis
      by (auto simp: input_module_step_def op Let_def sendfile_loop.simps answer_def)
  next
    case (Cons b bs)
    from assms(2) [OF this] obtain w1 where w1: "px_read px (ucast (pkt_data_1 p)) w = Some (1, b, w1)"
      "rest w1 = bs" "sent w1 = sent w" by auto
    obtain w2 where "sendfile_loop px (ucast (pkt_data_1 p)) (ucast (pkt_data_2 p)) 1 b w1 = Some (0, w2)"
      "rest w2 = []" "sent w2 = sent w1 @ b # rest w1"
      using sendfile_loop_copies [OF assms(2-4), of b w1] by auto
    with w1 Cons show ?thesis
      by (auto simp: input_module_step_def op Let_def answer_def)
  qed
qed

section \<open>The properties at concrete inputs\<close>

text \<open>A world of one file to read and one to write.\<close>

definition two_files :: "(byte list \<times> byte list) posix" where
  "two_files = \<lparr>px_open = (\<lambda>name flags mode w. Some (3, w)),
     px_read = (\<lambda>fd (inp, outp). Some (case inp of [] \<Rightarrow> (0, 0, (inp, outp)) | b # bs \<Rightarrow> (1, b, (bs, outp)))),
     px_write = (\<lambda>fd b (inp, outp). Some (1, (inp, outp @ [b]))),
     px_close = (\<lambda>fd w. Some (0, w)), px_system = (\<lambda>command w. Some (0, w)),
     px_unlink = (\<lambda>name w. Some (0, w)), px_lseek = (\<lambda>fd off w. Some (off, w))\<rparr>"

definition file_packet :: "opcode_type \<Rightarrow> execution_packet" where
  "file_packet op = \<lparr>pkt_data_1 = 3, pkt_data_2 = 4, pkt_opcode = opcode_val op, pkt_tag = 9,
     pkt_destination_1 = 16, pkt_destination_2 = 32, pkt_input = 48, pkt_marker = 0\<rparr>"

theorem input_module_answers_witness:
  "input_module_step two_files (file_packet RED) ([65, 66], [])
     = Some ((file_packet RED)\<lparr>pkt_opcode := opcode_val DUP, pkt_data_1 := 65\<rparr>, ([66], []))"
proof -
  have "file_call two_files RED (pkt_data_1 (file_packet RED)) b ([65, 66], []) (uint (65 :: byte)) ([66], [])" for b
    by (rule byte_read [where r = 1]) (simp_all add: two_files_def int_result)
  moreover have "pkt_opcode (file_packet RED) = opcode_val RED" by (simp add: file_packet_def)
  ultimately show ?thesis
    unfolding input_module_answers
    by (auto simp: file_opcodes_def opcode_val_inject simp del: opcode_val.simps intro!: exI [of _ "65 :: int"])
qed

theorem filename_roundtrip_witness:
  "filename_of (le_word ([0x66, 0x6c, 0x61, 0x67] @ replicate (8 - length [0x66, 0x6c, 0x61, 0x67 :: byte]) 0))
     = [0x66, 0x6c, 0x61, 0x67]"
  by (rule filename_roundtrip) simp_all

theorem sendfile_copies_witness:
  "\<exists>p' w'. input_module_step two_files (file_packet SDF) ([1, 2, 3], [9]) = Some (p', w')
     \<and> pkt_data_1 p' = 0 \<and> fst w' = [] \<and> snd w' = snd ([1 :: byte, 2, 3], [9 :: byte]) @ fst ([1 :: byte, 2, 3], [9 :: byte])"
  by (rule sendfile_copies) (auto simp: file_packet_def two_files_def split: list.splits)

end
