(* ===== verification/Queue_Descriptors.thy ===== *)
theory Queue_Descriptors
  imports Input_Module Struct_Layouts
begin

text \<open>
  queue.c and input_module.c together: queue_new leaves the descriptor of the shared memory open for
  reading and writing, fork hands it on, and the file opcodes take any descriptor. So the input module can
  read and write the rings themselves. Here the system calls on such a descriptor are put in front of
  those of the surroundings.
\<close>

section \<open>The rings as files\<close>

record queue_file =
  qf_queue :: nat
  qf_offset :: nat

text \<open>The open files of the queues after start_machine: \<open>fds\<close> are the shmem_fd in the order of the queues.\<close>

definition queue_files :: "u32 list \<Rightarrow> u32 \<Rightarrow> queue_file option" where
  "queue_files fds fd = map_option (\<lambda>k. \<lparr>qf_queue = k, qf_offset = 0\<rparr>) (map_of (zip fds [0..<length fds]) fd)"

text \<open>
  The file is the mapping: the mutex and the two pointers, then the data. What is in front of the data is
  no bytes here; a call that would read or write it has no result, and neither has one that would make
  the file longer, behind the mapping.
\<close>

definition shm_size :: "queue \<Rightarrow> nat" where
  "shm_size q = offsetof_data + length (sq_data (q_mem q))"

definition poke :: "queue \<Rightarrow> nat \<Rightarrow> byte \<Rightarrow> queue" where
  "poke q i b = q\<lparr>q_mem := (q_mem q)\<lparr>sq_data := (sq_data (q_mem q))[i := b]\<rparr>\<rparr>"

definition shm_read :: "queue_file \<Rightarrow> queue list \<Rightarrow> (u64 \<times> byte \<times> queue_file) option" where
  "shm_read f rings =
     (let q = rings ! qf_queue f; i = qf_offset f
      in if shm_size q \<le> i then Some (0, 0, f)
         else if i < offsetof_data then None
         else Some (1, sq_data (q_mem q) ! (i - offsetof_data), f\<lparr>qf_offset := Suc i\<rparr>))"

definition shm_write :: "queue_file \<Rightarrow> byte \<Rightarrow> queue list \<Rightarrow> (u64 \<times> queue_file \<times> queue list) option" where
  "shm_write f b rings =
     (let q = rings ! qf_queue f; i = qf_offset f
      in if offsetof_data \<le> i \<and> i < shm_size q
         then Some (1, f\<lparr>qf_offset := Suc i\<rparr>, rings[qf_queue f := poke q (i - offsetof_data) b])
         else None)"

definition shm_lseek :: "queue_file \<Rightarrow> u64 \<Rightarrow> u64 \<times> queue_file" where
  "shm_lseek f off = (if sint off < 0 then (- 1, f) else (off, f\<lparr>qf_offset := unat off\<rparr>))"

section \<open>The system calls\<close>

text \<open>The world, the open files of the queues, and the rings.\<close>

type_synonym 'w shm_world = "'w \<times> (u32 \<Rightarrow> queue_file option) \<times> queue list"

definition on_world :: "('w \<Rightarrow> ('r \<times> 'w) option) \<Rightarrow> 'w shm_world \<Rightarrow> ('r \<times> 'w shm_world) option" where
  "on_world call = (\<lambda>(w, files, rings). map_option (\<lambda>(r, w'). (r, w', files, rings)) (call w))"

definition shm_posix :: "'w posix \<Rightarrow> 'w shm_world posix" where
  "shm_posix px =
     \<lparr>px_open = (\<lambda>name flags mode. on_world (px_open px name flags mode)),
      px_read = (\<lambda>fd (w, files, rings). case files fd of
          None \<Rightarrow> map_option (\<lambda>(r, c, w'). (r, c, w', files, rings)) (px_read px fd w)
        | Some f \<Rightarrow> map_option (\<lambda>(r, c, f'). (r, c, w, files(fd \<mapsto> f'), rings)) (shm_read f rings)),
      px_write = (\<lambda>fd b (w, files, rings). case files fd of
          None \<Rightarrow> on_world (px_write px fd b) (w, files, rings)
        | Some f \<Rightarrow> map_option (\<lambda>(r, f', rings'). (r, w, files(fd \<mapsto> f'), rings')) (shm_write f b rings)),
      px_close = (\<lambda>fd (w, files, rings). case files fd of
          None \<Rightarrow> on_world (px_close px fd) (w, files, rings)
        | Some f \<Rightarrow> Some (0, w, files(fd := None), rings)),
      px_system = (\<lambda>command. on_world (px_system px command)),
      px_unlink = (\<lambda>name. on_world (px_unlink px name)),
      px_lseek = (\<lambda>fd off (w, files, rings). case files fd of
          None \<Rightarrow> on_world (px_lseek px fd off) (w, files, rings)
        | Some f \<Rightarrow> (case shm_lseek f off of (r, f') \<Rightarrow> Some (r, w, files(fd \<mapsto> f'), rings)))\<rparr>"

section \<open>Packets that do not name a queue\<close>

text \<open>A packet that names one of the descriptors \<open>fds\<close>.\<close>

definition names_queue :: "u32 list \<Rightarrow> execution_packet \<Rightarrow> bool" where
  "names_queue fds p \<longleftrightarrow> (\<exists>fd\<in>set (descriptors_of p). fd \<in> set fds)"

lemma queue_files_None: "fd \<notin> set fds \<Longrightarrow> queue_files fds fd = None"
  by (auto simp: queue_files_def map_of_eq_None_iff dest: set_zip_leftD)

lemma spared_calls:
  "px_open (shm_posix px) name flags mode (w, files, rings)
     = map_option (\<lambda>(r, w'). (r, w', files, rings)) (px_open px name flags mode w)"
  "px_system (shm_posix px) command (w, files, rings) = map_option (\<lambda>(r, w'). (r, w', files, rings)) (px_system px command w)"
  "px_unlink (shm_posix px) name (w, files, rings) = map_option (\<lambda>(r, w'). (r, w', files, rings)) (px_unlink px name w)"
  "files fd = None \<Longrightarrow> px_read (shm_posix px) fd (w, files, rings)
     = map_option (\<lambda>(r, c, w'). (r, c, w', files, rings)) (px_read px fd w)"
  "files fd = None \<Longrightarrow> px_write (shm_posix px) fd b (w, files, rings)
     = map_option (\<lambda>(r, w'). (r, w', files, rings)) (px_write px fd b w)"
  "files fd = None \<Longrightarrow> px_close (shm_posix px) fd (w, files, rings)
     = map_option (\<lambda>(r, w'). (r, w', files, rings)) (px_close px fd w)"
  "files fd = None \<Longrightarrow> px_lseek (shm_posix px) fd off (w, files, rings)
     = map_option (\<lambda>(r, w'). (r, w', files, rings)) (px_lseek px fd off w)"
  by (simp_all add: shm_posix_def on_world_def)

lemma transfer_spares:
  assumes "files in_fd = None" and "files out_fd = None"
  shows "transfer (shm_posix px) in_fd out_fd (w, files, rings) v s
    \<longleftrightarrow> (\<exists>w'. s = (w', files, rings) \<and> transfer px in_fd out_fd w v w')"
proof
  have "\<exists>w'. s = (w', files, rings) \<and> transfer px in_fd out_fd w v w'"
    if "transfer (shm_posix px) in_fd out_fd x v s" and "x = (w, files, rings)" for x
    using that
  proof (induction arbitrary: w)
    case (read_ends x got b s)
    with assms obtain w' where "px_read px in_fd w = Some (got, b, w')" "s = (w', files, rings)"
      by (auto simp: spared_calls)
    with read_ends show ?case by (blast intro: transfer.read_ends)
  next
    case (write_ends x got b x1 written s)
    with assms obtain w1 where "px_read px in_fd w = Some (got, b, w1)" "x1 = (w1, files, rings)"
      by (auto simp: spared_calls)
    moreover from this write_ends assms obtain w' where "px_write px out_fd b w1 = Some (written, w')"
      "s = (w', files, rings)" by (auto simp: spared_calls)
    ultimately show ?case using write_ends by (blast intro: transfer.write_ends)
  next
    case (copies x got b x1 written x2 v s)
    with assms obtain w1 where "px_read px in_fd w = Some (got, b, w1)" "x1 = (w1, files, rings)"
      by (auto simp: spared_calls)
    moreover from this copies assms obtain w2 where "px_write px out_fd b w1 = Some (written, w2)"
      "x2 = (w2, files, rings)" by (auto simp: spared_calls)
    ultimately show ?case using copies by (blast intro: transfer.copies)
  qed
  then show "\<exists>w'. s = (w', files, rings) \<and> transfer px in_fd out_fd w v w'"
    if "transfer (shm_posix px) in_fd out_fd (w, files, rings) v s" using that by blast
next
  have "transfer (shm_posix px) in_fd out_fd (w, files, rings) v (w', files, rings)"
    if "transfer px in_fd out_fd w v w'" for w'
    using that
  proof induction
    case (read_ends w got b w')
    with assms show ?case by (simp add: transfer.read_ends spared_calls)
  next
    case (write_ends w got b w1 written w')
    show ?case by (rule transfer.write_ends [of _ _ _ got b "(w1, files, rings)"])
      (use write_ends assms in \<open>simp_all add: spared_calls\<close>)
  next
    case (copies w got b w1 written w2 v w')
    show ?case by (rule transfer.copies [of _ _ _ got b "(w1, files, rings)" _ written "(w2, files, rings)"])
      (use copies assms in \<open>simp_all add: spared_calls\<close>)
  qed
  then show "transfer (shm_posix px) in_fd out_fd (w, files, rings) v s"
    if "\<exists>w'. s = (w', files, rings) \<and> transfer px in_fd out_fd w v w'" using that by blast
qed

lemma sint_eq: "sint (a :: u32) = sint b \<longleftrightarrow> a = b"
  by (auto intro: signed_word_eqI)

lemma sendfile_spares:
  assumes "files in_fd = None" and "files out_fd = None"
  shows "sendfile (shm_posix px) in_fd out_fd (w, files, rings)
    = map_option (\<lambda>(r, w'). (r, w', files, rings)) (sendfile px in_fd out_fd w)"
proof -
  have same: "sendfile (shm_posix px) in_fd out_fd (w, files, rings) = Some (r, s)
      \<longleftrightarrow> (\<exists>w'. s = (w', files, rings) \<and> sendfile px in_fd out_fd w = Some (r, w'))" for r s
    using transfer_spares [OF assms, of px w rings "sint r" s] by (auto simp: transfer_iff sint_eq)
  show ?thesis
  proof (cases "sendfile px in_fd out_fd w")
    case None
    with same show ?thesis by (cases "sendfile (shm_posix px) in_fd out_fd (w, files, rings)") auto
  next
    case (Some x)
    with same [of "fst x" "(snd x, files, rings)"] show ?thesis by (cases x) simp
  qed
qed

text \<open>On such a packet the calls are those of the surroundings, and the queues and their files stay as they are.\<close>

lemma step_spares:
  assumes "\<forall>fd\<in>set (descriptors_of p). files fd = None"
  shows "input_module_step (shm_posix px) p (w, files, rings)
    = map_option (\<lambda>(p', w'). (p', w', files, rings)) (input_module_step px p w)"
proof (cases "opcode_of (pkt_opcode p)")
  case None
  then show ?thesis by (simp add: input_module_step_def)
next
  case (Some op)
  with assms show ?thesis
    by (cases op) (simp_all add: input_module_step_def descriptors_of_def spared_calls option.map_comp comp_def
        case_prod_beta handle_sendfile_eq sendfile_spares del: handle_sendfile_def cong: if_cong)
qed

section \<open>Packets that do\<close>

text \<open>The packets of LSK and WRT with a descriptor and an operand, from anywhere.\<close>

definition file_op_packet :: "opcode_type \<Rightarrow> u32 \<Rightarrow> u64 \<Rightarrow> execution_packet" where
  "file_op_packet op fd x = \<lparr>pkt_data_1 = ucast fd, pkt_data_2 = x, pkt_opcode = opcode_val op, pkt_tag = 0,
     pkt_destination_1 = 0, pkt_destination_2 = 0, pkt_input = 0, pkt_marker = 0\<rparr>"

lemma operand_fits: "(ucast (ucast fd :: u64) :: u32) = fd" "(ucast (ucast b :: u64) :: byte) = b"
  by (rule bit_word_eqI, auto simp: bit_simps)+

lemma file_op_packet_fields:
  "opcode_of (pkt_opcode (file_op_packet op fd x)) = Some op"
  "(ucast (pkt_data_1 (file_op_packet op fd x)) :: u32) = fd" "pkt_data_2 (file_op_packet op fd x) = x"
  by (simp_all add: file_op_packet_def operand_fits)

lemma seek_step:
  assumes "files fd = Some f" and "n < 2 ^ 63"
  shows "\<exists>p'. input_module_step (shm_posix px) (file_op_packet LSK fd (of_nat n)) (w, files, rings)
    = Some (p', w, files(fd \<mapsto> f\<lparr>qf_offset := n\<rparr>), rings)"
proof -
  have n: "unat (of_nat n :: u64) = n" using assms(2) by (simp add: unat_of_nat)
  then have "\<not> sint (of_nat n :: u64) < 0"
    using assms(2) by (simp add: sint_uint signed_take_bit_int_eq_self uint_nat)
  with assms(1) n show ?thesis
    by (simp add: input_module_step_def file_op_packet_fields shm_posix_def shm_lseek_def)
qed

lemma write_step:
  assumes "files fd = Some f" and "offsetof_data \<le> qf_offset f" and "qf_offset f < shm_size (rings ! qf_queue f)"
  shows "\<exists>p'. input_module_step (shm_posix px) (file_op_packet WRT fd (ucast b)) (w, files, rings)
    = Some (p', w, files(fd \<mapsto> f\<lparr>qf_offset := Suc (qf_offset f)\<rparr>),
        rings[qf_queue f := poke (rings ! qf_queue f) (qf_offset f - offsetof_data) b])"
  using assms
  by (simp add: input_module_step_def file_op_packet_fields shm_posix_def shm_write_def Let_def operand_fits)

text \<open>The data of a ring with bytes written over it.\<close>

definition overwrite :: "nat \<Rightarrow> byte list \<Rightarrow> queue \<Rightarrow> queue" where
  "overwrite i bs q = q\<lparr>q_mem := (q_mem q)\<lparr>sq_data := blit i bs (sq_data (q_mem q))\<rparr>\<rparr>"

lemma overwrite_Cons:
  assumes "i < length (sq_data (q_mem q))"
  shows "overwrite i (b # bs) q = overwrite (Suc i) bs (poke q i b)"
  using assms by (simp add: overwrite_def poke_def blit_def upd_conv_take_nth_drop take_Suc_conv_app_nth add.commute)

lemma write_run:
  assumes "files fd = Some f" and "qf_offset f = offsetof_data + i" and "qf_queue f < length rings"
    and "i + length bs \<le> length (sq_data (q_mem (rings ! qf_queue f)))"
  shows "\<exists>answers files'. input_module_run (shm_posix px) (map (\<lambda>b. file_op_packet WRT fd (ucast b)) bs) (w, files, rings)
    = Some (answers, w, files', rings[qf_queue f := overwrite i bs (rings ! qf_queue f)])"
  using assms
proof (induction bs arbitrary: files f i rings)
  case Nil
  then show ?case by (simp add: overwrite_def blit_def)
next
  case (Cons b bs)
  let ?q = "rings ! qf_queue f" and ?f = "f\<lparr>qf_offset := Suc (qf_offset f)\<rparr>"
  let ?rings = "rings[qf_queue f := poke ?q i b]"
  have i: "i < length (sq_data (q_mem ?q))" using Cons.prems(4) by simp
  then obtain p' where p': "input_module_step (shm_posix px) (file_op_packet WRT fd (ucast b)) (w, files, rings)
      = Some (p', w, files(fd \<mapsto> ?f), ?rings)"
    using write_step [of files fd f rings px b w] Cons.prems(1,2) by (auto simp: shm_size_def)
  have "\<exists>answers files'. input_module_run (shm_posix px) (map (\<lambda>b. file_op_packet WRT fd (ucast b)) bs)
      (w, files(fd \<mapsto> ?f), ?rings)
    = Some (answers, w, files', ?rings[qf_queue ?f := overwrite (Suc i) bs (?rings ! qf_queue ?f)])"
    using Cons.prems by (intro Cons.IH) (simp_all add: poke_def)
  with p' Cons.prems(3) overwrite_Cons [OF i] show ?case by auto
qed

lemma overwrite_slot:
  assumes inv: "queue_inv q" and i: "i < length (queue_contents q)" and new: "length bs = q_element_size q"
    and k: "k = (sq_head (q_mem q) div q_element_size q + i) mod q_max_count q * q_element_size q"
  shows "queue_inv (overwrite k bs q) \<and> queue_contents (overwrite k bs q) = (queue_contents q)[i := bs]"
    and "k + length bs \<le> length (sq_data (q_mem q))"
proof -
  let ?h = "sq_head (q_mem q) div q_element_size q" and ?q = "overwrite k bs q" and ?xs = "queue_contents q"
  have holds: "ring_holds q ?h ?xs" and sems: "q_can_read_lock q + q_can_write_lock q = q_max_count q"
    using inv by (simp_all add: queue_inv_def)
  then have shape: "ring_shape q" by (simp add: ring_holds_def)
  show region: "k + length bs \<le> length (sq_data (q_mem q))" using slot_region [OF shape, of "?h + i"] new k by simp
  have slots: "slot ?q (?h + j) = ?xs[i := bs] ! j" if "j < length ?xs" for j
  proof (cases "j = i")
    case True
    with i k new region show ?thesis by (simp add: slot_def overwrite_def slice_blit_same)
  next
    case False
    have "(?h + j) mod q_max_count q \<noteq> (?h + i) mod q_max_count q"
      using False that i holds mod_neq_in_window [of j i "q_max_count q" ?h] mod_neq_in_window [of i j "q_max_count q" ?h]
      by (cases "j < i") (auto simp: ring_holds_def)
    from slots_disjoint [OF this, of "q_element_size q"] have "slot ?q (?h + j) = slot q (?h + j)"
      using k new region slot_region [OF shape, of "?h + j"]
      by (simp add: slot_def overwrite_def slice_blit_disjoint)
    with holds that False show ?thesis by (simp add: ring_holds_def)
  qed
  have "ring_holds ?q ?h (?xs[i := bs])"
    using holds slots region by (simp add: ring_holds_def ring_shape_def overwrite_def slot_def)
  moreover have "length (?xs[i := bs]) = q_can_read_lock ?q" "q_can_read_lock ?q + q_can_write_lock ?q = q_max_count ?q"
    using sems by (simp_all add: overwrite_def)
  ultimately show "queue_inv ?q \<and> queue_contents ?q = ?xs[i := bs]" by (rule queue_invI)
qed

text \<open>
  C27: the queues can be forged (Phase 2 of README.md, third bug). Whatever the input module can write to
  by WRT and place by LSK it may write: with the descriptor of a queue, one LSK and as many WRT as an
  element has bytes replace any element that waits in the queue by any other, and nothing else changes in
  the queues; the next process takes the forged element.
\<close>

theorem queue_descriptors_forge:
  assumes "files fd = Some f" and "qf_queue f < length rings" and "q = rings ! qf_queue f" and "queue_inv q"
    and "shm_size q < 2 ^ 63" and "i < length (queue_contents q)" and "length new = q_element_size q"
  shows "\<exists>ps answers files' q'. length ps = Suc (length new)
    \<and> (\<forall>p\<in>set ps. pkt_opcode p \<in> {opcode_val LSK, opcode_val WRT} \<and> descriptors_of p = [fd])
    \<and> input_module_run (shm_posix px) ps (w, files, rings) = Some (answers, w, files', rings[qf_queue f := q'])
    \<and> queue_inv q' \<and> queue_contents q' = (queue_contents q)[i := new]"
proof -
  define k where "k = (sq_head (q_mem q) div q_element_size q + i) mod q_max_count q * q_element_size q"
  note slot = overwrite_slot [OF assms(4,6,7) k_def]
  let ?n = "offsetof_data + k" and ?ps = "map (\<lambda>b. file_op_packet WRT fd (ucast b)) new"
  let ?f = "f\<lparr>qf_offset := ?n\<rparr>"
  have "?n < 2 ^ 63" using slot(2) assms(5) by (simp add: shm_size_def)
  from seek_step [of files fd f ?n px w rings, OF assms(1) this] obtain p' where
    seek: "input_module_step (shm_posix px) (file_op_packet LSK fd (of_nat ?n)) (w, files, rings)
      = Some (p', w, files(fd \<mapsto> ?f), rings)" by blast
  obtain answers files' where writes: "input_module_run (shm_posix px) ?ps (w, files(fd \<mapsto> ?f), rings)
      = Some (answers, w, files', rings[qf_queue f := overwrite k new q])"
    using write_run [of "files(fd \<mapsto> ?f)" fd ?f k rings new px w] slot(2) assms(2,3) by auto
  have named: "pkt_opcode p \<in> {opcode_val LSK, opcode_val WRT} \<and> descriptors_of p = [fd]"
    if "p \<in> set (file_op_packet LSK fd (of_nat ?n) # ?ps)" for p
    using that by (auto simp: descriptors_of_def file_op_packet_def operand_fits simp del: of_nat_add opcode_val.simps)
  show ?thesis
    by (rule exI [of _ "file_op_packet LSK fd (of_nat ?n) # ?ps"], rule exI [of _ "p' # answers"],
        rule exI [of _ files'], rule exI [of _ "overwrite k new q"])
      (use seek writes slot(1) named in \<open>simp del: of_nat_add\<close>)
qed

section \<open>The property at a concrete input\<close>

text \<open>A queue in which one packet waits, and a HLT packet that takes its place.\<close>

definition halting_packet :: execution_packet where
  "halting_packet = file_op_packet HLT 0 0"

theorem queue_descriptors_forge_witness:
  "\<exists>q ps answers files' q'. queue_contents q = [packet_bytes 0 (file_packet RED)]
     \<and> input_module_run (shm_posix two_files) ps (([], []), queue_files [7], [q]) = Some (answers, ([], []), files', [q'])
     \<and> map packet_of_bytes (queue_contents q') = [halting_packet] \<and> length ps = 49"
proof -
  obtain q0 where q0: "queue_new all_calls_ok 1024 48 = Some q0" by (simp add: queue_new_def Let_def)
  have fresh: "struct_queue_inv 48 q0" "queue_contents q0 = []" "q_max_count q0 = 1024"
    using fresh_struct_queue [OF q0] by simp_all
  then have inv0: "queue_inv q0" and size0: "q_element_size q0 = 48" by (simp_all add: struct_queue_inv_def)
  have "length (packet_bytes 0 (file_packet RED)) = q_element_size q0" by (simp add: size0 packet_codec.length_enc)
  from queue_add_spec(2) [OF inv0 this] fresh(2,3) obtain q where
    q: "queue_add q0 (packet_bytes 0 (file_packet RED)) 48 = Some (Ok q)" "queue_inv q"
      "queue_contents q = [packet_bytes 0 (file_packet RED)]" "q_element_size q = 48" by (auto simp: size0)
  have "length (sq_data (q_mem q)) = length (sq_data (q_mem q0))"
    using q(1) by (auto simp: queue_add_def wait_write_def copy_in_def post_read_def advance_tail_def Let_def
        split: option.splits if_splits)
  also have "length (sq_data (q_mem q0)) < 2 ^ 20"
    using q0 by (auto simp: queue_new_def Let_def sizeof_shared_queue_def offsetof_data_def)
  finally have small: "shm_size q < 2 ^ 63" by (simp add: shm_size_def offsetof_data_def)
  have named: "queue_files [7] 7 = Some \<lparr>qf_queue = 0, qf_offset = 0\<rparr>" by (simp add: queue_files_def)
  let ?new = "packet_bytes 0 halting_packet"
  have new: "length ?new = q_element_size q" by (simp add: q packet_codec.length_enc)
  have "qf_queue \<lparr>qf_queue = 0, qf_offset = 0\<rparr> < length [q]"
    "q = [q] ! qf_queue \<lparr>qf_queue = 0, qf_offset = 0\<rparr>" "0 < length (queue_contents q)" by (simp_all add: q(3) del: length_queue_contents)
  from queue_descriptors_forge [of "queue_files [7]" 7 _ "[q]" q 0 ?new two_files "([], [])", OF named this(1,2) q(2) small this(3) new]
  obtain ps answers files' q' where "length ps = Suc (length ?new)" "queue_contents q' = [?new]"
    "input_module_run (shm_posix two_files) ps (([], []), queue_files [7], [q]) = Some (answers, ([], []), files', [q'])"
    by (auto simp: q(3))
  with q(3) show ?thesis by (intro exI [of _ q] exI [of _ ps] exI [of _ answers] exI [of _ files'] exI [of _ q'])
    (simp add: packet_codec.dec_enc packet_codec.length_enc)
qed

end
