(* ===== verification/Io_Switch.thy ===== *)
theory Io_Switch
  imports Struct_Layouts
begin

text \<open>
  io_switch.c: the process between the processing unit and the matching unit. Tokens for one of the
  five device addresses are printed or dropped, every other token is passed on. The step works on
  the bytes of the received struct, because the string output reads memory behind the data.
\<close>

section \<open>Printing\<close>

definition ascii_digit :: "nat \<Rightarrow> byte" where
  "ascii_digit d = of_nat (48 + d)"

fun decimal_digits :: "nat \<Rightarrow> byte list" where
  "decimal_digits n =
     (if n < 10 then [ascii_digit n] else decimal_digits (n div 10) @ [ascii_digit (n mod 10)])"

declare decimal_digits.simps [simp del]

text \<open>What printf writes for the format of a signed long and a newline.\<close>

definition printf_ld :: "data_type \<Rightarrow> byte list" where
  "printf_ld v = (if sint v < 0 then 45 # decimal_digits (nat (- sint v))
                  else decimal_digits (nat (sint v))) @ [10]"

section \<open>The loop\<close>

text \<open>
  One iteration on the 24 bytes of next_token. \<open>stack\<close> is the readable memory behind the variable;
  the string output starts at the data and stops at the first NUL, wherever that is. The result is the
  text written to stdout and the token added to the queue of the matching unit, if any.
\<close>

definition io_switch_step :: "byte list \<Rightarrow> byte list \<Rightarrow> (byte list \<times> byte list list) outcome" where
  "io_switch_step stack next_token =
     (let token = token_of_bytes next_token; destination = tok_destination token
      in if destination = OUTPUTD_DESTINATION then Ok (printf_ld (tok_data token), [])
         else if destination = OUTPUTS_DESTINATION
         then (let str = drop 8 next_token @ stack
               in if 0 \<in> set str then Ok (c_string str, []) else Fault)
         else if destination = REGISTER_INPUT_HANDLER_DESTINATION then Ok ([], [])
         else if destination = DEREGISTER_INPUT_HANDLER_DESTINATION then Ok ([], [])
         else if destination = DEV_NULL_DESTINATION then Ok ([], [])
         else Ok ([], [next_token]))"

fun io_switch_run :: "(byte list \<times> byte list) list \<Rightarrow> (byte list \<times> byte list list) outcome" where
  "io_switch_run [] = Ok ([], [])"
| "io_switch_run ((stack, next_token) # tokens) =
     outcome_bind (io_switch_step stack next_token) (\<lambda>(text1, out1).
     outcome_bind (io_switch_run tokens) (\<lambda>(text2, out2). Ok (text1 @ text2, out1 @ out2)))"

section \<open>Decimal output\<close>

text \<open>A reader of the printed numbers: lines, an optional minus sign, decimal digits.\<close>

fun split_lines :: "byte list \<Rightarrow> byte list list" where
  "split_lines [] = []"
| "split_lines (b # bs) =
     (if b = 10 then [] # split_lines bs
      else case split_lines bs of [] \<Rightarrow> [[b]] | l # ls \<Rightarrow> (b # l) # ls)"

definition read_digits :: "byte list \<Rightarrow> nat" where
  "read_digits bs = fold (\<lambda>b acc. 10 * acc + (unat b - 48)) bs 0"

fun read_number :: "byte list \<Rightarrow> int" where
  "read_number [] = 0"
| "read_number (b # bs) = (if b = 45 then - int (read_digits bs) else int (read_digits (b # bs)))"

lemma unat_ascii_digit: "d < 10 \<Longrightarrow> unat (ascii_digit d) = 48 + d"
  unfolding ascii_digit_def by (simp add: unat_of_nat del: of_nat_add)

lemma ascii_digit_range: "d < 10 \<Longrightarrow> ascii_digit d \<noteq> 10 \<and> ascii_digit d \<noteq> 45"
  using unat_ascii_digit [of d] by auto

lemma read_decimal_digits: "read_digits (decimal_digits n) = n"
proof (induction n rule: decimal_digits.induct)
  case (1 n)
  show ?case
  proof (cases "n < 10")
    case True
    then show ?thesis by (simp add: decimal_digits.simps [of n] read_digits_def unat_ascii_digit)
  next
    case False
    with 1 have "fold (\<lambda>b acc. 10 * acc + (unat b - 48)) (decimal_digits (n div 10)) 0 = n div 10"
      by (simp add: read_digits_def)
    with False show ?thesis
      by (simp add: decimal_digits.simps [of n] read_digits_def unat_ascii_digit)
  qed
qed

lemma set_decimal_digits: "10 \<notin> set (decimal_digits n) \<and> 45 \<notin> set (decimal_digits n)"
proof (induction n rule: decimal_digits.induct)
  case (1 n)
  then show ?case
    using ascii_digit_range [of n] ascii_digit_range [of "n mod 10"]
    by (auto simp: decimal_digits.simps [of n])
qed

lemma decimal_digits_Cons: "\<exists>b bs. decimal_digits n = b # bs"
  by (subst decimal_digits.simps) (cases "decimal_digits (n div 10)", auto)

lemma read_printf_ld:
  "\<exists>line. printf_ld v = line @ [10] \<and> 10 \<notin> set line \<and> read_number line = sint v"
proof (cases "sint v < 0")
  case True
  then show ?thesis
    by (intro exI [of _ "45 # decimal_digits (nat (- sint v))"])
      (simp add: printf_ld_def read_decimal_digits set_decimal_digits)
next
  case False
  obtain b bs where digits: "decimal_digits (nat (sint v)) = b # bs" using decimal_digits_Cons by blast
  then have "b \<noteq> 45" using set_decimal_digits [of "nat (sint v)"] by auto
  moreover have "read_digits (b # bs) = nat (sint v)" unfolding digits [symmetric] by (rule read_decimal_digits)
  ultimately show ?thesis
    using False set_decimal_digits [of "nat (sint v)"]
    by (intro exI [of _ "b # bs"]) (simp add: printf_ld_def digits)
qed

lemma split_lines_append: "10 \<notin> set line \<Longrightarrow> split_lines (line @ 10 # rest) = line # split_lines rest"
  by (induction line) auto

lemma read_printed: "map read_number (split_lines (concat (map printf_ld vs))) = map sint vs"
proof (induction vs)
  case Nil
  then show ?case by simp
next
  case (Cons v vs)
  obtain line where "printf_ld v = line @ [10]" "10 \<notin> set line" "read_number line = sint v"
    using read_printf_ld by blast
  with Cons show ?case by (simp add: split_lines_append)
qed

section \<open>Routing\<close>

definition device_destinations :: "destination_type set" where
  "device_destinations = {OUTPUTD_DESTINATION, OUTPUTS_DESTINATION, REGISTER_INPUT_HANDLER_DESTINATION,
     DEREGISTER_INPUT_HANDLER_DESTINATION, DEV_NULL_DESTINATION}"

text \<open>What a token prints, when it prints anything.\<close>

definition printed :: "byte list \<Rightarrow> byte list \<Rightarrow> byte list" where
  "printed stack next_token =
     (let token = token_of_bytes next_token
      in if tok_destination token = OUTPUTD_DESTINATION then printf_ld (tok_data token)
         else if tok_destination token = OUTPUTS_DESTINATION then c_string (drop 8 next_token @ stack)
         else [])"

definition unterminated :: "byte list \<Rightarrow> byte list \<Rightarrow> bool" where
  "unterminated stack next_token \<longleftrightarrow>
     tok_destination (token_of_bytes next_token) = OUTPUTS_DESTINATION \<and> 0 \<notin> set (drop 8 next_token @ stack)"

lemmas device_destination_defs = OUTPUTD_DESTINATION_def OUTPUTS_DESTINATION_def
  REGISTER_INPUT_HANDLER_DESTINATION_def DEREGISTER_INPUT_HANDLER_DESTINATION_def
  DEV_NULL_DESTINATION_def CREATE_DESTINATION_def MATCHING_ONE_def

lemma io_switch_step_spec:
  "io_switch_step stack next_token = (if unterminated stack next_token then Fault
     else Ok (printed stack next_token,
       if tok_destination (token_of_bytes next_token) \<in> device_destinations then [] else [next_token]))"
proof -
  have "OUTPUTS_DESTINATION \<noteq> OUTPUTD_DESTINATION" by (simp add: device_destination_defs)
  then show ?thesis
    by (auto simp: io_switch_step_def unterminated_def printed_def device_destinations_def Let_def)
qed

lemma io_switch_run_spec:
  "io_switch_run tokens = (if \<exists>(stack, token)\<in>set tokens. unterminated stack token then Fault
     else Ok (concat (map (\<lambda>(stack, token). printed stack token) tokens),
       filter (\<lambda>token. tok_destination (token_of_bytes token) \<notin> device_destinations) (map snd tokens)))"
  by (induction tokens rule: io_switch_run.induct) (auto simp: io_switch_step_spec)

section \<open>Properties\<close>

text \<open>
  C25: the switch, over any sequence of received tokens. It passes on exactly the tokens that are not
  for one of the five device addresses, unchanged and in the order of their arrival, and prints the
  texts of the others in that order; nothing but a string without NUL up to the end of the stack stops
  it.
\<close>

theorem io_switch_routes:
  "io_switch_run tokens = (if \<exists>(stack, token)\<in>set tokens. unterminated stack token then Fault
     else Ok (concat (map (\<lambda>(stack, token). printed stack token) tokens),
       filter (\<lambda>token. tok_destination (token_of_bytes token) \<notin> device_destinations) (map snd tokens)))"
  by (rule io_switch_run_spec)

text \<open>
  What a program prints as numbers reads back: the text the switch writes for tokens to the number
  output, split into lines and read as decimal numbers, gives their data as signed integers, in order.
\<close>

theorem printed_numbers_read_back:
  assumes "\<forall>t\<in>set ts. tok_destination t = OUTPUTD_DESTINATION"
  shows "\<exists>out. io_switch_run (map (\<lambda>t. (stack, token_bytes pad t)) ts) = Ok (out, [])
     \<and> map read_number (split_lines out) = map (\<lambda>t. sint (tok_data t)) ts"
proof -
  from assms have "io_switch_run (map (\<lambda>t. (stack, token_bytes pad t)) ts)
      = Ok (concat (map printf_ld (map tok_data ts)), [])"
    by (induction ts) (simp_all add: io_switch_step_def token_codec.dec_enc)
  then show ?thesis using read_printed [of "map tok_data ts"] by simp
qed

text \<open>
  C35: the string output. Data with a NUL byte prints the bytes before it and nothing else; data of eight
  bytes that are not NUL prints them and goes on with the bytes of the tag, and if those have no NUL
  either, with the memory behind the token.
\<close>

theorem string_output_leaks:
  assumes "tok_destination t = OUTPUTS_DESTINATION" and "0 \<in> set stack"
  shows "io_switch_step stack (token_bytes pad t) = Ok (
    (if 0 \<in> set (le_bytes 8 (tok_data t)) then c_string (le_bytes 8 (tok_data t))
     else le_bytes 8 (tok_data t) @
       (if 0 \<in> set (le_bytes 8 (tok_tag t)) then c_string (le_bytes 8 (tok_tag t))
        else le_bytes 8 (tok_tag t) @ c_string stack)), [])"
proof -
  have "drop 8 (token_bytes pad t) = le_bytes 8 (tok_data t) @ le_bytes 8 (tok_tag t)"
    by (simp add: token_bytes_def)
  moreover have "OUTPUTS_DESTINATION \<noteq> OUTPUTD_DESTINATION" by (simp add: device_destination_defs)
  ultimately show ?thesis
    using assms
    by (auto simp: io_switch_step_spec unterminated_def printed_def token_codec.dec_enc
        device_destinations_def c_string_stops c_string_all)
qed

section \<open>The properties at concrete inputs\<close>

theorem printed_numbers_read_back_witness:
  "\<exists>out. io_switch_run (map (\<lambda>t. ([], token_bytes 0 t))
       [\<lparr>tok_destination = OUTPUTD_DESTINATION, tok_data = - 120, tok_tag = 7\<rparr>]) = Ok (out, [])
     \<and> map read_number (split_lines out)
       = map (\<lambda>t. sint (tok_data t)) [\<lparr>tok_destination = OUTPUTD_DESTINATION, tok_data = - 120, tok_tag = 7\<rparr>]"
  by (rule printed_numbers_read_back) simp

theorem string_output_leaks_witness:
  "io_switch_step [65, 0]
     (token_bytes 0 \<lparr>tok_destination = OUTPUTS_DESTINATION, tok_data = 0x4141414141414141, tok_tag = 7\<rparr>)
     = Ok ([0x41, 0x41, 0x41, 0x41, 0x41, 0x41, 0x41, 0x41, 7], [])"
  by (subst string_output_leaks) (simp_all add: le_bytes_def upt_rec c_string_def)

end
