(* ===== verification/Machine.thy ===== *)
theory Machine
  imports Ring_Process Matching_Unit Loaded_Code Queue_Descriptors Io_Switch
begin

text \<open>
  manchester.c: the machine of five processes in a ring, joined by five bounded queues,

    instruction store, input module, processing unit, I/O switch, matching unit,

  each of which takes an element from the queue before it, works on it, and puts what comes out into the
  queue behind it, one element at a time. A scheduler chooses who moves. Queue_Concurrency justifies the
  queues as lists with atomic operations, Struct_Layouts that structs travel through them unchanged.

  Lists do not describe a file opcode that names the descriptor of a queue and so reaches into its memory
  (Queue_Descriptors): before such a packet the input module takes no turn here. Shared_Memory_Machine
  has the whole input module.
\<close>

definition SIZE_MATCHING_STORE :: u32 where
  "SIZE_MATCHING_STORE = 2048"

section \<open>The command line\<close>

text \<open>What getopt(argc, argv, "f:t:") returns, call by call, until -1.\<close>

datatype option_char = Option_f "byte list" | Option_t "byte list" | Option_unknown

text \<open>atoi: white space, a sign, decimal digits; the value is a long, clamped, and then an int.\<close>

definition atoi :: "byte list \<Rightarrow> u32" where
  "atoi nptr =
     (let s = dropWhile (\<lambda>b. b \<in> {9, 10, 11, 12, 13, 32}) nptr;
          negative = (s \<noteq> [] \<and> hd s = 45);
          digits = takeWhile (\<lambda>b. 48 \<le> b \<and> b \<le> 57) (if s \<noteq> [] \<and> hd s \<in> {43, 45} then tl s else s);
          n = int (read_digits digits)
      in word_of_int (if negative then max (- (2 ^ 63)) (- n) else min (2 ^ 63 - 1) n))"

text \<open>The loop of main, with the file name and the timeout read so far.\<close>

fun read_options :: "option_char list \<Rightarrow> byte list option \<Rightarrow> u32 \<Rightarrow> (byte list option \<times> u32) outcome" where
  "read_options [] filename timeout = Ok (filename, timeout)"
| "read_options (Option_f optarg # opts) filename timeout = read_options opts (Some optarg) timeout"
| "read_options (Option_t optarg # opts) filename timeout = read_options opts filename (atoi optarg)"
| "read_options (Option_unknown # opts) filename timeout = Exit (- 1)"

text \<open>main up to the call of start_machine, whose arguments are the result.\<close>

definition main_options :: "option_char list \<Rightarrow> (byte list \<times> u32) outcome" where
  "main_options opts = outcome_bind (read_options opts None 5) (\<lambda>(filename, timeout).
     case filename of None \<Rightarrow> Exit (- 1) | Some f \<Rightarrow> Ok (f, timeout))"

section \<open>The queues\<close>

text \<open>
  The calls of queue_new in start_machine: token output, token input, ready pairs, and the packets before
  and after the input module.
\<close>

definition start_queues :: "queue_new_calls list \<Rightarrow> queue option list" where
  "start_queues calls = map (\<lambda>(c, element_size). queue_new c MAX_QUEUE_SIZE element_size)
     (zip calls [24, 24, 48, 48, 48])"

lemma start_queues_fresh:
  assumes "Some q \<in> set (start_queues calls)"
  shows "queue_inv q \<and> queue_contents q = [] \<and> q_max_count q = MAX_QUEUE_SIZE"
proof -
  from assms obtain c n where q: "queue_new c MAX_QUEUE_SIZE n = Some q" and "n \<in> {24, 48}"
    by (auto simp: start_queues_def dest!: set_zip_rightD)
  then have "0 < n" "MAX_QUEUE_SIZE * n + 63 < 2 ^ 64" by (auto simp: MAX_QUEUE_SIZE_def)
  with queue_new_inv [OF q] show ?thesis by (simp add: MAX_QUEUE_SIZE_def)
qed

text \<open>main refuses unknown options and a missing file; else the last of each option counts.\<close>

lemma read_options_spec:
  "read_options opts filename timeout = (if Option_unknown \<in> set opts then Exit (- 1)
     else Ok (fold (\<lambda>opt f. case opt of Option_f name \<Rightarrow> Some name | _ \<Rightarrow> f) opts filename,
              fold (\<lambda>opt t. case opt of Option_t n \<Rightarrow> atoi n | _ \<Rightarrow> t) opts timeout))"
  by (induction opts filename timeout rule: read_options.induct) auto

lemma main_needs_file:
  "main_options opts = Exit (- 1) \<longleftrightarrow> Option_unknown \<in> set opts \<or> (\<forall>name. Option_f name \<notin> set opts)"
proof -
  have "fold (\<lambda>opt f. case opt of Option_f name \<Rightarrow> Some name | _ \<Rightarrow> f) opts f0 = None
      \<longleftrightarrow> f0 = None \<and> (\<forall>name. Option_f name \<notin> set opts)" for f0
    by (induction opts arbitrary: f0) (auto split: option_char.splits)
  from this [of None] show ?thesis
    by (auto simp: main_options_def read_options_spec split: option.splits)
qed

section \<open>State\<close>

text \<open>
  The processes' own data, what each has worked out but not yet put into its queue, the five queues, the
  text printed by the I/O switch, and the world the system calls act on.
\<close>

record 'w machine =
  mc_world :: 'w
  mc_store :: code_store
  mc_processing_unit :: pu_state
  mc_waiting_table :: token_waiting_table_type
  mc_stdout :: "byte list"
  mc_packets_to_add :: "execution_packet list"
  mc_answers_to_add :: "execution_packet list"
  mc_outputs_to_add :: "token_type list"
  mc_tokens_to_add :: "token_type list"
  mc_pairs_to_add :: "ready_token_pair_type list"
  mc_execution_token_output :: "token_type list"
  mc_matching_unit_input :: "token_type list"
  mc_ready_token_pair :: "ready_token_pair_type list"
  mc_preprocessed_executable_packet :: "execution_packet list"
  mc_processed_executable_packet :: "execution_packet list"

text \<open>
  The surroundings: the system calls of the input module, the files the instruction store sees in a
  world, the values the processing unit reads from outside, whether trap mode is compiled in, the stack
  behind the token of the I/O switch, the padding of its struct, the uninitialised token of the matching
  unit, and the descriptors shmem_fd of the five queues, in the order of start_queues.
\<close>

record 'w surroundings =
  su_posix :: "'w posix"
  su_files :: "'w \<Rightarrow> store_env"
  su_pu_env :: pu_env
  su_trap_flag :: bool
  su_stack :: "byte list"
  su_pad :: byte
  su_junk_token :: token_type
  su_queue_fds :: "u32 list"

datatype machine_unit = Instruction_store | Input_module | Processing_unit | Io_switch | Matching_unit

section \<open>A turn of a process\<close>

definition instruction_store_turn :: "'w surroundings \<Rightarrow> 'w machine \<Rightarrow> 'w machine outcome option" where
  "instruction_store_turn E m =
     map_option (\<lambda>r. outcome_bind r (\<lambda>(cs, pend, inq, outq).
         Ok (m\<lparr>mc_store := cs, mc_packets_to_add := pend, mc_ready_token_pair := inq,
               mc_preprocessed_executable_packet := outq\<rparr>)))
       (queue_turn (\<lambda>pair. Some (instruction_store_step (su_files E (mc_world m)) pair (mc_store m)))
         (mc_store m) (mc_packets_to_add m) (mc_ready_token_pair m) (mc_preprocessed_executable_packet m))"

text \<open>The body of the loop of run_input_module, for packets that do not reach into a queue.\<close>

definition input_module_work :: "'w surroundings \<Rightarrow> 'w \<Rightarrow> execution_packet
    \<Rightarrow> ('w \<times> execution_packet list) outcome option" where
  "input_module_work E w p =
     (if names_queue (su_queue_fds E) p then None
      else map_option (\<lambda>(p', w'). Ok (w', [p'])) (input_module_step (su_posix E) p w))"

definition input_module_turn :: "'w surroundings \<Rightarrow> 'w machine \<Rightarrow> 'w machine outcome option" where
  "input_module_turn E m =
     map_option (\<lambda>r. outcome_bind r (\<lambda>(w, pend, inq, outq).
         Ok (m\<lparr>mc_world := w, mc_answers_to_add := pend, mc_preprocessed_executable_packet := inq,
               mc_processed_executable_packet := outq\<rparr>)))
       (queue_turn (input_module_work E (mc_world m)) (mc_world m) (mc_answers_to_add m)
         (mc_preprocessed_executable_packet m) (mc_processed_executable_packet m))"

definition processing_unit_turn :: "'w surroundings \<Rightarrow> 'w machine \<Rightarrow> 'w machine outcome option" where
  "processing_unit_turn E m =
     map_option (\<lambda>r. outcome_bind r (\<lambda>(st, pend, inq, outq).
         Ok (m\<lparr>mc_processing_unit := st, mc_outputs_to_add := pend, mc_processed_executable_packet := inq,
               mc_execution_token_output := outq\<rparr>)))
       (queue_turn (\<lambda>p. Some (processing_unit_step (su_trap_flag E) (su_pu_env E) p (mc_processing_unit m)))
         (mc_processing_unit m) (mc_outputs_to_add m) (mc_processed_executable_packet m)
         (mc_execution_token_output m))"

definition io_switch_turn :: "'w surroundings \<Rightarrow> 'w machine \<Rightarrow> 'w machine outcome option" where
  "io_switch_turn E m =
     map_option (\<lambda>r. outcome_bind r (\<lambda>(stdout, pend, inq, outq).
         Ok (m\<lparr>mc_stdout := stdout, mc_tokens_to_add := pend, mc_execution_token_output := inq,
               mc_matching_unit_input := outq\<rparr>)))
       (queue_turn (\<lambda>t. Some (outcome_bind (io_switch_step (su_stack E) (token_bytes (su_pad E) t))
             (\<lambda>(printed, out). Ok (mc_stdout m @ printed, map token_of_bytes out))))
         (mc_stdout m) (mc_tokens_to_add m) (mc_execution_token_output m) (mc_matching_unit_input m))"

definition matching_unit_turn :: "'w surroundings \<Rightarrow> 'w machine \<Rightarrow> 'w machine outcome option" where
  "matching_unit_turn E m =
     map_option (\<lambda>r. outcome_bind r (\<lambda>(table, pend, inq, outq).
         Ok (m\<lparr>mc_waiting_table := table, mc_pairs_to_add := pend, mc_matching_unit_input := inq,
               mc_ready_token_pair := outq\<rparr>)))
       (queue_turn (\<lambda>t. Some (matching_unit_step (su_junk_token E) t (mc_waiting_table m)))
         (mc_waiting_table m) (mc_pairs_to_add m) (mc_matching_unit_input m) (mc_ready_token_pair m))"

fun unit_turn :: "'w surroundings \<Rightarrow> machine_unit \<Rightarrow> 'w machine \<Rightarrow> 'w machine outcome option" where
  "unit_turn E Instruction_store m = instruction_store_turn E m"
| "unit_turn E Input_module m = input_module_turn E m"
| "unit_turn E Processing_unit m = processing_unit_turn E m"
| "unit_turn E Io_switch m = io_switch_turn E m"
| "unit_turn E Matching_unit m = matching_unit_turn E m"

section \<open>Start and end\<close>

text \<open>
  The machine once the instruction store has loaded the operating system; None when the file cannot be
  opened.
\<close>

definition machine_start :: "'w surroundings \<Rightarrow> table_list_type list \<Rightarrow> byte list \<Rightarrow> 'w
    \<Rightarrow> 'w machine option outcome" where
  "machine_start E junk os_filename w =
     outcome_bind (instruction_store_start (su_files E w) os_filename) (\<lambda>started. Ok (map_option (\<lambda>(cs, ready).
       \<lparr>mc_world = w, mc_store = cs, mc_processing_unit = pu_init,
        mc_waiting_table = init_waiting_table junk SIZE_MATCHING_STORE, mc_stdout = [],
        mc_packets_to_add = ready, mc_answers_to_add = [], mc_outputs_to_add = [], mc_tokens_to_add = [],
        mc_pairs_to_add = [], mc_execution_token_output = [], mc_matching_unit_input = [],
        mc_ready_token_pair = [], mc_preprocessed_executable_packet = [],
        mc_processed_executable_packet = []\<rparr>) started))"

text \<open>
  The parent process: its children, which of them are alive, and once wait() has returned, which are
  still to be killed, in the order of the code. The timeout process may end at any time, and the world
  may change at any time: somebody types, or another program writes a file.
\<close>

datatype child = Unit machine_unit | Timeout_process

record 'w running =
  run_machine :: "'w machine"
  run_alive :: "child list"
  run_to_kill :: "child list option"

definition children :: "child list" where
  "children = [Unit Instruction_store, Unit Input_module, Unit Processing_unit, Unit Io_switch,
     Unit Matching_unit, Timeout_process]"

definition kill_order :: "child list" where
  "kill_order = [Unit Processing_unit, Unit Instruction_store, Unit Matching_unit, Unit Io_switch,
     Unit Input_module, Timeout_process]"

definition child_dies :: "child \<Rightarrow> 'w running \<Rightarrow> 'w running" where
  "child_dies c s = s\<lparr>run_alive := removeAll c (run_alive s),
     run_to_kill := (case run_to_kill s of None \<Rightarrow> Some kill_order | Some cs \<Rightarrow> Some cs)\<rparr>"

inductive machine_step :: "'w surroundings \<Rightarrow> 'w running \<Rightarrow> 'w running \<Rightarrow> bool" for E where
  turn: "Unit u \<in> set (run_alive s) \<Longrightarrow> unit_turn E u (run_machine s) = Some (Ok m) \<Longrightarrow>
    machine_step E s (s\<lparr>run_machine := m\<rparr>)"
| death: "Unit u \<in> set (run_alive s) \<Longrightarrow> unit_turn E u (run_machine s) = Some r \<Longrightarrow> \<not> is_ok r \<Longrightarrow>
    machine_step E s (child_dies (Unit u) s)"
| timeout: "Timeout_process \<in> set (run_alive s) \<Longrightarrow> machine_step E s (child_dies Timeout_process s)"
| kill: "run_to_kill s = Some (c # cs) \<Longrightarrow>
    machine_step E s (s\<lparr>run_alive := removeAll c (run_alive s), run_to_kill := Some cs\<rparr>)"
| outside: "machine_step E s (s\<lparr>run_machine := (run_machine s)\<lparr>mc_world := w\<rparr>\<rparr>)"

inductive_cases machine_stepE: "machine_step E s s'"

definition start_running :: "'w machine \<Rightarrow> 'w running" where
  "start_running m = \<lparr>run_machine = m, run_alive = children, run_to_kill = None\<rparr>"

abbreviation machine_run :: "'w surroundings \<Rightarrow> 'w running \<Rightarrow> 'w running \<Rightarrow> bool" where
  "machine_run E \<equiv> (machine_step E)\<^sup>*\<^sup>*"

lemmas turn_defs = instruction_store_turn_def input_module_turn_def processing_unit_turn_def
  io_switch_turn_def matching_unit_turn_def

interpretation instruction_store_process: ring_process "instruction_store_turn E"
  "\<lambda>m pair. Some (instruction_store_step (su_files E (mc_world m)) pair (mc_store m))"
  mc_store mc_packets_to_add mc_ready_token_pair mc_preprocessed_executable_packet
  "\<lambda>s p i q m. m\<lparr>mc_store := s, mc_packets_to_add := p, mc_ready_token_pair := i,
     mc_preprocessed_executable_packet := q\<rparr>" for E
  by unfold_locales (simp_all add: turn_defs)

interpretation input_module_process: ring_process "input_module_turn E"
  "\<lambda>m. input_module_work E (mc_world m)"
  mc_world mc_answers_to_add mc_preprocessed_executable_packet mc_processed_executable_packet
  "\<lambda>s p i q m. m\<lparr>mc_world := s, mc_answers_to_add := p, mc_preprocessed_executable_packet := i,
     mc_processed_executable_packet := q\<rparr>" for E
  by unfold_locales (simp_all add: turn_defs)

interpretation processing_unit_process: ring_process "processing_unit_turn E"
  "\<lambda>m p. Some (processing_unit_step (su_trap_flag E) (su_pu_env E) p (mc_processing_unit m))"
  mc_processing_unit mc_outputs_to_add mc_processed_executable_packet mc_execution_token_output
  "\<lambda>s p i q m. m\<lparr>mc_processing_unit := s, mc_outputs_to_add := p, mc_processed_executable_packet := i,
     mc_execution_token_output := q\<rparr>" for E
  by unfold_locales (simp_all add: turn_defs)

interpretation io_switch_process: ring_process "io_switch_turn E"
  "\<lambda>m t. Some (outcome_bind (io_switch_step (su_stack E) (token_bytes (su_pad E) t))
     (\<lambda>(printed, out). Ok (mc_stdout m @ printed, map token_of_bytes out)))"
  mc_stdout mc_tokens_to_add mc_execution_token_output mc_matching_unit_input
  "\<lambda>s p i q m. m\<lparr>mc_stdout := s, mc_tokens_to_add := p, mc_execution_token_output := i,
     mc_matching_unit_input := q\<rparr>" for E
  by unfold_locales (simp_all add: turn_defs)

interpretation matching_unit_process: ring_process "matching_unit_turn E"
  "\<lambda>m t. Some (matching_unit_step (su_junk_token E) t (mc_waiting_table m))"
  mc_waiting_table mc_pairs_to_add mc_matching_unit_input mc_ready_token_pair
  "\<lambda>s p i q m. m\<lparr>mc_waiting_table := s, mc_pairs_to_add := p, mc_matching_unit_input := i,
     mc_ready_token_pair := q\<rparr>" for E
  by unfold_locales (simp_all add: turn_defs)

lemma input_module_work_Some:
  "input_module_work E w p = Some r \<longleftrightarrow> \<not> names_queue (su_queue_fds E) p
     \<and> (\<exists>p' w'. input_module_step (su_posix E) p w = Some (p', w') \<and> r = Ok (w', [p']))"
  by (auto simp: input_module_work_def)

lemma input_module_work_None:
  "input_module_work E w p = None \<longleftrightarrow> names_queue (su_queue_fds E) p \<or> input_module_step (su_posix E) p w = None"
  by (auto simp: input_module_work_def)

lemmas unit_frames = instruction_store_process.frame input_module_process.frame
  processing_unit_process.frame io_switch_process.frame matching_unit_process.frame

lemmas unit_waits = instruction_store_process.waits input_module_process.waits
  processing_unit_process.waits io_switch_process.waits matching_unit_process.waits

lemmas unit_effects = instruction_store_process.effect input_module_process.effect
  processing_unit_process.effect io_switch_process.effect matching_unit_process.effect

section \<open>Privileges across the machine\<close>

definition packet_safe :: "instruction list \<Rightarrow> execution_packet \<Rightarrow> bool" where
  "packet_safe os p \<longleftrightarrow> (privileged (pkt_opcode p) \<longrightarrow> packet_from os p)"

definition no_file_opcode :: "execution_packet \<Rightarrow> bool" where
  "no_file_opcode p \<longleftrightarrow> (\<forall>op\<in>file_opcodes. pkt_opcode p \<noteq> opcode_val op)"

definition machine_safe :: "instruction list \<Rightarrow> 'w machine \<Rightarrow> bool" where
  "machine_safe os m \<longleftrightarrow> runs_os os (mc_store m)
     \<and> (\<forall>p \<in> set (mc_packets_to_add m) \<union> set (mc_preprocessed_executable_packet m). packet_safe os p)
     \<and> (\<forall>p \<in> set (mc_answers_to_add m) \<union> set (mc_processed_executable_packet m).
          packet_safe os p \<and> no_file_opcode p)"

lemma input_module_step_safe:
  assumes "input_module_step px p w = Some (p', w')" and "packet_safe os p"
  shows "packet_safe os p' \<and> no_file_opcode p'"
proof (cases "no_file_opcode p")
  case True
  then have "input_module_step px p w = Some (p, w)"
    by (intro input_module_passes) (simp add: no_file_opcode_def)
  with assms True show ?thesis by simp
next
  case False
  then obtain op where op: "op \<in> file_opcodes" "pkt_opcode p = opcode_val op" by (auto simp: no_file_opcode_def)
  from file_call_iff [OF op, of px w p' w'] assms(1) have "pkt_opcode p' = opcode_val DUP" by (auto simp: answer_def)
  then show ?thesis
    using dup_unprivileged
    by (auto simp: packet_safe_def no_file_opcode_def file_opcodes_def simp del: opcode_val.simps)
qed

lemma unit_turn_safe:
  assumes safe: "machine_safe os m" and clean: "\<And>w. clean_files (su_files E w)"
    and step: "unit_turn E u m = Some (Ok m')"
  shows "machine_safe os m'"
proof (cases u)
  case Instruction_store
  with step have turn: "instruction_store_turn E m = Some (Ok m')" by simp
  obtain cs pend inq outq where m': "m' = m\<lparr>mc_store := cs, mc_packets_to_add := pend,
      mc_ready_token_pair := inq, mc_preprocessed_executable_packet := outq\<rparr>"
    and out: "set outq \<subseteq> set (mc_preprocessed_executable_packet m) \<union> set (mc_packets_to_add m)"
    and new: "cs = mc_store m \<and> set pend \<subseteq> set (mc_packets_to_add m)
      \<or> (\<exists>x\<in>set (mc_ready_token_pair m). Some (instruction_store_step (su_files E (mc_world m)) x (mc_store m)) = Some (Ok (cs, pend)))"
    using instruction_store_process.effect [OF turn] by blast
  have "runs_os os cs \<and> (\<forall>p\<in>set pend. packet_safe os p)"
    using new safe instruction_store_step_privileges [OF clean]
    unfolding machine_safe_def packet_safe_def option.inject by blast
  with out safe show ?thesis unfolding m' machine_safe_def by (simp add: subset_iff) blast
next
  case Input_module
  with step have turn: "input_module_turn E m = Some (Ok m')" by simp
  obtain w pend inq outq where m': "m' = m\<lparr>mc_world := w, mc_answers_to_add := pend,
      mc_preprocessed_executable_packet := inq, mc_processed_executable_packet := outq\<rparr>"
    and queues: "set inq \<subseteq> set (mc_preprocessed_executable_packet m)"
      "set outq \<subseteq> set (mc_processed_executable_packet m) \<union> set (mc_answers_to_add m)"
    and work: "set pend \<subseteq> set (mc_answers_to_add m) \<or> (\<exists>x\<in>set (mc_preprocessed_executable_packet m).
      input_module_work E (mc_world m) x = Some (Ok (w, pend)))"
    using input_module_process.effect [OF turn] by blast
  from work have new: "set pend \<subseteq> set (mc_answers_to_add m) \<or> (\<exists>x\<in>set (mc_preprocessed_executable_packet m).
      \<exists>p'. input_module_step (su_posix E) x (mc_world m) = Some (p', w) \<and> pend = [p'])"
    by (auto simp: input_module_work_Some)
  have "\<forall>p\<in>set pend. packet_safe os p \<and> no_file_opcode p"
    using new safe input_module_step_safe unfolding machine_safe_def by fastforce
  with queues safe show ?thesis unfolding m' machine_safe_def by (simp add: subset_iff) blast
qed (use step safe in \<open>auto simp: machine_safe_def dest!: unit_effects\<close>)

section \<open>Turns of different processes commute\<close>

text \<open>The instruction store sees the same files in every world.\<close>

definition fixed_files :: "'w surroundings \<Rightarrow> bool" where
  "fixed_files E \<longleftrightarrow> (\<forall>w w'. su_files E w = su_files E w')"

lemma fixed_filesE:
  assumes "fixed_files E"
  obtains files where "\<And>w. su_files E w = files"
  using assms by (metis fixed_files_def)

text \<open>How much was taken from a queue, and what was put into it.\<close>

abbreviation taken :: "'a list \<Rightarrow> 'a list \<Rightarrow> nat" where
  "taken q q1 \<equiv> length q - length q1"

abbreviation put :: "'a list \<Rightarrow> 'a list \<Rightarrow> 'a list" where
  "put q q1 \<equiv> drop (length q) q1"

lemma instruction_store_undisturbed:
  assumes "instruction_store_turn E m = Some r" and "unit_turn E u m = Some (Ok m1)"
    and "u \<noteq> Instruction_store" and "fixed_files E"
  shows "instruction_store_turn E m1 = Some (outcome_bind r (\<lambda>m2. Ok (m1\<lparr>mc_store := mc_store m2,
    mc_packets_to_add := mc_packets_to_add m2,
    mc_ready_token_pair := mc_ready_token_pair m2 @ put (mc_ready_token_pair m) (mc_ready_token_pair m1),
    mc_preprocessed_executable_packet := drop (taken (mc_preprocessed_executable_packet m)
      (mc_preprocessed_executable_packet m1)) (mc_preprocessed_executable_packet m2)\<rparr>)))"
proof -
  obtain files where "\<And>w. su_files E w = files" using fixed_filesE [OF assms(4)] by blast
  then show ?thesis
    by (intro instruction_store_process.after [OF assms(1)];
        use assms(2,3) in \<open>cases u; auto dest!: unit_frames\<close>)
qed

lemma input_module_undisturbed:
  assumes "input_module_turn E m = Some r" and "unit_turn E u m = Some (Ok m1)" and "u \<noteq> Input_module"
  shows "input_module_turn E m1 = Some (outcome_bind r (\<lambda>m2. Ok (m1\<lparr>mc_world := mc_world m2,
    mc_answers_to_add := mc_answers_to_add m2,
    mc_preprocessed_executable_packet := mc_preprocessed_executable_packet m2
      @ put (mc_preprocessed_executable_packet m) (mc_preprocessed_executable_packet m1),
    mc_processed_executable_packet := drop (taken (mc_processed_executable_packet m)
      (mc_processed_executable_packet m1)) (mc_processed_executable_packet m2)\<rparr>)))"
  by (rule input_module_process.after [OF assms(1)]; use assms(2,3) in \<open>cases u; auto dest!: unit_frames\<close>)

lemma processing_unit_undisturbed:
  assumes "processing_unit_turn E m = Some r" and "unit_turn E u m = Some (Ok m1)" and "u \<noteq> Processing_unit"
  shows "processing_unit_turn E m1 = Some (outcome_bind r (\<lambda>m2. Ok (m1\<lparr>mc_processing_unit := mc_processing_unit m2,
    mc_outputs_to_add := mc_outputs_to_add m2,
    mc_processed_executable_packet := mc_processed_executable_packet m2
      @ put (mc_processed_executable_packet m) (mc_processed_executable_packet m1),
    mc_execution_token_output := drop (taken (mc_execution_token_output m)
      (mc_execution_token_output m1)) (mc_execution_token_output m2)\<rparr>)))"
  by (rule processing_unit_process.after [OF assms(1)]; use assms(2,3) in \<open>cases u; auto dest!: unit_frames\<close>)

lemma io_switch_undisturbed:
  assumes "io_switch_turn E m = Some r" and "unit_turn E u m = Some (Ok m1)" and "u \<noteq> Io_switch"
  shows "io_switch_turn E m1 = Some (outcome_bind r (\<lambda>m2. Ok (m1\<lparr>mc_stdout := mc_stdout m2,
    mc_tokens_to_add := mc_tokens_to_add m2,
    mc_execution_token_output := mc_execution_token_output m2
      @ put (mc_execution_token_output m) (mc_execution_token_output m1),
    mc_matching_unit_input := drop (taken (mc_matching_unit_input m)
      (mc_matching_unit_input m1)) (mc_matching_unit_input m2)\<rparr>)))"
  by (rule io_switch_process.after [OF assms(1)]; use assms(2,3) in \<open>cases u; auto dest!: unit_frames\<close>)

lemma matching_unit_undisturbed:
  assumes "matching_unit_turn E m = Some r" and "unit_turn E u m = Some (Ok m1)" and "u \<noteq> Matching_unit"
  shows "matching_unit_turn E m1 = Some (outcome_bind r (\<lambda>m2. Ok (m1\<lparr>mc_waiting_table := mc_waiting_table m2,
    mc_pairs_to_add := mc_pairs_to_add m2,
    mc_matching_unit_input := mc_matching_unit_input m2
      @ put (mc_matching_unit_input m) (mc_matching_unit_input m1),
    mc_ready_token_pair := drop (taken (mc_ready_token_pair m)
      (mc_ready_token_pair m1)) (mc_ready_token_pair m2)\<rparr>)))"
  by (rule matching_unit_process.after [OF assms(1)]; use assms(2,3) in \<open>cases u; auto dest!: unit_frames\<close>)

text \<open>
  The machine after the turns of \<open>u\<close>, which led from \<open>m\<close> to \<open>m1\<close>, and of \<open>v\<close>, which led from \<open>m\<close> to \<open>m2\<close>.
\<close>

fun merge_turns :: "machine_unit \<Rightarrow> 'w machine \<Rightarrow> 'w machine \<Rightarrow> 'w machine \<Rightarrow> 'w machine" where
  "merge_turns Instruction_store m m1 m2 = m1\<lparr>mc_store := mc_store m2,
    mc_packets_to_add := mc_packets_to_add m2,
    mc_ready_token_pair := mc_ready_token_pair m2 @ put (mc_ready_token_pair m) (mc_ready_token_pair m1),
    mc_preprocessed_executable_packet := drop (taken (mc_preprocessed_executable_packet m)
      (mc_preprocessed_executable_packet m1)) (mc_preprocessed_executable_packet m2)\<rparr>"
| "merge_turns Input_module m m1 m2 = m1\<lparr>mc_world := mc_world m2,
    mc_answers_to_add := mc_answers_to_add m2,
    mc_preprocessed_executable_packet := mc_preprocessed_executable_packet m2
      @ put (mc_preprocessed_executable_packet m) (mc_preprocessed_executable_packet m1),
    mc_processed_executable_packet := drop (taken (mc_processed_executable_packet m)
      (mc_processed_executable_packet m1)) (mc_processed_executable_packet m2)\<rparr>"
| "merge_turns Processing_unit m m1 m2 = m1\<lparr>mc_processing_unit := mc_processing_unit m2,
    mc_outputs_to_add := mc_outputs_to_add m2,
    mc_processed_executable_packet := mc_processed_executable_packet m2
      @ put (mc_processed_executable_packet m) (mc_processed_executable_packet m1),
    mc_execution_token_output := drop (taken (mc_execution_token_output m)
      (mc_execution_token_output m1)) (mc_execution_token_output m2)\<rparr>"
| "merge_turns Io_switch m m1 m2 = m1\<lparr>mc_stdout := mc_stdout m2,
    mc_tokens_to_add := mc_tokens_to_add m2,
    mc_execution_token_output := mc_execution_token_output m2
      @ put (mc_execution_token_output m) (mc_execution_token_output m1),
    mc_matching_unit_input := drop (taken (mc_matching_unit_input m)
      (mc_matching_unit_input m1)) (mc_matching_unit_input m2)\<rparr>"
| "merge_turns Matching_unit m m1 m2 = m1\<lparr>mc_waiting_table := mc_waiting_table m2,
    mc_pairs_to_add := mc_pairs_to_add m2,
    mc_matching_unit_input := mc_matching_unit_input m2
      @ put (mc_matching_unit_input m) (mc_matching_unit_input m1),
    mc_ready_token_pair := drop (taken (mc_ready_token_pair m)
      (mc_ready_token_pair m1)) (mc_ready_token_pair m2)\<rparr>"

lemma turn_undisturbed:
  assumes "unit_turn E v m = Some r" and "unit_turn E u m = Some (Ok m1)" and "u \<noteq> v" and "fixed_files E"
  shows "unit_turn E v m1 = Some (outcome_bind r (\<lambda>m2. Ok (merge_turns v m m1 m2)))"
proof (cases v)
  case Instruction_store
  with assms instruction_store_undisturbed [OF _ assms(2) _ assms(4)] show ?thesis by simp
next
  case Input_module
  with assms input_module_undisturbed [OF _ assms(2)] show ?thesis by simp
next
  case Processing_unit
  with assms processing_unit_undisturbed [OF _ assms(2)] show ?thesis by simp
next
  case Io_switch
  with assms io_switch_undisturbed [OF _ assms(2)] show ?thesis by simp
next
  case Matching_unit
  with assms matching_unit_undisturbed [OF _ assms(2)] show ?thesis by simp
qed

lemma merge_turns_commute:
  assumes "unit_turn E u m = Some (Ok m1)" and "unit_turn E v m = Some (Ok m2)" and "u \<noteq> v"
  shows "merge_turns v m m1 m2 = merge_turns u m m2 m1"
  using assms by (cases u; cases v) (auto dest!: unit_frames)

lemma turns_commute:
  assumes u: "unit_turn E u m = Some (Ok m1)" and v: "unit_turn E v m = Some (Ok m2)"
    and "u \<noteq> v" and "fixed_files E"
  shows "\<exists>m3. unit_turn E v m1 = Some (Ok m3) \<and> unit_turn E u m2 = Some (Ok m3)"
  using turn_undisturbed [OF v u assms(3,4)] turn_undisturbed [OF u v assms(3) [symmetric] assms(4)]
    merge_turns_commute [OF u v assms(3)] by simp

section \<open>Scheduling does not matter\<close>

definition machine_turn :: "'w surroundings \<Rightarrow> 'w machine \<Rightarrow> 'w machine \<Rightarrow> bool" where
  "machine_turn E m m' \<longleftrightarrow> (\<exists>u. unit_turn E u m = Some (Ok m'))"

text \<open>The input module is before a packet that names the descriptor of a queue.\<close>

definition machine_outside :: "'w surroundings \<Rightarrow> 'w machine \<Rightarrow> bool" where
  "machine_outside E m \<longleftrightarrow> mc_answers_to_add m = [] \<and> (\<exists>p ps. mc_preprocessed_executable_packet m = p # ps
     \<and> names_queue (su_queue_fds E) p)"

text \<open>No process has anything to do.\<close>

definition machine_rest :: "'w surroundings \<Rightarrow> 'w machine \<Rightarrow> bool" where
  "machine_rest E m \<longleftrightarrow> (\<forall>u. unit_turn E u m = None) \<and> \<not> machine_outside E m"

lemma outside_stays:
  assumes "unit_turn E u m = Some (Ok m')" and "machine_outside E m"
  shows "machine_outside E m'"
proof (cases u)
  case Instruction_store
  with assms(1) have "instruction_store_turn E m = Some (Ok m')" by simp
  from instruction_store_process.frame [OF this] assms(2) show ?thesis by (auto simp: machine_outside_def)
next
  case Input_module
  with assms show ?thesis by (auto simp: machine_outside_def input_module_turn_def input_module_work_None [THEN iffD2])
qed (use assms in \<open>auto simp: machine_outside_def dest!: unit_frames\<close>)

lemma outside_to_the_end:
  assumes "(machine_turn E ^^ n) m a" and "machine_outside E m"
  shows "machine_outside E a"
  using assms(1)
proof (induction n arbitrary: a)
  case 0
  with assms(2) show ?case by simp
next
  case (Suc n)
  then obtain b u where "(machine_turn E ^^ n) m b" and u: "unit_turn E u b = Some (Ok a)"
    by (auto simp: machine_turn_def [of E _ a])
  from Suc.IH [OF this(1)] outside_stays [OF u] show ?case by blast
qed

lemma turn_on_the_way:
  assumes "(machine_turn E ^^ n) m a" and "machine_rest E a" and "unit_turn E v m = Some r" and "fixed_files E"
  shows "\<exists>m1 n'. r = Ok m1 \<and> n = Suc n' \<and> (machine_turn E ^^ n') m1 a"
  using assms(1,3)
proof (induction n arbitrary: m r)
  case 0
  with assms(2) show ?case by (simp add: machine_rest_def)
next
  case (Suc n)
  from Suc.prems(1) obtain m' where "machine_turn E m m'" and rest: "(machine_turn E ^^ n) m' a"
    by (blast dest: relpowp_Suc_D2)
  then obtain u where u: "unit_turn E u m = Some (Ok m')" by (auto simp: machine_turn_def)
  show ?case
  proof (cases "u = v")
    case True
    with u Suc.prems(2) rest show ?thesis by auto
  next
    case False
    from turn_undisturbed [OF Suc.prems(2) u False assms(4)]
    have "unit_turn E v m' = Some (outcome_bind r (\<lambda>m2. Ok (merge_turns v m m' m2)))" .
    from Suc.IH [OF rest this] obtain m3 n' where m3: "outcome_bind r (\<lambda>m2. Ok (merge_turns v m m' m2)) = Ok m3"
      "n = Suc n'" "(machine_turn E ^^ n') m3 a" by blast
    then obtain m1 where r: "r = Ok m1" by (auto simp: outcome_bind_Ok_iff)
    with Suc.prems(2) have v: "unit_turn E v m = Some (Ok m1)" by simp
    from turns_commute [OF u v False assms(4)] turn_undisturbed [OF v u False assms(4)] m3(1) r
    have "machine_turn E m1 m3" by (auto simp: machine_turn_def)
    from relpowp_Suc_I2 [OF this m3(3)] m3(2) have "(machine_turn E ^^ n) m1 a" by (simp only:)
    with r show ?thesis by blast
  qed
qed

lemma runs_join:
  assumes "(machine_turn E ^^ n) m a" and "machine_rest E a" and "fixed_files E"
    and "(machine_turn E ^^ k) m b"
  shows "k \<le> n \<and> (machine_turn E ^^ (n - k)) b a"
  using assms(1,4)
proof (induction k arbitrary: m n)
  case 0
  then show ?case by simp
next
  case (Suc k)
  from Suc.prems(2) obtain m1 where "machine_turn E m m1" and rest: "(machine_turn E ^^ k) m1 b"
    by (blast dest: relpowp_Suc_D2)
  then obtain v where "unit_turn E v m = Some (Ok m1)" by (auto simp: machine_turn_def)
  from turn_on_the_way [OF Suc.prems(1) assms(2) this assms(3)] obtain n' where
    "n = Suc n'" "(machine_turn E ^^ n') m1 a" by auto
  with Suc.IH [OF this(2) rest] show ?case by simp
qed

section \<open>Waiting\<close>

definition machine_quiet :: "'w machine \<Rightarrow> bool" where
  "machine_quiet m \<longleftrightarrow> mc_packets_to_add m = [] \<and> mc_answers_to_add m = [] \<and> mc_outputs_to_add m = []
     \<and> mc_tokens_to_add m = [] \<and> mc_pairs_to_add m = [] \<and> mc_execution_token_output m = []
     \<and> mc_matching_unit_input m = [] \<and> mc_ready_token_pair m = []
     \<and> mc_preprocessed_executable_packet m = [] \<and> mc_processed_executable_packet m = []"

definition machine_jammed :: "'w machine \<Rightarrow> bool" where
  "machine_jammed m \<longleftrightarrow> mc_packets_to_add m \<noteq> [] \<and> mc_answers_to_add m \<noteq> [] \<and> mc_outputs_to_add m \<noteq> []
     \<and> mc_tokens_to_add m \<noteq> [] \<and> mc_pairs_to_add m \<noteq> []
     \<and> length (mc_execution_token_output m) = MAX_QUEUE_SIZE
     \<and> length (mc_matching_unit_input m) = MAX_QUEUE_SIZE \<and> length (mc_ready_token_pair m) = MAX_QUEUE_SIZE
     \<and> length (mc_preprocessed_executable_packet m) = MAX_QUEUE_SIZE
     \<and> length (mc_processed_executable_packet m) = MAX_QUEUE_SIZE"

text \<open>The input module is in a system call that does not return in this world, or in a SDF without end.\<close>

definition machine_hangs :: "'w surroundings \<Rightarrow> 'w machine \<Rightarrow> bool" where
  "machine_hangs E m \<longleftrightarrow> mc_answers_to_add m = [] \<and> (\<exists>p ps. mc_preprocessed_executable_packet m = p # ps
     \<and> \<not> names_queue (su_queue_fds E) p \<and> input_module_step (su_posix E) p (mc_world m) = None)"

definition queues_bounded :: "'w machine \<Rightarrow> bool" where
  "queues_bounded m \<longleftrightarrow> length (mc_execution_token_output m) \<le> MAX_QUEUE_SIZE
     \<and> length (mc_matching_unit_input m) \<le> MAX_QUEUE_SIZE \<and> length (mc_ready_token_pair m) \<le> MAX_QUEUE_SIZE
     \<and> length (mc_preprocessed_executable_packet m) \<le> MAX_QUEUE_SIZE
     \<and> length (mc_processed_executable_packet m) \<le> MAX_QUEUE_SIZE"

lemma unit_turn_bounded:
  assumes "unit_turn E u m = Some (Ok m')" and "queues_bounded m"
  shows "queues_bounded m'"
  using assms
  by (cases u) (auto simp: queues_bounded_def dest!: unit_effects)

lemma rest_reasons:
  assumes "\<forall>u. unit_turn E u m = None" and "queues_bounded m"
  shows "machine_quiet m \<or> machine_jammed m \<or> machine_hangs E m \<or> machine_outside E m"
proof -
  have st: "unit_turn E Instruction_store m = None" and im: "unit_turn E Input_module m = None"
    and pu: "unit_turn E Processing_unit m = None" and io: "unit_turn E Io_switch m = None"
    and mu: "unit_turn E Matching_unit m = None"
    using assms(1) by blast+
  have pos: "0 < MAX_QUEUE_SIZE" by (simp add: MAX_QUEUE_SIZE_def)
  have blocked:
    "if mc_packets_to_add m \<noteq> [] then length (mc_preprocessed_executable_packet m) = MAX_QUEUE_SIZE
       else mc_ready_token_pair m = []"
    "if mc_outputs_to_add m \<noteq> [] then length (mc_execution_token_output m) = MAX_QUEUE_SIZE
       else mc_processed_executable_packet m = []"
    "if mc_tokens_to_add m \<noteq> [] then length (mc_matching_unit_input m) = MAX_QUEUE_SIZE
       else mc_execution_token_output m = []"
    "if mc_pairs_to_add m \<noteq> [] then length (mc_ready_token_pair m) = MAX_QUEUE_SIZE
       else mc_matching_unit_input m = []"
    using st pu io mu assms(2) by (auto simp: unit_waits queues_bounded_def)
  have input: "machine_hangs E m \<or> machine_outside E m \<or> (if mc_answers_to_add m \<noteq> []
      then length (mc_processed_executable_packet m) = MAX_QUEUE_SIZE
      else mc_preprocessed_executable_packet m = [])"
    using im assms(2)
    by (auto simp: unit_waits queues_bounded_def machine_hangs_def machine_outside_def neq_Nil_conv input_module_work_None)
  show ?thesis
    using blocked input pos
    by (auto simp: machine_quiet_def machine_jammed_def split: if_splits)
qed

section \<open>Runs of the machine\<close>

lemma machine_run_induct [consumes 1, case_names start turn outside]:
  assumes "machine_run E (start_running m0) s" and "P m0"
    and "\<And>u m m'. P m \<Longrightarrow> unit_turn E u m = Some (Ok m') \<Longrightarrow> P m'" and "\<And>m w. P m \<Longrightarrow> P (m\<lparr>mc_world := w\<rparr>)"
  shows "P (run_machine s)"
  using assms(1)
proof (induction rule: rtranclp_induct)
  case base
  with assms(2) show ?case by (simp add: start_running_def)
next
  case (step s s')
  from step.hyps(2) show ?case
    by (cases rule: machine_step.cases) (use step.IH assms(3,4) in \<open>auto simp: child_dies_def\<close>)
qed

lemma machine_start_store:
  assumes "machine_start E junk os_filename w = Ok (Some m0)"
  shows "add_ready_instructions 0 (cs_instructions (mc_store m0)) = Ok (mc_packets_to_add m0)"
    and "mc_answers_to_add m0 = []" "mc_preprocessed_executable_packet m0 = []"
    "mc_processed_executable_packet m0 = []" "queues_bounded m0"
  using assms
  by (auto simp: machine_start_def instruction_store_start_def outcome_bind_Ok_iff queues_bounded_def
      split: option.splits)

lemma machine_run_safe:
  assumes "machine_start E junk os_filename w = Ok (Some m0)"
    and "length (cs_instructions (mc_store m0)) \<le> 2 ^ 28"
    and "\<And>w. clean_files (su_files E w)" and "machine_run E (start_running m0) s"
  shows "machine_safe (cs_instructions (mc_store m0)) (run_machine s)"
  using assms(4)
proof (induction rule: machine_run_induct)
  case start
  show ?case
    using machine_start_store [OF assms(1)] ready_packet_from [OF _ assms(2)] runs_os_start
    by (auto simp: machine_safe_def packet_safe_def)
next
  case (turn u m m')
  show ?case by (rule unit_turn_safe [OF turn(1) assms(3) turn(2)])
qed (simp add: machine_safe_def)

lemma children_alive:
  assumes "machine_run E (start_running m0) s"
  shows "case run_to_kill s of None \<Rightarrow> run_alive s = children
    | Some cs \<Rightarrow> set (run_alive s) \<subseteq> set cs \<and> length cs \<le> 6"
  using assms
proof (induction rule: rtranclp_induct)
  case base
  then show ?case by (simp add: start_running_def)
next
  case (step s s')
  have all: "set children = set kill_order" by (auto simp: children_def kill_order_def)
  from step.hyps(2) show ?case
    by (cases rule: machine_step.cases)
      (use step.IH all in \<open>auto simp: child_dies_def kill_order_def split: option.splits\<close>)
qed

lemma kill_all:
  assumes "run_to_kill s = Some cs" and "set (run_alive s) \<subseteq> set cs"
  shows "\<exists>s'. (machine_step E ^^ length cs) s s' \<and> run_alive s' = [] \<and> run_machine s' = run_machine s"
  using assms
proof (induction cs arbitrary: s)
  case Nil
  then show ?case by simp
next
  case (Cons c cs)
  let ?s1 = "s\<lparr>run_alive := removeAll c (run_alive s), run_to_kill := Some cs\<rparr>"
  have step: "machine_step E s ?s1" using Cons.prems(1) by (rule machine_step.kill)
  have next_steps: "(machine_step E ^^ Suc (length cs)) s s'" if "(machine_step E ^^ length cs) ?s1 s'" for s'
    using step that by (rule relpowp_Suc_I2)
  from Cons.IH [of ?s1] Cons.prems(2) obtain s' where
    "(machine_step E ^^ length cs) ?s1 s'" "run_alive s' = []" "run_machine s' = run_machine s" by auto
  with next_steps show ?case unfolding list.size(4) add_Suc_right add_0_right by blast
qed

section \<open>Properties\<close>

text \<open>
  C1: the privilege boundary of the whole machine. Whatever the scheduler, the files loaded, the answers
  of the system and what happens in the world: as long as no file has a reference with the undocumented
  flag and no file opcode with the descriptor of a queue has been executed, a packet with a privileged
  opcode that reaches the input module or the processing unit is that of an instruction of the operating
  system - the number in it, its opcode, destinations and marker are those of one -, and no packet with a
  file opcode reaches the processing unit. (User code may well send tokens to that instruction; and
  queue_descriptors_forge shows what a file opcode with the descriptor of a queue can do.)
\<close>

theorem machine_privileges:
  assumes "machine_start E junk os_filename w = Ok (Some m0)"
    and "length (cs_instructions (mc_store m0)) \<le> 2 ^ 28"
    and "\<And>w. clean_files (su_files E w)"
    and "machine_run E (start_running m0) s"
    and "p \<in> set (mc_preprocessed_executable_packet (run_machine s))
        \<union> set (mc_processed_executable_packet (run_machine s))"
  shows "(privileged (pkt_opcode p) \<longrightarrow> packet_from (cs_instructions (mc_store m0)) p)
    \<and> (p \<in> set (mc_processed_executable_packet (run_machine s)) \<longrightarrow> no_file_opcode p)"
proof -
  from machine_run_safe [OF assms(1-4)] assms(5) show ?thesis by (auto simp: machine_safe_def packet_safe_def)
qed

text \<open>
  C15: why the machine stops moving. In every state that can be reached without a call on the memory of a
  queue, no queue holds more than its 1024 elements, and when no process can take a turn, then nothing is
  left to do anywhere; or all five queues are full and every process is waiting to add - the one deadlock
  the ring has -; or the input module is in a system call that does not return before the world changes,
  such as a read when nobody has typed, or in a SDF without end; or it is about to make a call with the
  descriptor of a queue.
\<close>

theorem machine_waits:
  assumes "machine_start E junk os_filename w = Ok (Some m0)" and "machine_run E (start_running m0) s"
  shows "queues_bounded (run_machine s) \<and> ((\<forall>u. unit_turn E u (run_machine s) = None) \<longrightarrow>
    machine_quiet (run_machine s) \<or> machine_jammed (run_machine s) \<or> machine_hangs E (run_machine s)
    \<or> machine_outside E (run_machine s))"
proof -
  from assms(2) have "queues_bounded (run_machine s)"
  proof (induction rule: machine_run_induct)
    case start
    show ?case using machine_start_store(5) [OF assms(1)] .
  next
    case (turn u m m')
    show ?case by (rule unit_turn_bounded [OF turn(2,1)])
  qed (simp add: queues_bounded_def)
  then show ?thesis using rest_reasons by blast
qed

text \<open>
  C2: the result of a program does not depend on the scheduler, when the files the instruction store can
  load do not change, nobody but the machine acts on the world, and the n-th calls of random() and time()
  give the same values whenever they come. If some order of turns leads to a state where no process has
  anything to do, then every order does, in the same number of turns, to the same state, with the same
  text printed, and no order comes to a call with the descriptor of a queue on the way.
\<close>

theorem scheduling_does_not_matter:
  assumes "(machine_turn E ^^ n) m a" and "machine_rest E a" and "fixed_files E"
    and "(machine_turn E ^^ k) m b"
  shows "k \<le> n \<and> (machine_turn E ^^ (n - k)) b a \<and> \<not> machine_outside E b \<and> (machine_rest E b \<longrightarrow> k = n \<and> b = a)"
proof -
  note joined = runs_join [OF assms]
  have "\<not> machine_outside E b" using outside_to_the_end [of _ E b a] joined assms(2) by (auto simp: machine_rest_def)
  moreover have "k = n \<and> b = a" if "machine_rest E b"
  proof (cases "n - k")
    case 0
    with joined show ?thesis by simp
  next
    case (Suc d)
    with joined have "(machine_turn E ^^ Suc d) b a" by simp
    then obtain c where "machine_turn E b c" by (blast dest: relpowp_Suc_D2)
    with that show ?thesis by (auto simp: machine_turn_def machine_rest_def)
  qed
  ultimately show ?thesis using joined by blast
qed

text \<open>
  The end of the machine. Until a child of the parent process has died - by HLT, by a fault, or the
  timeout process by its time - all six are alive; and from any later state the parent's own kill calls,
  at most six, leave no child alive, without any process taking another turn.
\<close>

theorem machine_shutdown:
  assumes "machine_run E (start_running m0) s"
  shows "case run_to_kill s of None \<Rightarrow> run_alive s = children
    | Some cs \<Rightarrow> length cs \<le> 6 \<and> (\<exists>s'. (machine_step E ^^ length cs) s s' \<and> run_alive s' = []
        \<and> run_machine s' = run_machine s)"
proof (cases "run_to_kill s")
  case None
  with children_alive [OF assms] show ?thesis by simp
next
  case (Some cs)
  with children_alive [OF assms] kill_all [OF Some] show ?thesis by auto
qed

section \<open>The properties at concrete inputs\<close>

text \<open>The operating system of one instruction, in a world of two files.\<close>

definition small_surroundings :: "(byte list \<times> byte list) surroundings" where
  "small_surroundings = \<lparr>su_posix = two_files, su_files = (\<lambda>w. os_env), su_pu_env = sample_env,
     su_trap_flag = False, su_stack = [0], su_pad = 0, su_junk_token = output_1 blank_result,
     su_queue_fds = [3, 4, 5, 6, 7]\<rparr>"

definition small_machine :: "(byte list \<times> byte list) machine" where
  "small_machine = \<lparr>mc_world = ([], []), mc_store = os_store, mc_processing_unit = pu_init,
     mc_waiting_table = init_waiting_table [] SIZE_MATCHING_STORE, mc_stdout = [],
     mc_packets_to_add = [os_packet], mc_answers_to_add = [], mc_outputs_to_add = [], mc_tokens_to_add = [],
     mc_pairs_to_add = [], mc_execution_token_output = [], mc_matching_unit_input = [],
     mc_ready_token_pair = [], mc_preprocessed_executable_packet = [], mc_processed_executable_packet = []\<rparr>"

lemma small_machine_start: "machine_start small_surroundings [] [111, 115] ([], []) = Ok (Some small_machine)"
  by (simp add: machine_start_def small_surroundings_def os_start small_machine_def)

lemma os_env_clean: "clean_files os_env"
proof -
  have "image_of_bytes content = Some os_image"
    if "read_content zero_malloc (image_file os_image) = Ok (Some content)" for content
    using that image_roundtrip_bytes [of os_image] read_image_file [of os_image]
    by (simp add: os_image_length image_fits_def) (simp add: os_image_def)
  then show ?thesis by (auto simp: clean_files_def os_env_def os_image_def split: if_splits)
qed

text \<open>After the first turn of the instruction store.\<close>

abbreviation moved_machine :: "(byte list \<times> byte list) machine" where
  "moved_machine \<equiv> small_machine\<lparr>mc_packets_to_add := [], mc_preprocessed_executable_packet := [os_packet]\<rparr>"

lemma moved_machine_run: "machine_run small_surroundings (start_running small_machine) (start_running moved_machine)"
proof -
  have "unit_turn small_surroundings Instruction_store small_machine = Some (Ok moved_machine)"
    by (simp add: instruction_store_turn_def small_machine_def MAX_QUEUE_SIZE_def)
  then have "machine_step small_surroundings (start_running small_machine)
      (start_running small_machine\<lparr>run_machine := moved_machine\<rparr>)"
    by (intro turn [of Instruction_store]) (simp_all add: start_running_def children_def)
  then show ?thesis by (simp add: start_running_def)
qed

theorem machine_privileges_witness:
  "privileged (pkt_opcode os_packet) \<and> packet_from (cs_instructions os_store) os_packet"
proof -
  have os: "length (cs_instructions (mc_store small_machine)) = 1"
    by (simp add: small_machine_def os_store_def)
  have clean: "clean_files (su_files small_surroundings w)" for w
    using os_env_clean by (simp add: small_surroundings_def)
  have "pkt_opcode os_packet = opcode_val WRT"
    using os_instruction(1) by (simp only: os_packet_def ready_packet_def execution_packet.simps)
  then have "privileged (pkt_opcode os_packet)"
    by (simp only: privileged_def privileged_opcodes_def) simp
  with machine_privileges [OF small_machine_start _ clean moved_machine_run, of os_packet] os show ?thesis
    by (simp add: start_running_def) (simp add: small_machine_def)
qed

theorem machine_waits_witness:
  "queues_bounded (run_machine (start_running moved_machine))"
  using machine_waits [OF small_machine_start moved_machine_run] by blast

text \<open>A machine whose only token is for the null device.\<close>

theorem scheduling_does_not_matter_witness:
  "\<exists>m a. (machine_turn small_surroundings ^^ 1) m a \<and> m \<noteq> a
     \<and> (\<forall>b. machine_turn small_surroundings m b \<longrightarrow> (machine_turn small_surroundings ^^ 0) b a)"
proof -
  let ?E = small_surroundings
  let ?t = "\<lparr>tok_destination = DEV_NULL_DESTINATION, tok_data = 0, tok_tag = 0\<rparr>"
  let ?a = "small_machine\<lparr>mc_packets_to_add := []\<rparr>"
  let ?m = "?a\<lparr>mc_execution_token_output := [?t]\<rparr>"
  have "io_switch_step [0] (token_bytes 0 ?t) = Ok ([], [])"
    by (simp add: io_switch_step_def token_codec.dec_enc device_destination_defs)
  then have "unit_turn ?E Io_switch ?m = Some (Ok ?a)"
    by (simp add: io_switch_turn_def small_machine_def small_surroundings_def)
  then have "machine_turn ?E ?m ?a" unfolding machine_turn_def by blast
  then have run: "(machine_turn ?E ^^ 1) ?m ?a" by (simp only: relpowp_1)
  have "unit_turn ?E u ?a = None" for u
    by (cases u) (simp_all add: turn_defs small_machine_def)
  then have rest: "machine_rest ?E ?a" by (simp add: machine_rest_def machine_outside_def small_machine_def)
  have files: "fixed_files ?E" by (simp add: fixed_files_def small_surroundings_def)
  have "(machine_turn ?E ^^ 0) b ?a" if "machine_turn ?E ?m b" for b
    using scheduling_does_not_matter [OF run rest files, of 1 b] that by (simp only: relpowp_1) simp
  with run show ?thesis by (intro exI [of _ ?m] exI [of _ ?a]) (simp add: small_machine_def)
qed

theorem machine_shutdown_witness:
  "case run_to_kill (child_dies Timeout_process (start_running moved_machine)) of None \<Rightarrow> False
    | Some cs \<Rightarrow> length cs \<le> 6 \<and> (\<exists>s'. (machine_step small_surroundings ^^ length cs)
        (child_dies Timeout_process (start_running moved_machine)) s' \<and> run_alive s' = [])"
proof -
  have "machine_step small_surroundings (start_running moved_machine)
      (child_dies Timeout_process (start_running moved_machine))"
    by (rule timeout) (simp add: start_running_def children_def)
  with moved_machine_run have "machine_run small_surroundings (start_running small_machine)
      (child_dies Timeout_process (start_running moved_machine))" by (rule rtranclp.rtrancl_into_rtrancl)
  from machine_shutdown [OF this] show ?thesis by (auto simp: child_dies_def start_running_def)
qed

section \<open>Why a process dies\<close>

lemma processing_unit_dies:
  assumes "pu_ok c st" and "c + 2 \<le> 2 ^ 28" and "\<not> is_ok (processing_unit_step trap_flag env p st)"
  shows "pkt_opcode p = opcode_val HLT
    \<and> processing_unit_step trap_flag env p st = Exit (ucast (pkt_data_1 p))"
proof -
  have ends: "processing_unit_step trap_flag env p st = Exit (ucast (pkt_data_1 p))"
    if "pkt_opcode p = opcode_val HLT"
    using function_unit_answers [of p env "pu_random_calls st"] that
    by (simp add: processing_unit_step_def del: opcode_val.simps)
  have "pkt_opcode p = opcode_val HLT"
  proof (rule ccontr)
    assume "pkt_opcode p \<noteq> opcode_val HLT"
    with function_unit_answers [of p env "pu_random_calls st"] obtain rc where
      "function_unit env (pu_random_calls st) p = Ok rc" by auto
    then have "is_ok (trap_spec trap_flag env p (pu_abs st))"
      by (simp add: trap_spec_def pu_abs_def Let_def split: prod.splits)
    then obtain x where "trap_spec trap_flag env p (pu_abs st) = Ok x"
      by (cases "trap_spec trap_flag env p (pu_abs st)") auto
    with processing_unit_step_refines(1) [OF assms(1,2), of trap_flag env p]
    have "step_view (processing_unit_step trap_flag env p st) = Ok (fst x, event_tokens (snd x))"
      by (simp add: split_def)
    with assms(3) show False
      by (cases "processing_unit_step trap_flag env p st") (simp_all add: step_view_def)
  qed
  with ends show ?thesis by blast
qed

text \<open>The instruction a pair is for, when its opcode makes the instruction store do more than a fetch.\<close>

definition risky_pair :: "code_store \<Rightarrow> ready_token_pair_type \<Rightarrow> bool" where
  "risky_pair cs pair \<longleftrightarrow> (let address = unat (DESTINATION_TO_ADDRESS (tok_destination (token_1 pair)))
     in address < length (cs_instructions cs) \<and> (let op = inst_opcode (cs_instructions cs ! address)
        in op = opcode_val LOD \<or> opcode_of op = None))"

lemma num_inputs_outcome: "num_inputs_of v \<noteq> Exit e"
  by (simp add: num_inputs_of_def)

lemma add_ready_outcome: "add_ready_instructions i insts \<noteq> Exit e"
  by (induction i insts rule: add_ready_instructions.induct)
    (auto simp: outcome_bind_Exit_iff num_inputs_outcome)

lemma read_all_outcome: "read_all rd n cap buf_size got \<noteq> Exit e"
proof (induction rd n cap buf_size got rule: read_all.induct)
  case (1 rd n cap buf_size got)
  then show ?case by (subst read_all.simps) (auto split: option.splits)
qed

lemma resolve_references_no_exit: "resolve_references start n exports rs insts \<noteq> Exit e"
  by (induction start n exports rs insts rule: resolve_references.induct)
    (auto simp: Let_def split: option.splits)

lemma load_file_outcome: "load_file malloc fd is_privileged cs \<noteq> Exit e"
  by (auto simp: load_file_def read_content_def load_image_def outcome_bind_Exit_iff Let_def
      read_all_outcome resolve_references_no_exit split: option.splits if_splits)

lemma load_instruction_outcome: "load_instruction env inst address pair cs \<noteq> Exit e"
  by (auto simp: load_instruction_def outcome_bind_Exit_iff Let_def load_file_outcome add_ready_outcome
      split: option.splits)

lemma instruction_store_dies:
  assumes "\<not> is_ok (instruction_store_step env pair cs)"
  shows "instruction_store_step env pair cs = Fault \<and> risky_pair cs pair"
proof -
  have "instruction_store_step env pair cs \<noteq> Exit e" for e
    by (simp add: instruction_store_step_def outcome_bind_Exit_iff Let_def num_inputs_outcome
        load_instruction_outcome del: opcode_val.simps literal_val.simps)
  then have "instruction_store_step env pair cs = Fault"
    using assms by (cases "instruction_store_step env pair cs") auto
  moreover have "risky_pair cs pair"
  proof (rule ccontr)
    assume safe: "\<not> risky_pair cs pair"
    let ?address = "unat (DESTINATION_TO_ADDRESS (tok_destination (token_1 pair)))"
    let ?op = "inst_opcode (cs_instructions cs ! ?address)"
    show False
    proof (cases "?address < length (cs_instructions cs)")
      case True
      with safe have "?op \<noteq> opcode_val LOD" "opcode_of ?op \<noteq> None" by (simp_all add: risky_pair_def Let_def)
      with num_inputs_known obtain n where "num_inputs_of ?op = Ok n" by blast
      with True \<open>?op \<noteq> opcode_val LOD\<close> assms show False
        by (simp add: instruction_store_step_def Let_def del: opcode_val.simps literal_val.simps
            split: if_splits)
    qed (use assms in \<open>simp add: instruction_store_step_def Let_def\<close>)
  qed
  ultimately show ?thesis ..
qed

lemma io_switch_dies:
  assumes "\<not> is_ok (outcome_bind (io_switch_step stack next_token) (\<lambda>(printed, out). Ok (f printed, g out)))"
  shows "io_switch_step stack next_token = Fault \<and> unterminated stack next_token"
  using assms by (simp add: io_switch_step_spec split: if_splits)

text \<open>The data of the processing unit and the matching unit is well formed.\<close>

definition machine_ok :: "nat \<Rightarrow> 'w machine \<Rightarrow> bool" where
  "machine_ok c m \<longleftrightarrow> waiting_table_inv (mc_waiting_table m) \<and> pu_ok c (mc_processing_unit m)"

lemma machine_ok_more: "machine_ok c m \<Longrightarrow> c \<le> d \<Longrightarrow> machine_ok d m"
  by (auto simp: machine_ok_def pu_ok_def)

lemma unit_turn_ok:
  assumes ok: "machine_ok c m" and c: "c + 2 \<le> 2 ^ 28" and step: "unit_turn E u m = Some (Ok m')"
  shows "machine_ok (c + 2) m'"
proof (cases u)
  case Processing_unit
  with step have turn: "processing_unit_turn E m = Some (Ok m')" by simp
  have table: "mc_waiting_table m' = mc_waiting_table m"
    and unit: "mc_processing_unit m' = mc_processing_unit m \<or> (\<exists>p. processing_unit_step (su_trap_flag E)
      (su_pu_env E) p (mc_processing_unit m) = Ok (mc_processing_unit m', mc_outputs_to_add m'))"
    using processing_unit_process.effect [OF turn] by auto
  from unit have "pu_ok (c + 2) (mc_processing_unit m')"
  proof
    assume "mc_processing_unit m' = mc_processing_unit m"
    then show ?thesis using ok machine_ok_more [OF ok] by (simp add: machine_ok_def)
  next
    assume "\<exists>p. processing_unit_step (su_trap_flag E)
      (su_pu_env E) p (mc_processing_unit m) = Ok (mc_processing_unit m', mc_outputs_to_add m')"
    then show ?thesis using processing_unit_step_refines(2) ok c by (auto simp: machine_ok_def)
  qed
  with table ok show ?thesis by (simp add: machine_ok_def)
next
  case Matching_unit
  with step have turn: "matching_unit_turn E m = Some (Ok m')" by simp
  have unit: "mc_processing_unit m' = mc_processing_unit m"
    and table: "mc_waiting_table m' = mc_waiting_table m \<or> (\<exists>t. matching_unit_step (su_junk_token E) t
      (mc_waiting_table m) = Ok (mc_waiting_table m', mc_pairs_to_add m'))"
    using matching_unit_process.effect [OF turn] by auto
  from table have "waiting_table_inv (mc_waiting_table m')"
  proof
    assume "\<exists>t. matching_unit_step (su_junk_token E) t (mc_waiting_table m)
      = Ok (mc_waiting_table m', mc_pairs_to_add m')"
    then obtain t where t: "matching_unit_step (su_junk_token E) t (mc_waiting_table m)
      = Ok (mc_waiting_table m', mc_pairs_to_add m')" ..
    have "waiting_table_inv (mc_waiting_table m)" using ok by (simp add: machine_ok_def)
    from matching_unit_step_refines [OF this, of "su_junk_token E" t] t show ?thesis by auto
  qed (use ok in \<open>simp add: machine_ok_def\<close>)
  with unit machine_ok_more [OF ok, of "c + 2"] show ?thesis by (simp add: machine_ok_def)
qed (use step machine_ok_more [OF ok, of "c + 2"] in \<open>auto simp: machine_ok_def dest!: unit_effects\<close>)

lemma machine_turns_ok:
  assumes "(machine_turn E ^^ n) m0 m" and "machine_ok 0 m0" and "n \<le> 2 ^ 27"
  shows "machine_ok (2 * n) m"
  using assms(1,3)
proof (induction n arbitrary: m)
  case 0
  then show ?case using assms(2) by simp
next
  case (Suc n)
  from Suc.prems(1) obtain m' u where "(machine_turn E ^^ n) m0 m'" "unit_turn E u m' = Some (Ok m)"
    by (auto simp: machine_turn_def [of E _ m])
  with unit_turn_ok [OF Suc.IH, of m' E u m] Suc.prems(2) show ?case by simp
qed

lemma machine_start_ok:
  assumes "machine_start E junk os_filename w = Ok (Some m0)"
  shows "machine_ok 0 m0"
proof -
  have "mc_waiting_table m0 = init_waiting_table junk SIZE_MATCHING_STORE" "mc_processing_unit m0 = pu_init"
    using assms by (auto simp: machine_start_def outcome_bind_Ok_iff)
  then show ?thesis
    using init_waiting_table_inv [of SIZE_MATCHING_STORE junk] pu_init_ok
    by (simp add: machine_ok_def SIZE_MATCHING_STORE_def)
qed

lemma relpowp_machine_run:
  assumes "(machine_turn E ^^ n) m0 m"
  shows "machine_run E (start_running m0) (start_running m)"
  using assms
proof (induction n arbitrary: m)
  case 0
  then show ?case by simp
next
  case (Suc n)
  from Suc.prems obtain m' u where run: "(machine_turn E ^^ n) m0 m'" and u: "unit_turn E u m' = Some (Ok m)"
    by (auto simp: machine_turn_def [of E _ m])
  have "Unit u \<in> set (run_alive (start_running m'))"
    by (cases u) (simp_all add: start_running_def children_def)
  from machine_step.turn [OF this, of E m] u have "machine_step E (start_running m') (start_running m)"
    by (simp add: start_running_def)
  with Suc.IH [OF run] show ?case by (rule rtranclp.rtrancl_into_rtrancl)
qed

lemma processing_unit_death:
  assumes "machine_start E junk os_filename w = Ok (Some m0)" and "(machine_turn E ^^ n) m0 m"
    and "n < 2 ^ 27" and "processing_unit_turn E m = Some r" and "\<not> is_ok r" and ok: "machine_ok (2 * n) m"
  shows "\<exists>p ps. mc_processed_executable_packet m = p # ps
    \<and> pkt_opcode p = opcode_val HLT \<and> r = Exit (ucast (pkt_data_1 p))
    \<and> ((\<forall>w. clean_files (su_files E w)) \<and> length (cs_instructions (mc_store m0)) \<le> 2 ^ 28
       \<longrightarrow> packet_from (cs_instructions (mc_store m0)) p)"
proof -
  from assms(4,5) processing_unit_process.dies [of E m r] obtain p ps where
    p: "mc_processed_executable_packet m = p # ps"
    and dead: "\<not> is_ok (processing_unit_step (su_trap_flag E) (su_pu_env E) p (mc_processing_unit m))"
    and r: "r = outcome_bind (processing_unit_step (su_trap_flag E) (su_pu_env E) p (mc_processing_unit m))
      (\<lambda>(s, out). Ok (m\<lparr>mc_processing_unit := s, mc_outputs_to_add := out,
         mc_processed_executable_packet := ps\<rparr>))" by auto
  have "pu_ok (2 * n) (mc_processing_unit m)" "2 * n + 2 \<le> 2 ^ 28"
    using ok assms(3) by (simp_all add: machine_ok_def)
  from processing_unit_dies [OF this dead] have halt: "pkt_opcode p = opcode_val HLT"
    "r = Exit (ucast (pkt_data_1 p))" by (simp_all only: r outcome_bind.simps)
  have "privileged (pkt_opcode p)" by (simp add: halt(1) privileged_def privileged_opcodes_def)
  moreover have "packet_safe (cs_instructions (mc_store m0)) p"
    if "\<And>w. clean_files (su_files E w)" "length (cs_instructions (mc_store m0)) \<le> 2 ^ 28"
    using machine_run_safe [OF assms(1) that(2,1) relpowp_machine_run [OF assms(2)]] p
    by (simp add: machine_safe_def start_running_def)
  ultimately show ?thesis unfolding packet_safe_def using p halt by blast
qed

text \<open>
  C16: why a process dies. In the first \<open>2 ^ 27\<close> turns after the start, without a call with the descriptor
  of a queue, the input module and the matching unit never die. The processing unit dies at a HLT only,
  with the operand as its status, and when no file has a reference with the undocumented flag that HLT is
  the packet of an instruction of the operating system. The I/O switch dies at a string without an end,
  and the instruction store at a pair for a LOD or for an instruction whose opcode is not in the enum,
  both by an access to memory that is not theirs.
\<close>

theorem machine_deaths:
  assumes "machine_start E junk os_filename w = Ok (Some m0)" and "(machine_turn E ^^ n) m0 m"
    and "n < 2 ^ 27" and "unit_turn E u m = Some r" and "\<not> is_ok r"
  shows "case u of
      Input_module \<Rightarrow> False
    | Matching_unit \<Rightarrow> False
    | Processing_unit \<Rightarrow> (\<exists>p ps. mc_processed_executable_packet m = p # ps
        \<and> pkt_opcode p = opcode_val HLT \<and> r = Exit (ucast (pkt_data_1 p))
        \<and> ((\<forall>w. clean_files (su_files E w)) \<and> length (cs_instructions (mc_store m0)) \<le> 2 ^ 28
           \<longrightarrow> packet_from (cs_instructions (mc_store m0)) p))
    | Io_switch \<Rightarrow> r = Fault \<and> (\<exists>t ts. mc_execution_token_output m = t # ts
        \<and> unterminated (su_stack E) (token_bytes (su_pad E) t))
    | Instruction_store \<Rightarrow> r = Fault \<and> (\<exists>pair pairs. mc_ready_token_pair m = pair # pairs
        \<and> risky_pair (mc_store m) pair)"
proof -
  have ok: "machine_ok (2 * n) m" using machine_turns_ok [OF assms(2) machine_start_ok [OF assms(1)]] assms(3)
    by simp
  show ?thesis
  proof (cases u)
    case Instruction_store
    with assms(4,5) instruction_store_process.dies [of E m r] obtain pair pairs where
      pair: "mc_ready_token_pair m = pair # pairs"
      and dead: "\<not> is_ok (instruction_store_step (su_files E (mc_world m)) pair (mc_store m))"
      and r: "r = outcome_bind (instruction_store_step (su_files E (mc_world m)) pair (mc_store m))
        (\<lambda>(cs, out). Ok (m\<lparr>mc_store := cs, mc_packets_to_add := out, mc_ready_token_pair := pairs\<rparr>))" by auto
    from instruction_store_dies [OF dead] pair Instruction_store show ?thesis by (simp add: r)
  next
    case Input_module
    with assms(4) have "input_module_turn E m = Some r" by simp
    from input_module_process.dies [OF this assms(5)] show ?thesis by (auto simp: input_module_work_Some)
  next
    case Processing_unit
    with assms(4) have turn: "processing_unit_turn E m = Some r" by simp
    show ?thesis
      unfolding Processing_unit machine_unit.case by (rule processing_unit_death [OF assms(1-3) turn assms(5) ok])
  next
    case Io_switch
    with assms(4) have "io_switch_turn E m = Some r" by simp
    from io_switch_process.dies [OF this assms(5)] obtain t ts where
      t: "mc_execution_token_output m = t # ts"
      and dead: "\<not> is_ok (outcome_bind (io_switch_step (su_stack E) (token_bytes (su_pad E) t))
        (\<lambda>(printed, out). Ok (mc_stdout m @ printed, map token_of_bytes out)))"
      and r: "r = outcome_bind (outcome_bind (io_switch_step (su_stack E) (token_bytes (su_pad E) t))
        (\<lambda>(printed, out). Ok (mc_stdout m @ printed, map token_of_bytes out)))
        (\<lambda>(s, out). Ok (m\<lparr>mc_stdout := s, mc_tokens_to_add := out, mc_execution_token_output := ts\<rparr>))"
      by auto
    from io_switch_dies [OF dead] t Io_switch show ?thesis by (simp add: r)
  next
    case Matching_unit
    with assms(4) have turn: "matching_unit_turn E m = Some r" by simp
    from matching_unit_process.dies [OF this assms(5)] obtain t where
      dead: "\<not> is_ok (matching_unit_step (su_junk_token E) t (mc_waiting_table m))" by auto
    have "waiting_table_inv (mc_waiting_table m)" using ok by (simp add: machine_ok_def)
    from matching_unit_step_refines [OF this, of "su_junk_token E" t] dead show ?thesis by auto
  qed
qed

section \<open>A death at a concrete input\<close>

text \<open>An operating system that halts with status 3.\<close>

definition halt_image :: sephi_image where
  "halt_image = os_image\<lparr>img_instructions := [(sample_instruction HLT)\<lparr>inst_literal_1 := 3,
     inst_instruction_literal := literal_val TWO\<rparr>]\<rparr>"

definition halt_instruction :: instruction where
  "halt_instruction = relocate_instruction [] [] 0 True 0 (img_instructions halt_image ! 0)"

definition halt_packet :: execution_packet where
  "halt_packet = ready_packet halt_instruction (inst_literal_2 halt_instruction) 0"

definition halt_surroundings :: "(byte list \<times> byte list) surroundings" where
  "halt_surroundings = small_surroundings\<lparr>su_files := (\<lambda>w. \<lparr>se_malloc = zero_malloc,
     se_open = (\<lambda>name. if name = [111, 115] then Some (image_file halt_image) else None)\<rparr>)\<rparr>"

definition halt_machine :: "(byte list \<times> byte list) machine" where
  "halt_machine = small_machine\<lparr>mc_store := \<lparr>cs_instructions = [halt_instruction], cs_exports = []\<rparr>,
     mc_packets_to_add := [halt_packet]\<rparr>"

lemma halt_instruction_fields:
  "inst_opcode halt_instruction = opcode_val HLT" "inst_literal_1 halt_instruction = 3"
  "inst_instruction_literal halt_instruction = literal_val TWO"
  by (simp_all add: halt_instruction_def relocate_fields halt_image_def sample_instruction_def)

lemma halt_packet_fields: "opcode_of (pkt_opcode halt_packet) = Some HLT" "pkt_data_1 halt_packet = 3"
  by (simp_all add: halt_packet_def ready_packet_def halt_instruction_fields opcode_of_Some)

lemma halt_machine_start: "machine_start halt_surroundings [] [111, 115] ([], []) = Ok (Some halt_machine)"
proof -
  have "length (image_bytes halt_image) = 56"
    by (simp add: image_bytes_def halt_image_def os_image_def header_codec instruction_codec.length_enc)
  moreover have "load_image (image_bytes halt_image) True empty_store
      = Ok (mc_store halt_machine, Some (loaded_as 0 halt_image))"
    using image_roundtrip_bytes [of halt_image]
    by (simp add: image_fits_def halt_image_def os_image_def load_image_def empty_store_def relocate_all_def
        halt_machine_def halt_instruction_def loaded_as_def Let_def)
  moreover have "add_ready_instructions 0 [halt_instruction] = Ok [halt_packet]"
    using halt_instruction_fields by (simp add: halt_packet_def)
  ultimately show ?thesis
    by (simp add: machine_start_def instruction_store_start_def halt_surroundings_def small_surroundings_def
        halt_machine_def small_machine_def load_image_file)
qed

text \<open>The packet goes through the input module to the processing unit.\<close>

lemma halt_run:
  "(machine_turn halt_surroundings ^^ 3) halt_machine
     (halt_machine\<lparr>mc_packets_to_add := [], mc_processed_executable_packet := [halt_packet]\<rparr>)"
proof -
  let ?turn = "machine_turn halt_surroundings"
  let ?m1 = "halt_machine\<lparr>mc_packets_to_add := [], mc_preprocessed_executable_packet := [halt_packet]\<rparr>"
  let ?m2 = "halt_machine\<lparr>mc_packets_to_add := [], mc_answers_to_add := [halt_packet]\<rparr>"
  let ?m3 = "halt_machine\<lparr>mc_packets_to_add := [], mc_processed_executable_packet := [halt_packet]\<rparr>"
  have "unit_turn halt_surroundings Instruction_store halt_machine = Some (Ok ?m1)"
    by (simp add: instruction_store_turn_def halt_machine_def small_machine_def MAX_QUEUE_SIZE_def)
  then have 1: "?turn halt_machine ?m1" unfolding machine_turn_def by blast
  have "input_module_work halt_surroundings w halt_packet = Some (Ok (w, [halt_packet]))" for w
    by (simp add: input_module_work_def input_module_step_def names_queue_def descriptors_of_def halt_packet_fields)
  then have "unit_turn halt_surroundings Input_module ?m1 = Some (Ok ?m2)"
    by (simp add: input_module_turn_def halt_machine_def small_machine_def)
  then have 2: "?turn ?m1 ?m2" unfolding machine_turn_def by blast
  have "unit_turn halt_surroundings Input_module ?m2 = Some (Ok ?m3)"
    by (simp add: input_module_turn_def halt_machine_def small_machine_def MAX_QUEUE_SIZE_def)
  then have 3: "?turn ?m2 ?m3" unfolding machine_turn_def by blast
  from 3 have "(?turn ^^ 1) ?m2 ?m3" by (simp only: relpowp_1)
  with 2 have "(?turn ^^ Suc 1) ?m1 ?m3" by (rule relpowp_Suc_I2)
  with 1 have "(?turn ^^ Suc (Suc 1)) halt_machine ?m3" by (rule relpowp_Suc_I2)
  then show ?thesis by (simp only: numeral_3_eq_3 One_nat_def)
qed

theorem machine_deaths_witness:
  "\<exists>m. (machine_turn halt_surroundings ^^ 3) halt_machine m
     \<and> unit_turn halt_surroundings Processing_unit m = Some (Exit 3)"
proof -
  let ?m = "halt_machine\<lparr>mc_packets_to_add := [], mc_processed_executable_packet := [halt_packet]\<rparr>"
  have "function_unit e c halt_packet = Exit 3" for e c
    using function_unit_answers [of halt_packet e c] halt_packet_fields by (simp add: opcode_of_Some)
  then have dead: "\<not> is_ok r" if "unit_turn halt_surroundings Processing_unit ?m = Some r" for r
    using that by (auto simp: processing_unit_turn_def processing_unit_step_def halt_machine_def small_machine_def)
  obtain r where r: "unit_turn halt_surroundings Processing_unit ?m = Some r"
    by (auto simp: processing_unit_turn_def halt_machine_def small_machine_def)
  from machine_deaths [OF halt_machine_start halt_run _ r dead [OF r]] have "r = Exit 3"
    by (auto simp: halt_machine_def halt_packet_fields)
  with r halt_run show ?thesis by blast
qed

end
