(* ===== verification/Queue_Concurrency.thy ===== *)
theory Queue_Concurrency
  imports Shared_Queue
begin

text \<open>
  queue.c under concurrency: any number of processes call queue_add and queue_remove on one queue, and
  a scheduler interleaves their steps. A step is one operation on shared memory: sem_wait, locking, one
  byte of a memcpy, the update of a pointer, unlocking, sem_post. The theory shows that the semaphores
  and the mutex make the calls atomic.
\<close>

section \<open>Processes\<close>

text \<open>
  Where a process is in queue_add or queue_remove: before sem_wait, before the lock, in the memcpy after
  a number of bytes, before the pointer update, before the unlock, before sem_post.
\<close>

datatype call_state =
    Idle
  | Add_wait "byte list" | Add_lock "byte list" | Add_copy "byte list" nat | Add_move "byte list"
  | Add_unlock "byte list" | Add_post "byte list"
  | Remove_wait | Remove_lock | Remove_copy "byte list" | Remove_move "byte list"
  | Remove_unlock "byte list" | Remove_post "byte list"

text \<open>
  The history, kept for the proofs: when a call starts, takes effect on the ring, and returns.
\<close>

datatype queue_event =
    Call_add nat "byte list" | Do_add nat "byte list" | Return_add nat
  | Call_remove nat | Do_remove nat "byte list" | Return_remove nat "byte list"

record queue_system =
  qs_queue :: queue
  qs_lock :: "nat option"
  qs_calls :: "call_state list"
  qs_history :: "queue_event list"

definition goto :: "nat \<Rightarrow> call_state \<Rightarrow> queue_system \<Rightarrow> queue_system" where
  "goto p c s = s\<lparr>qs_calls := (qs_calls s)[p := c]\<rparr>"

definition note_event :: "queue_event \<Rightarrow> queue_system \<Rightarrow> queue_system" where
  "note_event ev s = s\<lparr>qs_history := qs_history s @ [ev]\<rparr>"

text \<open>One byte of the two copies; None when it is outside the mapping.\<close>

definition copy_byte_in :: "queue \<Rightarrow> byte list \<Rightarrow> nat \<Rightarrow> queue option" where
  "copy_byte_in q element k =
     (let mem = q_mem q in
      if k < length element \<and> sq_tail mem + k < length (sq_data mem)
      then Some (q\<lparr>q_mem := mem\<lparr>sq_data := (sq_data mem)[sq_tail mem + k := element ! k]\<rparr>\<rparr>)
      else None)"

definition copy_byte_out :: "queue \<Rightarrow> nat \<Rightarrow> byte option" where
  "copy_byte_out q k =
     (let mem = q_mem q in
      if sq_head mem + k < length (sq_data mem) then Some (sq_data mem ! (sq_head mem + k)) else None)"

text \<open>The next step of process \<open>p\<close>; None when it has to wait or has nothing to do.\<close>

fun call_step :: "nat \<Rightarrow> call_state \<Rightarrow> queue_system \<Rightarrow> queue_system option" where
  "call_step p Idle s = None"
| "call_step p (Add_wait e) s =
     map_option (\<lambda>q. goto p (Add_lock e) (s\<lparr>qs_queue := q\<rparr>)) (wait_write (qs_queue s))"
| "call_step p (Add_lock e) s =
     (if qs_lock s = None then Some (goto p (Add_copy e 0) (s\<lparr>qs_lock := Some p\<rparr>)) else None)"
| "call_step p (Add_copy e k) s =
     (if k < q_element_size (qs_queue s)
      then map_option (\<lambda>q. goto p (Add_copy e (Suc k)) (s\<lparr>qs_queue := q\<rparr>)) (copy_byte_in (qs_queue s) e k)
      else Some (goto p (Add_move e) s))"
| "call_step p (Add_move e) s =
     Some (goto p (Add_unlock e) (note_event (Do_add p e) (s\<lparr>qs_queue := advance_tail (qs_queue s)\<rparr>)))"
| "call_step p (Add_unlock e) s = Some (goto p (Add_post e) (s\<lparr>qs_lock := None\<rparr>))"
| "call_step p (Add_post e) s =
     Some (goto p Idle (note_event (Return_add p) (s\<lparr>qs_queue := post_read (qs_queue s)\<rparr>)))"
| "call_step p Remove_wait s =
     map_option (\<lambda>q. goto p Remove_lock (s\<lparr>qs_queue := q\<rparr>)) (wait_read (qs_queue s))"
| "call_step p Remove_lock s =
     (if qs_lock s = None then Some (goto p (Remove_copy []) (s\<lparr>qs_lock := Some p\<rparr>)) else None)"
| "call_step p (Remove_copy got) s =
     (if length got < q_element_size (qs_queue s)
      then map_option (\<lambda>b. goto p (Remove_copy (got @ [b])) s) (copy_byte_out (qs_queue s) (length got))
      else Some (goto p (Remove_move got) s))"
| "call_step p (Remove_move got) s =
     Some (goto p (Remove_unlock got)
       (note_event (Do_remove p got) (s\<lparr>qs_queue := advance_head (qs_queue s)\<rparr>)))"
| "call_step p (Remove_unlock got) s = Some (goto p (Remove_post got) (s\<lparr>qs_lock := None\<rparr>))"
| "call_step p (Remove_post got) s =
     Some (goto p Idle (note_event (Return_remove p got) (s\<lparr>qs_queue := post_write (qs_queue s)\<rparr>)))"

text \<open>The steps of calls that are running, and the start of new calls by idle processes.\<close>

inductive run_step :: "queue_system \<Rightarrow> queue_system \<Rightarrow> bool" where
  run: "p < length (qs_calls s) \<Longrightarrow> call_step p (qs_calls s ! p) s = Some s' \<Longrightarrow> run_step s s'"

inductive start_call :: "queue_system \<Rightarrow> queue_system \<Rightarrow> bool" where
  start_add: "p < length (qs_calls s) \<Longrightarrow> qs_calls s ! p = Idle \<Longrightarrow> queue_valid (qs_queue s) e \<Longrightarrow>
    start_call s (goto p (Add_wait e) (note_event (Call_add p e) s))"
| start_remove: "p < length (qs_calls s) \<Longrightarrow> qs_calls s ! p = Idle \<Longrightarrow>
    start_call s (goto p Remove_wait (note_event (Call_remove p) s))"

inductive system_reach :: "queue_system \<Rightarrow> queue_system \<Rightarrow> bool" for s0 where
  reach_start: "system_reach s0 s0"
| reach_run: "system_reach s0 s \<Longrightarrow> run_step s s' \<Longrightarrow> system_reach s0 s'"
| reach_call: "system_reach s0 s \<Longrightarrow> start_call s s' \<Longrightarrow> system_reach s0 s'"

inductive_cases run_stepE: "run_step s s'"
inductive_cases start_callE: "start_call s s'"

text \<open>A fresh queue and \<open>n\<close> processes.\<close>

definition system_start :: "queue \<Rightarrow> nat \<Rightarrow> queue_system" where
  "system_start q n = \<lparr>qs_queue = q, qs_lock = None, qs_calls = replicate n Idle, qs_history = []\<rparr>"

section \<open>What the history says\<close>

text \<open>Replaying the effects on a bounded list.\<close>

fun replay_event :: "nat \<Rightarrow> queue_event \<Rightarrow> byte list list option \<Rightarrow> byte list list option" where
  "replay_event cap ev None = None"
| "replay_event cap (Do_add p e) (Some xs) = (if length xs < cap then Some (xs @ [e]) else None)"
| "replay_event cap (Do_remove p e) (Some xs) = (if xs \<noteq> [] \<and> hd xs = e then Some (tl xs) else None)"
| "replay_event cap _ (Some xs) = Some xs"

definition replay :: "nat \<Rightarrow> queue_event list \<Rightarrow> byte list list option" where
  "replay cap evs = fold (replay_event cap) evs (Some [])"

text \<open>The life of the calls of one process: call, effect, return, with the same element.\<close>

datatype call_phase = Ready | Adding "byte list" | Added | Removing | Removed "byte list"

fun phase_event :: "nat \<Rightarrow> queue_event \<Rightarrow> call_phase option \<Rightarrow> call_phase option" where
  "phase_event p ev None = None"
| "phase_event p (Call_add r e) (Some ph) =
     (if r \<noteq> p then Some ph else if ph = Ready then Some (Adding e) else None)"
| "phase_event p (Do_add r e) (Some ph) =
     (if r \<noteq> p then Some ph else if ph = Adding e then Some Added else None)"
| "phase_event p (Return_add r) (Some ph) =
     (if r \<noteq> p then Some ph else if ph = Added then Some Ready else None)"
| "phase_event p (Call_remove r) (Some ph) =
     (if r \<noteq> p then Some ph else if ph = Ready then Some Removing else None)"
| "phase_event p (Do_remove r e) (Some ph) =
     (if r \<noteq> p then Some ph else if ph = Removing then Some (Removed e) else None)"
| "phase_event p (Return_remove r e) (Some ph) =
     (if r \<noteq> p then Some ph else if ph = Removed e then Some Ready else None)"

definition phases :: "nat \<Rightarrow> queue_event list \<Rightarrow> call_phase option" where
  "phases p evs = fold (phase_event p) evs (Some Ready)"

text \<open>
  A history is linearizable: the calls of every process are well formed, each with its effect between
  call and return, and the effects in their order are a run of the bounded list.
\<close>

definition linearizable :: "nat \<Rightarrow> queue_event list \<Rightarrow> bool" where
  "linearizable cap evs \<longleftrightarrow> (\<forall>p. phases p evs \<noteq> None) \<and> replay cap evs \<noteq> None"

lemma replay_snoc [simp]: "replay cap (evs @ [ev]) = replay_event cap ev (replay cap evs)"
  by (simp add: replay_def)

lemma phases_snoc [simp]: "phases p (evs @ [ev]) = phase_event p ev (phases p evs)"
  by (simp add: phases_def)

section \<open>The invariant\<close>

text \<open>
  Who holds a permit of a semaphore without having changed the ring, and who has changed the ring
  without having posted the other semaphore.
\<close>

fun will_add :: "call_state \<Rightarrow> nat" where
  "will_add (Add_lock e) = 1" | "will_add (Add_copy e k) = 1" | "will_add (Add_move e) = 1"
| "will_add _ = 0"

fun has_added :: "call_state \<Rightarrow> nat" where
  "has_added (Add_unlock e) = 1" | "has_added (Add_post e) = 1" | "has_added _ = 0"

fun will_remove :: "call_state \<Rightarrow> nat" where
  "will_remove Remove_lock = 1" | "will_remove (Remove_copy e) = 1" | "will_remove (Remove_move e) = 1"
| "will_remove _ = 0"

fun has_removed :: "call_state \<Rightarrow> nat" where
  "has_removed (Remove_unlock e) = 1" | "has_removed (Remove_post e) = 1" | "has_removed _ = 0"

fun in_critical :: "call_state \<Rightarrow> bool" where
  "in_critical (Add_copy e k) = True" | "in_critical (Add_move e) = True"
| "in_critical (Add_unlock e) = True" | "in_critical (Remove_copy e) = True"
| "in_critical (Remove_move e) = True" | "in_critical (Remove_unlock e) = True"
| "in_critical _ = False"

fun phase_of :: "call_state \<Rightarrow> call_phase" where
  "phase_of Idle = Ready"
| "phase_of (Add_wait e) = Adding e" | "phase_of (Add_lock e) = Adding e"
| "phase_of (Add_copy e k) = Adding e" | "phase_of (Add_move e) = Adding e"
| "phase_of (Add_unlock e) = Added" | "phase_of (Add_post e) = Added"
| "phase_of Remove_wait = Removing" | "phase_of Remove_lock = Removing"
| "phase_of (Remove_copy e) = Removing" | "phase_of (Remove_move e) = Removing"
| "phase_of (Remove_unlock e) = Removed e" | "phase_of (Remove_post e) = Removed e"

text \<open>What the local data of a call have to do with the ring, whose head is at slot \<open>h\<close> and holds \<open>xs\<close>.\<close>

fun call_ok :: "queue \<Rightarrow> nat \<Rightarrow> byte list list \<Rightarrow> call_state \<Rightarrow> bool" where
  "call_ok q h xs (Add_wait e) = queue_valid q e"
| "call_ok q h xs (Add_lock e) = queue_valid q e"
| "call_ok q h xs (Add_copy e k) =
     (queue_valid q e \<and> k \<le> q_element_size q \<and> take k (slot q (h + length xs)) = take k e)"
| "call_ok q h xs (Add_move e) = (queue_valid q e \<and> slot q (h + length xs) = e)"
| "call_ok q h xs (Remove_copy got) =
     (length got \<le> q_element_size q \<and> (xs \<noteq> [] \<longrightarrow> got = take (length got) (hd xs)))"
| "call_ok q h xs (Remove_move got) = (xs \<noteq> [] \<longrightarrow> got = hd xs)"
| "call_ok q h xs _ = True"

definition total :: "(call_state \<Rightarrow> nat) \<Rightarrow> call_state list \<Rightarrow> nat" where
  "total f cs = sum_list (map f cs)"

definition system_inv :: "nat \<Rightarrow> byte list list \<Rightarrow> queue_system \<Rightarrow> bool" where
  "system_inv h xs s \<longleftrightarrow> (let q = qs_queue s; cs = qs_calls s in
     ring_holds q h xs \<and>
     q_can_read_lock q + total will_remove cs + total has_added cs = length xs \<and>
     q_can_write_lock q + total will_add cs + total has_removed cs + length xs = q_max_count q \<and>
     (\<forall>p. (p < length cs \<and> in_critical (cs ! p)) \<longleftrightarrow> qs_lock s = Some p) \<and>
     (\<forall>p < length cs. call_ok q h xs (cs ! p)) \<and>
     replay (q_max_count q) (qs_history s) = Some xs \<and>
     (\<forall>p. phases p (qs_history s) = Some (if p < length cs then phase_of (cs ! p) else Ready)))"

lemma total_update: "p < length cs \<Longrightarrow> total f (cs[p := c]) + f (cs ! p) = total f cs + f c"
proof (induction cs arbitrary: p)
  case (Cons a cs)
  then show ?case by (cases p) (auto simp: total_def)
qed simp

lemma total_member: "p < length cs \<Longrightarrow> f (cs ! p) \<le> total f cs"
  by (simp add: total_def member_le_sum_list)

lemma call_ok_outside:
  "call_ok q h xs c \<Longrightarrow> \<not> in_critical c \<Longrightarrow> q_element_size q' = q_element_size q \<Longrightarrow> call_ok q' h' xs' c"
  by (cases c) (auto simp: queue_valid_def)

lemma call_ok_same_ring:
  "call_ok q h xs c \<Longrightarrow> q_element_size q' = q_element_size q \<Longrightarrow> (\<And>i. slot q' i = slot q i) \<Longrightarrow> call_ok q' h xs c"
  by (cases c) (auto simp: queue_valid_def)

text \<open>A step of one process keeps the invariant when it keeps its own part of it.\<close>

lemma system_inv_step:
  assumes inv: "system_inv h xs s" and p: "p < length (qs_calls s)" and c: "qs_calls s ! p = c"
    and s': "s' = \<lparr>qs_queue = q', qs_lock = l', qs_calls = (qs_calls s)[p := c'], qs_history = hist'\<rparr>"
    and ring: "ring_holds q' h' xs'" and same: "q_element_size q' = q_element_size (qs_queue s)"
      "q_max_count q' = q_max_count (qs_queue s)"
    and reads: "q_can_read_lock q' + will_remove c' + has_added c' + length xs
      = q_can_read_lock (qs_queue s) + will_remove c + has_added c + length xs'"
    and writes: "q_can_write_lock q' + will_add c' + has_removed c' + length xs'
      = q_can_write_lock (qs_queue s) + will_add c + has_removed c + length xs"
    and lock: "in_critical c' \<longleftrightarrow> l' = Some p"
    and others: "l' = qs_lock s \<and> h' = h \<and> xs' = xs \<and> (\<forall>i. slot q' i = slot (qs_queue s) i)
      \<or> qs_lock s \<in> {None, Some p} \<and> l' \<in> {None, Some p}"
    and ok: "call_ok q' h' xs' c'"
    and replayed: "replay (q_max_count q') hist' = Some xs'"
    and phased: "\<And>r. phases r hist' = (if r = p then Some (phase_of c') else phases r (qs_history s))"
  shows "system_inv h' xs' s'"
proof -
  let ?q = "qs_queue s" and ?cs = "qs_calls s"
  note inv' = inv [unfolded system_inv_def Let_def]
  have tot: "total f (?cs[p := c']) + f c = total f ?cs + f c'" for f
    using total_update [OF p, of f c'] c by simp
  have "q_can_read_lock q' + total will_remove (?cs[p := c']) + total has_added (?cs[p := c']) = length xs'"
    using inv' reads tot [of will_remove] tot [of has_added] by linarith
  moreover have "q_can_write_lock q' + total will_add (?cs[p := c']) + total has_removed (?cs[p := c'])
      + length xs' = q_max_count q'"
    using inv' writes tot [of will_add] tot [of has_removed] same by linarith
  moreover have "(r < length (?cs[p := c']) \<and> in_critical (?cs[p := c'] ! r)) \<longleftrightarrow> l' = Some r" for r
    using inv' lock others p by (cases "r = p") auto
  moreover have "call_ok q' h' xs' (?cs[p := c'] ! r)" if r: "r < length ?cs" for r
  proof (cases "r = p")
    case True
    with ok p show ?thesis by simp
  next
    case False
    from inv' r have 1: "call_ok ?q h xs (?cs ! r)" by blast
    from others show ?thesis
    proof
      assume "l' = qs_lock s \<and> h' = h \<and> xs' = xs \<and> (\<forall>i. slot q' i = slot ?q i)"
      with False call_ok_same_ring [OF 1 same(1)] show ?thesis by auto
    next
      assume "qs_lock s \<in> {None, Some p} \<and> l' \<in> {None, Some p}"
      with inv' r False have "\<not> in_critical (?cs ! r)" by auto
      with False call_ok_outside [OF 1 _ same(1)] show ?thesis by simp
    qed
  qed
  moreover have "phases r hist' = Some (if r < length ?cs then phase_of (?cs[p := c'] ! r) else Ready)" for r
    using inv' phased [of r] p by (cases "r = p") auto
  ultimately show ?thesis
    using ring replayed by (simp add: system_inv_def s' Let_def)
qed

section \<open>Copying byte by byte\<close>

lemma slice_update:
  "slice a m (xs[j := v]) = (if a \<le> j \<and> j < a + m then (slice a m xs)[j - a := v] else slice a m xs)"
  by (auto simp: slice_def drop_update_swap take_update_swap list_update_beyond)

lemma length_slot: "ring_shape q \<Longrightarrow> length (slot q i) = q_element_size q"
  using slot_region [of q i] by (simp add: slot_def slice_def)

lemma copy_byte_in_ok:
  assumes holds: "ring_holds q h xs" and room: "length xs < q_max_count q"
    and valid: "queue_valid q e" and k: "k < q_element_size q"
    and so_far: "take k (slot q (h + length xs)) = take k e"
  shows "\<exists>q'. copy_byte_in q e k = Some q' \<and> ring_holds q' h xs
     \<and> take (Suc k) (slot q' (h + length xs)) = take (Suc k) e
     \<and> q_can_read_lock q' = q_can_read_lock q \<and> q_can_write_lock q' = q_can_write_lock q
     \<and> q_element_size q' = q_element_size q \<and> q_max_count q' = q_max_count q"
proof -
  let ?c = "q_max_count q" and ?s = "q_element_size q" and ?d = "sq_data (q_mem q)"
  let ?t = "(h + length xs) mod ?c * ?s"
  have shape: "ring_shape q" and tail: "sq_tail (q_mem q) = ?t"
    using holds by (auto simp: ring_holds_def)
  note region = slot_region [OF shape, of "h + length xs"]
  define q' where "q' = q\<lparr>q_mem := (q_mem q)\<lparr>sq_data := ?d[?t + k := e ! k]\<rparr>\<rparr>"
  have copy: "copy_byte_in q e k = Some q'"
    using region k valid tail by (simp add: copy_byte_in_def q'_def queue_valid_def Let_def)
  have old: "slot q' (h + i) = slot q (h + i)" if "i < length xs" for i
  proof -
    have "(h + i) mod ?c \<noteq> (h + length xs) mod ?c" using mod_neq_in_window that room by blast
    from slots_disjoint [OF this, of ?s] k show ?thesis
      by (auto simp: slot_def q'_def slice_update)
  qed
  have "slot q' (h + length xs) = (slot q (h + length xs))[k := e ! k]"
    using k by (simp add: slot_def q'_def slice_update)
  then have "take (Suc k) (slot q' (h + length xs)) = take (Suc k) e"
    using so_far k valid length_slot [OF shape, of "h + length xs"]
    by (simp add: take_Suc_conv_app_nth queue_valid_def)
  moreover have "ring_holds q' h xs"
    using holds old by (auto simp: ring_holds_def ring_shape_def q'_def)
  ultimately show ?thesis using copy by (intro exI [of _ q']) (simp add: q'_def)
qed

lemma copy_byte_out_ok:
  assumes "ring_holds q h (x # xs)" and "k < q_element_size q"
  shows "copy_byte_out q k = Some (x ! k)"
proof -
  have shape: "ring_shape q" and h: "h mod q_max_count q = h" and head: "sq_head (q_mem q) = h * q_element_size q"
    using assms by (auto simp: ring_holds_def)
  have "slot q h = x"
    using assms unfolding ring_holds_def by (metis add.right_neutral length_greater_0_conv
        list.distinct(1) nth_Cons_0)
  moreover have "slot q h ! k = sq_data (q_mem q) ! (h * q_element_size q + k)"
    using assms(2) slot_region [OF shape, of h] h by (simp add: slot_def slice_def)
  ultimately show ?thesis
    using assms(2) slot_region [OF shape, of h] h head by (simp add: copy_byte_out_def Let_def)
qed

lemma ring_holds_element_size: "ring_holds q h (x # xs) \<Longrightarrow> length x = q_element_size q"
  unfolding ring_holds_def by (metis add.right_neutral length_greater_0_conv length_slot list.distinct(1) nth_Cons_0)

section \<open>Every step keeps the invariant\<close>

lemma sem_fields:
  "wait_write q = Some q' \<Longrightarrow> q' = q\<lparr>q_can_write_lock := q_can_write_lock q - 1\<rparr>"
  "wait_read q = Some q' \<Longrightarrow> q' = q\<lparr>q_can_read_lock := q_can_read_lock q - 1\<rparr>"
  by (simp_all add: wait_write_def wait_read_def split: if_splits)

lemma wait_positive:
  "wait_write q = Some q' \<Longrightarrow> 0 < q_can_write_lock q" "wait_read q = Some q' \<Longrightarrow> 0 < q_can_read_lock q"
  by (simp_all add: wait_write_def wait_read_def split: if_splits)

lemma slot_sems [simp]:
  "slot (q\<lparr>q_can_write_lock := a\<rparr>) i = slot q i" "slot (q\<lparr>q_can_read_lock := a\<rparr>) i = slot q i"
  by (simp_all add: slot_def)

lemma system_invD:
  assumes "system_inv h xs s"
  shows "ring_holds (qs_queue s) h xs"
    and "q_can_read_lock (qs_queue s) + total will_remove (qs_calls s) + total has_added (qs_calls s) = length xs"
    and "q_can_write_lock (qs_queue s) + total will_add (qs_calls s) + total has_removed (qs_calls s)
      + length xs = q_max_count (qs_queue s)"
    and "(p < length (qs_calls s) \<and> in_critical (qs_calls s ! p)) \<longleftrightarrow> qs_lock s = Some p"
    and "p < length (qs_calls s) \<Longrightarrow> call_ok (qs_queue s) h xs (qs_calls s ! p)"
    and "replay (q_max_count (qs_queue s)) (qs_history s) = Some xs"
    and "phases p (qs_history s) = Some (if p < length (qs_calls s) then phase_of (qs_calls s ! p) else Ready)"
  using assms by (auto simp: system_inv_def Let_def)

lemma adder_has_room:
  assumes "system_inv h xs s" and "p < length (qs_calls s)" and "will_add (qs_calls s ! p) = 1"
  shows "length xs < q_max_count (qs_queue s)"
  using system_invD(3) [OF assms(1)] total_member [OF assms(2), of will_add] assms(3) by linarith

lemma remover_has_element:
  assumes "system_inv h xs s" and "p < length (qs_calls s)" and "will_remove (qs_calls s ! p) = 1"
  shows "xs \<noteq> []"
  using system_invD(2) [OF assms(1)] total_member [OF assms(2), of will_remove] assms(3) by fastforce

lemmas step_defs = goto_def note_event_def

text \<open>The steps on the semaphores and on the mutex.\<close>

lemma wait_post_inv:
  assumes inv: "system_inv h xs s" and p: "p < length (qs_calls s)" and c: "qs_calls s ! p = c"
    and step: "call_step p c s = Some s'"
    and kind: "c = Add_wait e \<or> c = Remove_wait \<or> c = Add_post e \<or> c = Remove_post e"
  shows "system_inv h xs s'"
proof -
  note facts = system_invD [OF inv]
  note known = facts(1) facts(5) [OF p] facts(4) [of p] facts(7) facts(6)
  note go = system_inv_step [OF inv p c]
  from kind show ?thesis
  proof (elim disjE)
    assume k: "c = Add_wait e"
    with step obtain q' where q': "wait_write (qs_queue s) = Some q'"
      and s': "s' = goto p (Add_lock e) (s\<lparr>qs_queue := q'\<rparr>)" by auto
    show ?thesis
      by (rule go [of _ q' "qs_lock s" "Add_lock e" "qs_history s"])
        (use k c sem_fields(1) [OF q'] wait_positive(1) [OF q'] s' p known in \<open>auto simp: step_defs queue_valid_def\<close>)
  next
    assume k: "c = Remove_wait"
    with step obtain q' where q': "wait_read (qs_queue s) = Some q'"
      and s': "s' = goto p Remove_lock (s\<lparr>qs_queue := q'\<rparr>)" by auto
    show ?thesis
      by (rule go [of _ q' "qs_lock s" Remove_lock "qs_history s"])
        (use k c sem_fields(2) [OF q'] wait_positive(2) [OF q'] s' p known in \<open>auto simp: step_defs\<close>)
  next
    assume k: "c = Add_post e"
    show ?thesis
      by (rule go [of _ "post_read (qs_queue s)" "qs_lock s" Idle "qs_history s @ [Return_add p]"])
        (use k c step p known in \<open>auto simp: step_defs post_read_def\<close>)
  next
    assume k: "c = Remove_post e"
    show ?thesis
      by (rule go [of _ "post_write (qs_queue s)" "qs_lock s" Idle "qs_history s @ [Return_remove p e]"])
        (use k c step p known in \<open>auto simp: step_defs post_write_def\<close>)
  qed
qed

lemma mutex_inv:
  assumes inv: "system_inv h xs s" and p: "p < length (qs_calls s)" and c: "qs_calls s ! p = c"
    and step: "call_step p c s = Some s'"
    and kind: "c = Add_lock e \<or> c = Remove_lock \<or> c = Add_unlock e \<or> c = Remove_unlock e"
  shows "system_inv h xs s'"
proof -
  note facts = system_invD [OF inv]
  note known = facts(1) facts(5) [OF p] facts(4) [of p] facts(7) facts(6)
  note go = system_inv_step [OF inv p c]
  from kind show ?thesis
  proof (elim disjE)
    assume k: "c = Add_lock e"
    show ?thesis
      by (rule go [of _ "qs_queue s" "Some p" "Add_copy e 0" "qs_history s"])
        (use k c step p known in \<open>auto simp: step_defs split: if_splits\<close>)
  next
    assume k: "c = Remove_lock"
    show ?thesis
      by (rule go [of _ "qs_queue s" "Some p" "Remove_copy []" "qs_history s"])
        (use k c step p known in \<open>auto simp: step_defs split: if_splits\<close>)
  next
    assume k: "c = Add_unlock e"
    show ?thesis
      by (rule go [of _ "qs_queue s" None "Add_post e" "qs_history s"])
        (use k c step p known in \<open>auto simp: step_defs\<close>)
  next
    assume k: "c = Remove_unlock e"
    show ?thesis
      by (rule go [of _ "qs_queue s" None "Remove_post e" "qs_history s"])
        (use k c step p known in \<open>auto simp: step_defs\<close>)
  qed
qed

text \<open>The copies: they are never stuck, and keep the invariant.\<close>

lemma add_copy_inv:
  assumes inv: "system_inv h xs s" and p: "p < length (qs_calls s)" and c: "qs_calls s ! p = Add_copy e k"
  shows "\<exists>s'. call_step p (Add_copy e k) s = Some s' \<and> system_inv h xs s'"
proof -
  note facts = system_invD [OF inv]
  note known = facts(5) [OF p] facts(4) [of p] facts(7) facts(6)
  note go = system_inv_step [OF inv p c]
  have room: "length xs < q_max_count (qs_queue s)" using adder_has_room [OF inv p] c by simp
  show ?thesis
  proof (cases "k < q_element_size (qs_queue s)")
    case True
    from facts(5) [OF p] c obtain q' where q': "copy_byte_in (qs_queue s) e k = Some q'" "ring_holds q' h xs"
      "take (Suc k) (slot q' (h + length xs)) = take (Suc k) e"
      "q_can_read_lock q' = q_can_read_lock (qs_queue s)" "q_can_write_lock q' = q_can_write_lock (qs_queue s)"
      "q_element_size q' = q_element_size (qs_queue s)" "q_max_count q' = q_max_count (qs_queue s)"
      using copy_byte_in_ok [OF facts(1) room _ True, of e] by auto
    have "system_inv h xs (goto p (Add_copy e (Suc k)) (s\<lparr>qs_queue := q'\<rparr>))"
      by (rule go [of _ q' "qs_lock s" "Add_copy e (Suc k)" "qs_history s"])
        (use True c q' p known in \<open>auto simp: step_defs queue_valid_def\<close>)
    with True q'(1) show ?thesis by simp
  next
    case False
    have "ring_shape (qs_queue s)" using facts(1) by (simp add: ring_holds_def)
    from length_slot [OF this] False facts(5) [OF p] c have "slot (qs_queue s) (h + length xs) = e"
      by (simp add: queue_valid_def)
    then have "system_inv h xs (goto p (Add_move e) s)"
      by (intro go [of _ "qs_queue s" "qs_lock s" "Add_move e" "qs_history s"])
        (use False c p known facts(1) in \<open>auto simp: step_defs\<close>)
    with False show ?thesis by simp
  qed
qed

lemma remove_copy_inv:
  assumes inv: "system_inv h xs s" and p: "p < length (qs_calls s)" and c: "qs_calls s ! p = Remove_copy got"
  shows "\<exists>s'. call_step p (Remove_copy got) s = Some s' \<and> system_inv h xs s'"
proof -
  note facts = system_invD [OF inv]
  note known = facts(5) [OF p] facts(4) [of p] facts(7) facts(6) facts(1)
  note go = system_inv_step [OF inv p c]
  obtain x ys where xs: "xs = x # ys"
    using remover_has_element [OF inv p] c by (cases xs) auto
  have ring: "ring_holds (qs_queue s) h (x # ys)" using facts(1) xs by simp
  have len: "length x = q_element_size (qs_queue s)" by (rule ring_holds_element_size [OF ring])
  have got: "got = take (length got) x" and got_len: "length got \<le> length x"
    using facts(5) [OF p] c xs len by auto
  show ?thesis
  proof (cases "length got < q_element_size (qs_queue s)")
    case True
    then have b: "copy_byte_out (qs_queue s) (length got) = Some (x ! length got)"
      by (rule copy_byte_out_ok [OF ring])
    have next_byte: "got @ [x ! length got] = take (Suc (length got)) x"
      using True len got by (simp add: take_Suc_conv_app_nth)
    have "system_inv h xs (goto p (Remove_copy (got @ [x ! length got])) s)"
      by (rule go [of _ "qs_queue s" "qs_lock s" "Remove_copy (got @ [x ! length got])" "qs_history s"])
        (use True c p known xs next_byte len in \<open>auto simp: step_defs min_def\<close>)
    with True b show ?thesis by simp
  next
    case False
    with got len have "got = x" by simp
    have "system_inv h xs (goto p (Remove_move got) s)"
      by (rule go [of _ "qs_queue s" "qs_lock s" "Remove_move got" "qs_history s"])
        (use False c p known xs \<open>got = x\<close> in \<open>auto simp: step_defs\<close>)
    with False show ?thesis by simp
  qed
qed

text \<open>The moves of the pointers, where the calls take effect.\<close>

lemma add_move_inv:
  assumes inv: "system_inv h xs s" and p: "p < length (qs_calls s)" and c: "qs_calls s ! p = Add_move e"
    and step: "call_step p (Add_move e) s = Some s'"
  shows "system_inv h (xs @ [e]) s'"
proof -
  note facts = system_invD [OF inv]
  note known = facts(5) [OF p] facts(4) [of p] facts(7) facts(6)
  have room: "length xs < q_max_count (qs_queue s)" using adder_has_room [OF inv p] c by simp
  have ring: "ring_holds (advance_tail (qs_queue s)) h (xs @ [e])"
    using advance_tail_holds [OF facts(1) room] facts(5) [OF p] c by simp
  show ?thesis
    by (rule system_inv_step [OF inv p c, of _ "advance_tail (qs_queue s)" "qs_lock s" "Add_unlock e"
          "qs_history s @ [Do_add p e]"])
      (use ring room c step p known in \<open>auto simp: step_defs\<close>)
qed

lemma remove_move_inv:
  assumes inv: "system_inv h xs s" and p: "p < length (qs_calls s)" and c: "qs_calls s ! p = Remove_move got"
    and step: "call_step p (Remove_move got) s = Some s'"
  shows "xs \<noteq> [] \<and> system_inv (Suc h mod q_max_count (qs_queue s)) (tl xs) s'"
proof -
  note facts = system_invD [OF inv]
  note known = facts(5) [OF p] facts(4) [of p] facts(7) facts(6)
  obtain x ys where xs: "xs = x # ys"
    using remover_has_element [OF inv p] c by (cases xs) auto
  have ring: "ring_holds (advance_head (qs_queue s)) (Suc h mod q_max_count (qs_queue s)) ys"
    using advance_head_holds facts(1) xs by simp
  have "system_inv (Suc h mod q_max_count (qs_queue s)) ys s'"
    by (rule system_inv_step [OF inv p c, of _ "advance_head (qs_queue s)" "qs_lock s" "Remove_unlock got"
          "qs_history s @ [Do_remove p got]"])
      (use ring xs c step p known in \<open>auto simp: step_defs\<close>)
  with xs show ?thesis by simp
qed

lemma run_step_inv:
  assumes inv: "system_inv h xs s" and "run_step s s'"
  shows "\<exists>h' xs'. system_inv h' xs' s'"
proof -
  from assms(2) obtain p where p: "p < length (qs_calls s)" and step: "call_step p (qs_calls s ! p) s = Some s'"
    by (auto elim: run_stepE)
  obtain c where c: "qs_calls s ! p = c" by simp
  with step have step: "call_step p c s = Some s'" by simp
  show ?thesis
  proof (cases c)
    case Idle
    with step show ?thesis by simp
  qed (use wait_post_inv [OF inv p c step] mutex_inv [OF inv p c step] add_copy_inv [OF inv p]
      remove_copy_inv [OF inv p] add_move_inv [OF inv p] remove_move_inv [OF inv p] c step in fastforce)+
qed

lemma start_call_inv:
  assumes inv: "system_inv h xs s" and "start_call s s'"
  shows "system_inv h xs s'"
  using assms(2)
proof (cases rule: start_call.cases)
  case (start_add p e)
  show ?thesis
    by (rule system_inv_step [OF inv start_add(2,3), of _ "qs_queue s" "qs_lock s" "Add_wait e"
          "qs_history s @ [Call_add p e]"])
      (use start_add system_invD(1,6,7) [OF inv] system_invD(4) [OF inv, of p] in \<open>auto simp: step_defs\<close>)
next
  case (start_remove p)
  show ?thesis
    by (rule system_inv_step [OF inv start_remove(2,3), of _ "qs_queue s" "qs_lock s" Remove_wait
          "qs_history s @ [Call_remove p]"])
      (use start_remove system_invD(1,6,7) [OF inv] system_invD(4) [OF inv, of p] in \<open>auto simp: step_defs\<close>)
qed

lemma system_start_inv:
  assumes "queue_inv q" and "queue_contents q = []"
  shows "system_inv (sq_head (q_mem q) div q_element_size q) [] (system_start q n)"
proof -
  have "q_can_read_lock q = 0" using length_queue_contents [of q] assms(2) by simp
  moreover have "total f (replicate n Idle) = n * f Idle" for f
    by (simp add: total_def sum_list_replicate)
  ultimately show ?thesis
    using assms by (auto simp: system_inv_def system_start_def queue_inv_def replay_def phases_def Let_def)
qed

lemma reachable_inv:
  assumes "system_reach (system_start q n) s" and "queue_inv q" and "queue_contents q = []"
  shows "\<exists>h xs. system_inv h xs s"
  using assms
  by (induction rule: system_reach.induct) (blast dest: system_start_inv run_step_inv start_call_inv)+

section \<open>Termination and waiting\<close>

text \<open>The steps a call has left.\<close>

fun call_work :: "nat \<Rightarrow> call_state \<Rightarrow> nat" where
  "call_work n Idle = 0"
| "call_work n (Add_wait e) = n + 6" | "call_work n (Add_lock e) = n + 5"
| "call_work n (Add_copy e k) = n - k + 4" | "call_work n (Add_move e) = 3"
| "call_work n (Add_unlock e) = 2" | "call_work n (Add_post e) = 1"
| "call_work n Remove_wait = n + 6" | "call_work n Remove_lock = n + 5"
| "call_work n (Remove_copy got) = n - length got + 4" | "call_work n (Remove_move got) = 3"
| "call_work n (Remove_unlock got) = 2" | "call_work n (Remove_post got) = 1"

definition system_work :: "queue_system \<Rightarrow> nat" where
  "system_work s = total (call_work (q_element_size (qs_queue s))) (qs_calls s)"

lemma copy_byte_in_size: "copy_byte_in q e k = Some q' \<Longrightarrow> q_element_size q' = q_element_size q"
  by (auto simp: copy_byte_in_def Let_def split: if_splits)

lemma total_decreases:
  assumes "p < length cs" and "f c < f (cs ! p)"
  shows "total f (cs[p := c]) < total f cs"
  using total_update [OF assms(1), of f c] assms(2) by linarith

lemma call_step_work:
  assumes "call_step p c s = Some s'"
  shows "q_element_size (qs_queue s') = q_element_size (qs_queue s)
    \<and> (\<exists>c'. qs_calls s' = (qs_calls s)[p := c'] \<and> call_work (q_element_size (qs_queue s)) c'
         < call_work (q_element_size (qs_queue s)) c)"
  using assms
  by (cases c) (auto simp: step_defs post_read_def post_write_def copy_byte_in_size
      dest!: sem_fields split: if_splits)

lemma run_step_work:
  assumes "run_step s s'"
  shows "system_work s' < system_work s"
proof -
  from assms obtain p where p: "p < length (qs_calls s)" "call_step p (qs_calls s ! p) s = Some s'"
    by (auto elim: run_stepE)
  from call_step_work [OF p(2)] total_decreases [OF p(1)] show ?thesis
    unfolding system_work_def by metis
qed

lemma run_steps_bound: "(run_step ^^ m) s s' \<Longrightarrow> m + system_work s' \<le> system_work s"
proof (induction m arbitrary: s')
  case 0
  then show ?case by simp
next
  case (Suc m)
  then obtain t where "(run_step ^^ m) s t" "run_step t s'" by auto
  with Suc.IH [of t] run_step_work [of t s'] show ?case by simp
qed

lemma run_to_rest: "\<exists>m s'. (run_step ^^ m) s s' \<and> (\<nexists>t. run_step s' t)"
proof (induction "system_work s" arbitrary: s rule: less_induct)
  case less
  show ?case
  proof (cases "\<exists>t. run_step s t")
    case False
    then have "(run_step ^^ 0) s s \<and> (\<nexists>t. run_step s t)" by simp
    then show ?thesis by blast
  next
    case True
    then obtain t where t: "run_step s t" by blast
    with less.hyps [of t] run_step_work obtain m s' where "(run_step ^^ m) t s'" "\<nexists>t. run_step s' t" by blast
    with t have "(run_step ^^ Suc m) s s'" by (blast intro: relpowp_Suc_I2)
    with \<open>\<nexists>t. run_step s' t\<close> show ?thesis by blast
  qed
qed

text \<open>Nothing can move: every call waits for room in a full ring, or for an element of an empty one.\<close>

definition at_rest :: "queue_system \<Rightarrow> bool" where
  "at_rest s \<longleftrightarrow> (\<exists>xs. replay (q_max_count (qs_queue s)) (qs_history s) = Some xs \<and>
     (\<forall>c\<in>set (qs_calls s). c = Idle \<or> (\<exists>e. c = Add_wait e) \<and> length xs = q_max_count (qs_queue s)
        \<or> c = Remove_wait \<and> xs = []))"

lemma no_step_at_rest:
  assumes inv: "system_inv h xs s" and stuck: "\<nexists>t. run_step s t"
  shows "at_rest s"
proof -
  note facts = system_invD [OF inv]
  have none: "call_step p (qs_calls s ! p) s = None" if "p < length (qs_calls s)" for p
    using stuck run_step.run [OF that] by (cases "call_step p (qs_calls s ! p) s") auto
  have out: "\<not> in_critical (qs_calls s ! p)" if p: "p < length (qs_calls s)" for p
  proof
    assume "in_critical (qs_calls s ! p)"
    then show False
      using none [OF p] add_copy_inv [OF inv p] remove_copy_inv [OF inv p]
      by (cases "qs_calls s ! p") auto
  qed
  then have lock: "qs_lock s = None" using facts(4) by (cases "qs_lock s") auto
  have waiting: "c = Idle \<or> (\<exists>e. c = Add_wait e) \<and> q_can_write_lock (qs_queue s) = 0
      \<or> c = Remove_wait \<and> q_can_read_lock (qs_queue s) = 0" if "c \<in> set (qs_calls s)" for c
  proof -
    from that obtain p where p: "p < length (qs_calls s)" "qs_calls s ! p = c" by (auto simp: in_set_conv_nth)
    from none [OF p(1)] out [OF p(1)] lock p(2) show ?thesis
      by (cases c) (auto simp: wait_write_def wait_read_def split: if_splits)
  qed
  have zero: "total f (qs_calls s) = 0" if "f Idle = 0" and "\<And>e. f (Add_wait e) = 0" and "f Remove_wait = 0" for f
    using waiting that by (fastforce simp: total_def)
  have "total will_remove (qs_calls s) = 0" "total has_added (qs_calls s) = 0"
    "total will_add (qs_calls s) = 0" "total has_removed (qs_calls s) = 0"
    by (rule zero; simp)+
  with facts(2,3) have "q_can_read_lock (qs_queue s) = length xs"
    "q_can_write_lock (qs_queue s) + length xs = q_max_count (qs_queue s)" by simp_all
  with waiting facts(6) show ?thesis unfolding at_rest_def by fastforce
qed

section \<open>A call that runs alone\<close>

text \<open>The steps of one process, with nobody else running.\<close>

fun run_alone :: "nat \<Rightarrow> nat \<Rightarrow> queue_system \<Rightarrow> queue_system option" where
  "run_alone 0 p s = Some s"
| "run_alone (Suc n) p s = (case call_step p (qs_calls s ! p) s of None \<Rightarrow> None | Some s' \<Rightarrow> run_alone n p s')"

lemma run_alone_add: "run_alone (m + n) p s = (case run_alone m p s of None \<Rightarrow> None | Some s' \<Rightarrow> run_alone n p s')"
  by (induction m arbitrary: s) (auto split: option.splits)

lemma blit_next_byte:
  assumes "k < length e" and "t + k < length d"
  shows "(blit t (take k e) d)[t + k := e ! k] = blit t (take (Suc k) e) d"
proof -
  have "drop (t + k) d = d ! (t + k) # drop (Suc (t + k)) d" using assms(2) by (simp add: Cons_nth_drop_Suc)
  with assms show ?thesis by (simp add: blit_def list_update_append take_Suc_conv_app_nth min_def)
qed

lemma copy_loop:
  assumes p: "p < length (qs_calls s)" and at: "qs_calls s ! p = Add_copy e 0"
    and len: "length e = q_element_size (qs_queue s)" and fits: "sq_tail (q_mem (qs_queue s)) + length e \<le> length (sq_data (q_mem (qs_queue s)))"
    and k: "k \<le> length e"
  shows "run_alone k p s = Some (goto p (Add_copy e k) (s\<lparr>qs_queue := (qs_queue s)\<lparr>q_mem :=
    (q_mem (qs_queue s))\<lparr>sq_data := blit (sq_tail (q_mem (qs_queue s))) (take k e) (sq_data (q_mem (qs_queue s)))\<rparr>\<rparr>\<rparr>))"
  using k
proof (induction k)
  case 0
  have "(qs_calls s)[p := Add_copy e 0] = qs_calls s" using at by (metis list_update_id)
  then show ?case by (simp add: goto_def blit_def)
next
  case (Suc k)
  then show ?case
    using run_alone_add [of k 1 p s] p len fits
    by (simp add: goto_def copy_byte_in_def Let_def blit_next_byte)
qed

lemma run_alone_adds:
  assumes p: "p < length (qs_calls s)" and here: "qs_calls s ! p = Add_wait e" and lock: "qs_lock s = None"
    and len: "length e = q_element_size (qs_queue s)"
    and add: "queue_add (qs_queue s) e (q_element_size (qs_queue s)) = Some (Ok q')"
  shows "run_alone (q_element_size (qs_queue s) + 6) p s = Some (s\<lparr>qs_queue := q',
    qs_calls := (qs_calls s)[p := Idle], qs_history := qs_history s @ [Do_add p e, Return_add p]\<rparr>)"
proof -
  let ?q = "qs_queue s" and ?n = "q_element_size (qs_queue s)"
  define s1 where "s1 = goto p (Add_copy e 0) (s\<lparr>qs_queue := ?q\<lparr>q_can_write_lock := q_can_write_lock ?q - 1\<rparr>, qs_lock := Some p\<rparr>)"
  from add obtain q2 where w: "0 < q_can_write_lock ?q"
    and fits: "sq_tail (q_mem ?q) + ?n \<le> length (sq_data (q_mem ?q))"
    and q': "q' = post_read (advance_tail (?q\<lparr>q_can_write_lock := q_can_write_lock ?q - 1,
      q_mem := (q_mem ?q)\<lparr>sq_data := blit (sq_tail (q_mem ?q)) e (sq_data (q_mem ?q))\<rparr>\<rparr>))"
    using len by (auto simp: queue_add_def wait_write_def copy_in_def Let_def split: if_splits)
  have two: "run_alone 2 p s = Some s1"
    using p here lock w by (simp add: numeral_2_eq_2 wait_write_def s1_def goto_def)
  have s1: "p < length (qs_calls s1)" "qs_calls s1 ! p = Add_copy e 0" "q_element_size (qs_queue s1) = ?n"
    using p by (simp_all add: s1_def goto_def)
  have four: "run_alone 4 p (goto p (Add_copy e ?n) s') = Some (s'\<lparr>qs_queue := post_read (advance_tail (qs_queue s')),
      qs_calls := (qs_calls s')[p := Idle], qs_lock := None,
      qs_history := qs_history s' @ [Do_add p e, Return_add p]\<rparr>)"
    if "p < length (qs_calls s')" and "q_element_size (qs_queue s') = ?n" for s'
    using that by (simp add: numeral_eq_Suc goto_def note_event_def)
  have "run_alone ?n p s1 = Some (goto p (Add_copy e ?n) (s1\<lparr>qs_queue := (qs_queue s1)\<lparr>q_mem :=
    (q_mem (qs_queue s1))\<lparr>sq_data := blit (sq_tail (q_mem (qs_queue s1))) e (sq_data (q_mem (qs_queue s1)))\<rparr>\<rparr>\<rparr>))"
    using copy_loop [OF s1(1,2), of ?n] fits len by (simp add: s1_def goto_def)
  with two have "run_alone (2 + ?n) p s = Some (goto p (Add_copy e ?n) (s1\<lparr>qs_queue := (qs_queue s1)\<lparr>q_mem :=
    (q_mem (qs_queue s1))\<lparr>sq_data := blit (sq_tail (q_mem (qs_queue s1))) e (sq_data (q_mem (qs_queue s1)))\<rparr>\<rparr>\<rparr>))"
    by (simp only: run_alone_add option.case)
  then have "run_alone (2 + ?n + 4) p s = Some (s\<lparr>qs_queue := q',
    qs_calls := (qs_calls s)[p := Idle], qs_history := qs_history s @ [Do_add p e, Return_add p]\<rparr>)"
    using s1 p lock by (simp only: run_alone_add option.case, subst four)
      (simp_all add: s1_def goto_def q' add.commute)
  then show ?thesis by (simp add: add.commute add.left_commute)
qed

lemma call_step_count: "call_step p c s = Some s' \<Longrightarrow> q_max_count (qs_queue s') = q_max_count (qs_queue s)"
  by (cases c) (auto simp: step_defs post_read_def post_write_def copy_byte_in_def Let_def
      dest!: sem_fields split: if_splits)

lemma reach_count: "system_reach s0 s \<Longrightarrow> q_max_count (qs_queue s) = q_max_count (qs_queue s0)"
proof (induction rule: system_reach.induct)
  case (reach_run s s')
  then show ?case by (metis call_step_count run_stepE)
next
  case (reach_call s s')
  from reach_call.hyps(2) have "q_max_count (qs_queue s') = q_max_count (qs_queue s)"
    by (cases rule: start_call.cases) (simp_all add: step_defs)
  with reach_call.IH show ?case by simp
qed simp

section \<open>Properties\<close>

text \<open>
  C6: the queue is linearizable. However the steps of any number of processes interleave, every call
  takes effect at one moment between its start and its return, a removal returns the element that left
  the ring at that moment, and the effects in their order are a run of a bounded first-in first-out
  list: elements leave in the order they entered, none is lost, invented or duplicated, and never more
  than max_count are in the ring.
\<close>

theorem queue_linearizable:
  assumes "queue_new env max_count element_size = Some q"
    and "0 < max_count" and "0 < element_size" and "max_count < 2 ^ 32"
    and "max_count * element_size + 63 < 2 ^ 64"
    and "system_reach (system_start q n) s"
  shows "linearizable max_count (qs_history s)"
proof -
  note fresh = queue_new_inv [OF assms(1-5)]
  then obtain h xs where inv: "system_inv h xs s" using reachable_inv [OF assms(6)] by blast
  from fresh system_invD(6,7) [OF inv] reach_count [OF assms(6)] show ?thesis
    by (simp add: linearizable_def system_start_def)
qed

text \<open>
  Mutual exclusion and memory safety. At most one process is between the lock and the unlock, it
  is the owner of the mutex, and the next byte a process copies is inside the mapping - it never has to
  wait and never faults.
\<close>

theorem queue_mutual_exclusion:
  assumes "queue_inv q" and "queue_contents q = []" and "system_reach (system_start q n) s"
    and "p < length (qs_calls s)" and "in_critical (qs_calls s ! p)"
  shows "qs_lock s = Some p \<and> (\<forall>r < length (qs_calls s). in_critical (qs_calls s ! r) \<longrightarrow> r = p)
    \<and> call_step p (qs_calls s ! p) s \<noteq> None"
proof -
  obtain h xs where inv: "system_inv h xs s" using reachable_inv [OF assms(3,1,2)] by blast
  have "qs_lock s = Some p" using system_invD(4) [OF inv] assms(4,5) by blast
  moreover have "call_step p (qs_calls s ! p) s \<noteq> None"
    using assms(5) add_copy_inv [OF inv assms(4)] remove_copy_inv [OF inv assms(4)]
    by (cases "qs_calls s ! p") auto
  moreover have "r = p" if "r < length (qs_calls s)" and "in_critical (qs_calls s ! r)" for r
    using that system_invD(4) [OF inv, of r] \<open>qs_lock s = Some p\<close> by simp
  ultimately show ?thesis by blast
qed

text \<open>
  C18: no deadlock and no endless call. Once no new calls start, every run of the steps that are left
  is finite, with the bound of the model, and ends with every call returned, or waiting to add to a ring
  that really is full, or to remove from one that really is empty.
\<close>

theorem queue_calls_finish:
  assumes "queue_inv q" and "queue_contents q = []" and "system_reach (system_start q n) s"
  shows "(\<forall>m s'. (run_step ^^ m) s s' \<longrightarrow> m \<le> system_work s \<and> ((\<nexists>t. run_step s' t) \<longrightarrow> at_rest s'))
    \<and> (\<exists>m s'. (run_step ^^ m) s s' \<and> at_rest s')"
proof -
  have rest: "at_rest s'" if "(run_step ^^ m) s s'" and "\<nexists>t. run_step s' t" for m s'
  proof -
    from that(1) have "system_reach (system_start q n) s'"
      by (induction m arbitrary: s') (auto intro: assms(3) reach_run)
    from reachable_inv [OF this assms(1,2)] no_step_at_rest that(2) show ?thesis by blast
  qed
  moreover from run_to_rest obtain m s' where "(run_step ^^ m) s s'" "\<nexists>t. run_step s' t" by blast
  moreover have "m \<le> system_work s" if "(run_step ^^ m) s s'" for m s'
    using run_steps_bound [OF that] by simp
  ultimately show ?thesis by blast
qed

text \<open>
  The calls that run alone are the atomic operations of the sequential model: a process that starts
  queue_add with the mutex free, and is not interrupted, comes back after element_size + 6 steps with
  the memory, semaphores and pointers that queue_add computes.
\<close>

theorem uninterrupted_queue_add:
  assumes "p < length (qs_calls s)" and "qs_calls s ! p = Add_wait e" and "qs_lock s = None"
    and "length e = q_element_size (qs_queue s)"
    and "queue_add (qs_queue s) e (q_element_size (qs_queue s)) = Some (Ok q')"
  shows "run_alone (q_element_size (qs_queue s) + 6) p s = Some (s\<lparr>qs_queue := q',
    qs_calls := (qs_calls s)[p := Idle], qs_history := qs_history s @ [Do_add p e, Return_add p]\<rparr>)"
  using assms by (rule run_alone_adds)

section \<open>The properties at concrete inputs\<close>

text \<open>A fresh queue for two one-byte elements and two processes, one of them in the middle of queue_add.\<close>

abbreviation fresh_queue :: queue where
  "fresh_queue \<equiv> \<lparr>q_max_count = 2, q_element_size = 1, q_max_size = 2, q_mmap_size = 65,
     q_can_write_lock = 2, q_can_read_lock = 0,
     q_mem = \<lparr>sq_head = 0, sq_tail = 0, sq_data = replicate 9 0\<rparr>\<rparr>"

lemma fresh_queue_new: "queue_new all_calls_ok 2 1 = Some fresh_queue"
  by (simp add: queue_new_def sizeof_shared_queue_def offsetof_data_def)

lemma fresh_queue_inv: "queue_inv fresh_queue" "queue_contents fresh_queue = []"
  using queue_new_inv [OF fresh_queue_new] by simp_all

abbreviation adding_system :: queue_system where
  "adding_system \<equiv> \<lparr>qs_queue = fresh_queue\<lparr>q_can_write_lock := 1\<rparr>, qs_lock = Some 0,
     qs_calls = [Add_copy [7] 0, Idle], qs_history = [Call_add 0 [7]]\<rparr>"

lemma adding_system_reached: "system_reach (system_start fresh_queue (Suc (Suc 0))) adding_system"
proof -
  let ?s0 = "system_start fresh_queue (Suc (Suc 0))"
  let ?s1 = "\<lparr>qs_queue = fresh_queue, qs_lock = None, qs_calls = [Add_wait [7], Idle], qs_history = [Call_add 0 [7]]\<rparr>"
  let ?s2 = "?s1\<lparr>qs_queue := fresh_queue\<lparr>q_can_write_lock := 1\<rparr>, qs_calls := [Add_lock [7], Idle]\<rparr>"
  have s1: "?s1 = goto 0 (Add_wait [7]) (note_event (Call_add 0 [7]) ?s0)"
    by (simp add: system_start_def step_defs)
  have "start_call ?s0 ?s1"
    unfolding s1 by (rule start_add) (simp_all add: queue_valid_def system_start_def)
  moreover have "run_step ?s1 ?s2"
    by (rule run [of 0]) (simp_all add: step_defs wait_write_def)
  moreover have "run_step ?s2 adding_system"
    by (rule run [of 0]) (simp_all add: step_defs)
  ultimately show ?thesis by (rule reach_run [OF reach_run [OF reach_call [OF reach_start]]])
qed

theorem queue_linearizable_witness:
  "linearizable 2 (qs_history adding_system)"
  by (rule queue_linearizable [OF fresh_queue_new _ _ _ _ adding_system_reached]) simp_all

theorem queue_mutual_exclusion_witness:
  "qs_lock adding_system = Some 0 \<and> call_step 0 (qs_calls adding_system ! 0) adding_system \<noteq> None"
  using queue_mutual_exclusion [OF fresh_queue_inv adding_system_reached, of 0] by simp

theorem queue_calls_finish_witness:
  "\<exists>m s'. (run_step ^^ m) adding_system s' \<and> at_rest s'"
  using queue_calls_finish [OF fresh_queue_inv adding_system_reached] by blast

theorem uninterrupted_queue_add_witness:
  "\<exists>q'. run_alone 7 0 \<lparr>qs_queue = fresh_queue, qs_lock = None, qs_calls = [Add_wait [7], Idle], qs_history = []\<rparr>
     = Some \<lparr>qs_queue = q', qs_lock = None, qs_calls = [Idle, Idle], qs_history = [Do_add 0 [7], Return_add 0]\<rparr>"
proof -
  obtain q' where "queue_add fresh_queue [7] 1 = Some (Ok q')"
    by (simp add: queue_add_def wait_write_def copy_in_def)
  then show ?thesis
    using uninterrupted_queue_add [of 0 "\<lparr>qs_queue = fresh_queue, qs_lock = None,
      qs_calls = [Add_wait [7], Idle], qs_history = []\<rparr>" "[7]" q'] by simp
qed

end
