(* ===== verification/Shared_Memory_Machine.thy ===== *)
theory Shared_Memory_Machine
  imports Machine
begin

text \<open>
  The machine once more, with the queues as start_machine makes them: rings of bytes in shared memory,
  whose elements are structs copied in and out by queue_add and queue_remove. Here the input module has all
  of its system calls, those on the descriptors of the queues among them, which read and write the rings.
  A simulation in both directions shows that this machine does, turn by turn, what the machine with lists
  does, until such a call is made.
\<close>

section \<open>The loop of a process on two rings\<close>

text \<open>
  queue_turn on rings: \<open>pend\<close> are the structs still to be added, \<open>n_in\<close> and \<open>n_out\<close> the sizeof arguments
  of the calls. A copy outside the ring is a fault.
\<close>

fun ring_turn :: "(byte list \<Rightarrow> ('s \<times> byte list list) outcome option) \<Rightarrow> nat \<Rightarrow> nat \<Rightarrow> 's
    \<Rightarrow> byte list list \<Rightarrow> queue \<Rightarrow> queue \<Rightarrow> ('s \<times> byte list list \<times> queue \<times> queue) outcome option" where
  "ring_turn work n_in n_out st (p # ps) inq outq =
     map_option (\<lambda>r. outcome_bind r (\<lambda>outq'. Ok (st, ps, inq, outq'))) (queue_add outq p n_out)"
| "ring_turn work n_in n_out st [] inq outq =
     (case queue_remove inq n_in of
        None \<Rightarrow> None
      | Some (Ok (e, inq')) \<Rightarrow>
          map_option (\<lambda>r. outcome_bind r (\<lambda>(st', out). Ok (st', out, inq', outq))) (work e)
      | Some (Exit n) \<Rightarrow> Some (Exit n)
      | Some Fault \<Rightarrow> Some Fault)"

text \<open>A ring of start_machine that carries the structs \<open>xs\<close>.\<close>

definition carries :: "nat \<Rightarrow> ('a \<Rightarrow> byte list) \<Rightarrow> queue \<Rightarrow> 'a list \<Rightarrow> bool" where
  "carries n enc q xs \<longleftrightarrow> struct_queue_inv n q \<and> q_max_count q = MAX_QUEUE_SIZE
     \<and> queue_contents q = map enc xs"

lemma carries_add:
  assumes "carries n enc q xs" and "length (enc x) = n"
  shows "if length xs < MAX_QUEUE_SIZE
    then \<exists>q'. queue_add q (enc x) n = Some (Ok q') \<and> carries n enc q' (xs @ [x])
    else queue_add q (enc x) n = None"
proof -
  have q: "queue_inv q" "q_element_size q = n" "q_max_count q = MAX_QUEUE_SIZE"
    "queue_contents q = map enc xs"
    using assms(1) by (simp_all add: carries_def struct_queue_inv_def)
  then have "length (enc x) = q_element_size q" using assms(2) by simp
  note add = queue_add_spec [OF q(1) this, unfolded q(2-4)]
  have "length xs = q_can_read_lock q" using arg_cong [OF q(4), of length] by simp
  then have "length xs \<le> MAX_QUEUE_SIZE" using queue_contents_bound [OF q(1)] q(3) by simp
  then show ?thesis
    using add by (auto simp: carries_def struct_queue_inv_def q)
qed

lemma carries_remove:
  assumes "carries n enc q xs"
  shows "case xs of [] \<Rightarrow> queue_remove q n = None
    | x # xs' \<Rightarrow> \<exists>q'. queue_remove q n = Some (Ok (enc x, q')) \<and> carries n enc q' xs'"
proof -
  have q: "queue_inv q" "q_element_size q = n" "q_max_count q = MAX_QUEUE_SIZE"
    "queue_contents q = map enc xs"
    using assms by (simp_all add: carries_def struct_queue_inv_def)
  show ?thesis
    using queue_remove_spec [OF q(1), unfolded q(2-4)]
    by (fastforce simp: carries_def struct_queue_inv_def q split: list.splits)
qed

text \<open>The loop on rings that carry structs does what the loop on lists does.\<close>

lemma ring_turn_refines:
  assumes inq: "carries n_in enc_in q_in inq" and outq: "carries n_out enc_out q_out outq"
    and sized: "\<And>x. length (enc_out x) = n_out"
    and work: "\<And>x. work (enc_in x)
      = map_option (\<lambda>r. outcome_bind r (\<lambda>(s, out). Ok (s, map enc_out out))) (list_work x)"
  shows "rel_option (rel_outcome (\<lambda>(s, ps, i, q) (s', ps', i', q'). s = s' \<and> ps = map enc_out ps'
      \<and> carries n_in enc_in i i' \<and> carries n_out enc_out q q'))
    (ring_turn work n_in n_out st (map enc_out pend) q_in q_out) (queue_turn list_work st pend inq outq)"
proof (cases pend)
  case (Cons p ps)
  show ?thesis
    using carries_add [OF outq sized, of p] inq outq
    by (auto simp: Cons split: if_splits)
next
  case Nil
  show ?thesis
  proof (cases inq)
    case Nil
    with \<open>pend = []\<close> carries_remove [OF inq] show ?thesis by simp
  next
    case (Cons x xs)
    with carries_remove [OF inq] obtain q' where
      "queue_remove q_in n_in = Some (Ok (enc_in x, q'))" "carries n_in enc_in q' xs" by auto
    with \<open>pend = []\<close> Cons outq show ?thesis
      by (cases "list_work x"; cases "the (list_work x)") (auto simp: work)
  qed
qed

section \<open>State\<close>

text \<open>
  The record machine with rings for the queues and structs in memory for what is to be added, and the
  files of the queues that the input module has open.
\<close>

record 'w memory_machine =
  mm_world :: 'w
  mm_queue_files :: "u32 \<Rightarrow> queue_file option"
  mm_store :: code_store
  mm_processing_unit :: pu_state
  mm_waiting_table :: token_waiting_table_type
  mm_stdout :: "byte list"
  mm_packets_to_add :: "byte list list"
  mm_answers_to_add :: "byte list list"
  mm_outputs_to_add :: "byte list list"
  mm_tokens_to_add :: "byte list list"
  mm_pairs_to_add :: "byte list list"
  mm_execution_token_output :: queue
  mm_matching_unit_input :: queue
  mm_ready_token_pair :: queue
  mm_preprocessed_executable_packet :: queue
  mm_processed_executable_packet :: queue

definition sizeof_token :: nat where
  "sizeof_token = 24"

definition sizeof_pair :: nat where
  "sizeof_pair = 48"

definition sizeof_packet :: nat where
  "sizeof_packet = 48"

section \<open>A turn of a process\<close>

definition memory_instruction_store_turn :: "'w surroundings \<Rightarrow> 'w memory_machine
    \<Rightarrow> 'w memory_machine outcome option" where
  "memory_instruction_store_turn E M =
     map_option (\<lambda>r. outcome_bind r (\<lambda>(cs, pend, inq, outq).
         Ok (M\<lparr>mm_store := cs, mm_packets_to_add := pend, mm_ready_token_pair := inq,
               mm_preprocessed_executable_packet := outq\<rparr>)))
       (ring_turn (\<lambda>bs. Some (outcome_bind
             (instruction_store_step (su_files E (mm_world M)) (pair_of_bytes bs) (mm_store M))
             (\<lambda>(cs, out). Ok (cs, map (packet_bytes (su_pad E)) out))))
         sizeof_pair sizeof_packet (mm_store M) (mm_packets_to_add M) (mm_ready_token_pair M)
         (mm_preprocessed_executable_packet M))"

text \<open>The rings in the order of start_queues.\<close>

definition rings_of :: "'w memory_machine \<Rightarrow> queue list" where
  "rings_of M = [mm_execution_token_output M, mm_matching_unit_input M, mm_ready_token_pair M,
     mm_preprocessed_executable_packet M, mm_processed_executable_packet M]"

definition with_rings :: "queue list \<Rightarrow> 'w memory_machine \<Rightarrow> 'w memory_machine" where
  "with_rings rings M = M\<lparr>mm_execution_token_output := rings ! 0, mm_matching_unit_input := rings ! 1,
     mm_ready_token_pair := rings ! 2, mm_preprocessed_executable_packet := rings ! 3,
     mm_processed_executable_packet := rings ! 4\<rparr>"

text \<open>
  The input module adds its answer, or removes a packet and works on it, with all rings in reach of its
  system calls.
\<close>

definition memory_input_module_turn :: "'w surroundings \<Rightarrow> 'w memory_machine
    \<Rightarrow> 'w memory_machine outcome option" where
  "memory_input_module_turn E M =
     (case mm_answers_to_add M of
        p # ps \<Rightarrow> map_option (\<lambda>r. outcome_bind r (\<lambda>outq.
            Ok (M\<lparr>mm_answers_to_add := ps, mm_processed_executable_packet := outq\<rparr>)))
          (queue_add (mm_processed_executable_packet M) p sizeof_packet)
      | [] \<Rightarrow>
          (case queue_remove (mm_preprocessed_executable_packet M) sizeof_packet of
             None \<Rightarrow> None
           | Some (Exit n) \<Rightarrow> Some (Exit n)
           | Some Fault \<Rightarrow> Some Fault
           | Some (Ok (bs, inq)) \<Rightarrow>
               let M1 = M\<lparr>mm_preprocessed_executable_packet := inq\<rparr>
               in map_option (\<lambda>(p', w, files, rings). Ok ((with_rings rings M1)\<lparr>mm_world := w, mm_queue_files := files,
                    mm_answers_to_add := [packet_bytes (su_pad E) p']\<rparr>))
                  (input_module_step (shm_posix (su_posix E)) (packet_of_bytes bs)
                    (mm_world M1, mm_queue_files M1, rings_of M1))))"

definition memory_processing_unit_turn :: "'w surroundings \<Rightarrow> 'w memory_machine
    \<Rightarrow> 'w memory_machine outcome option" where
  "memory_processing_unit_turn E M =
     map_option (\<lambda>r. outcome_bind r (\<lambda>(st, pend, inq, outq).
         Ok (M\<lparr>mm_processing_unit := st, mm_outputs_to_add := pend, mm_processed_executable_packet := inq,
               mm_execution_token_output := outq\<rparr>)))
       (ring_turn (\<lambda>bs. Some (outcome_bind
             (processing_unit_step (su_trap_flag E) (su_pu_env E) (packet_of_bytes bs) (mm_processing_unit M))
             (\<lambda>(st, out). Ok (st, map (token_bytes (su_pad E)) out))))
         sizeof_packet sizeof_token (mm_processing_unit M) (mm_outputs_to_add M)
         (mm_processed_executable_packet M) (mm_execution_token_output M))"

definition memory_io_switch_turn :: "'w surroundings \<Rightarrow> 'w memory_machine
    \<Rightarrow> 'w memory_machine outcome option" where
  "memory_io_switch_turn E M =
     map_option (\<lambda>r. outcome_bind r (\<lambda>(stdout, pend, inq, outq).
         Ok (M\<lparr>mm_stdout := stdout, mm_tokens_to_add := pend, mm_execution_token_output := inq,
               mm_matching_unit_input := outq\<rparr>)))
       (ring_turn (\<lambda>bs. Some (outcome_bind (io_switch_step (su_stack E) bs)
             (\<lambda>(printed, out). Ok (mm_stdout M @ printed, out))))
         sizeof_token sizeof_token (mm_stdout M) (mm_tokens_to_add M) (mm_execution_token_output M)
         (mm_matching_unit_input M))"

definition memory_matching_unit_turn :: "'w surroundings \<Rightarrow> 'w memory_machine
    \<Rightarrow> 'w memory_machine outcome option" where
  "memory_matching_unit_turn E M =
     map_option (\<lambda>r. outcome_bind r (\<lambda>(table, pend, inq, outq).
         Ok (M\<lparr>mm_waiting_table := table, mm_pairs_to_add := pend, mm_matching_unit_input := inq,
               mm_ready_token_pair := outq\<rparr>)))
       (ring_turn (\<lambda>bs. Some (outcome_bind
             (matching_unit_step (su_junk_token E) (token_of_bytes bs) (mm_waiting_table M))
             (\<lambda>(table, out). Ok (table, map (pair_bytes (su_pad E)) out))))
         sizeof_token sizeof_pair (mm_waiting_table M) (mm_pairs_to_add M) (mm_matching_unit_input M)
         (mm_ready_token_pair M))"

fun memory_unit_turn :: "'w surroundings \<Rightarrow> machine_unit \<Rightarrow> 'w memory_machine
    \<Rightarrow> 'w memory_machine outcome option" where
  "memory_unit_turn E Instruction_store M = memory_instruction_store_turn E M"
| "memory_unit_turn E Input_module M = memory_input_module_turn E M"
| "memory_unit_turn E Processing_unit M = memory_processing_unit_turn E M"
| "memory_unit_turn E Io_switch M = memory_io_switch_turn E M"
| "memory_unit_turn E Matching_unit M = memory_matching_unit_turn E M"

text \<open>
  start_machine: the queues, in the order of the calls of queue_new; a NULL queue would fault at its
  first use. The rest as in machine_start.
\<close>

definition memory_machine_start :: "'w surroundings \<Rightarrow> queue_new_calls list \<Rightarrow> table_list_type list
    \<Rightarrow> byte list \<Rightarrow> 'w \<Rightarrow> 'w memory_machine option outcome" where
  "memory_machine_start E calls junk os_filename w =
     (case start_queues calls of
        [Some token_output, Some token_input, Some ready_pairs, Some preprocessed, Some processed] \<Rightarrow>
          outcome_bind (instruction_store_start (su_files E w) os_filename) (\<lambda>started.
            Ok (map_option (\<lambda>(cs, ready).
              \<lparr>mm_world = w, mm_queue_files = queue_files (su_queue_fds E), mm_store = cs, mm_processing_unit = pu_init,
               mm_waiting_table = init_waiting_table junk SIZE_MATCHING_STORE, mm_stdout = [],
               mm_packets_to_add = map (packet_bytes (su_pad E)) ready, mm_answers_to_add = [],
               mm_outputs_to_add = [], mm_tokens_to_add = [], mm_pairs_to_add = [],
               mm_execution_token_output = token_output, mm_matching_unit_input = token_input,
               mm_ready_token_pair = ready_pairs, mm_preprocessed_executable_packet = preprocessed,
               mm_processed_executable_packet = processed\<rparr>) started))
      | _ \<Rightarrow> Fault)"

section \<open>The simulation\<close>

definition memory_rel :: "'w surroundings \<Rightarrow> 'w memory_machine \<Rightarrow> 'w machine \<Rightarrow> bool" where
  "memory_rel E M m \<longleftrightarrow> mm_world M = mc_world m \<and> mm_queue_files M = queue_files (su_queue_fds E)
     \<and> mm_store M = mc_store m
     \<and> mm_processing_unit M = mc_processing_unit m \<and> mm_waiting_table M = mc_waiting_table m
     \<and> mm_stdout M = mc_stdout m
     \<and> mm_packets_to_add M = map (packet_bytes (su_pad E)) (mc_packets_to_add m)
     \<and> mm_answers_to_add M = map (packet_bytes (su_pad E)) (mc_answers_to_add m)
     \<and> mm_outputs_to_add M = map (token_bytes (su_pad E)) (mc_outputs_to_add m)
     \<and> mm_tokens_to_add M = map (token_bytes (su_pad E)) (mc_tokens_to_add m)
     \<and> mm_pairs_to_add M = map (pair_bytes (su_pad E)) (mc_pairs_to_add m)
     \<and> carries sizeof_token (token_bytes (su_pad E)) (mm_execution_token_output M) (mc_execution_token_output m)
     \<and> carries sizeof_token (token_bytes (su_pad E)) (mm_matching_unit_input M) (mc_matching_unit_input m)
     \<and> carries sizeof_pair (pair_bytes (su_pad E)) (mm_ready_token_pair M) (mc_ready_token_pair m)
     \<and> carries sizeof_packet (packet_bytes (su_pad E)) (mm_preprocessed_executable_packet M)
         (mc_preprocessed_executable_packet m)
     \<and> carries sizeof_packet (packet_bytes (su_pad E)) (mm_processed_executable_packet M)
         (mc_processed_executable_packet m)"

lemmas struct_sizes = sizeof_token_def sizeof_pair_def sizeof_packet_def
lemmas struct_lengths = token_codec.length_enc pair_codec.length_enc packet_codec.length_enc
lemmas struct_decodes = token_codec.dec_enc pair_codec.dec_enc packet_codec.dec_enc

text \<open>Both turns end with an update of the record.\<close>

lemma rel_turn:
  assumes "rel_option (rel_outcome R) a b" and "\<And>x y. R x y \<Longrightarrow> S (f x) (g y)"
  shows "rel_option (rel_outcome S) (map_option (\<lambda>r. outcome_bind r (\<lambda>x. Ok (f x))) a)
    (map_option (\<lambda>r. outcome_bind r (\<lambda>x. Ok (g x))) b)"
proof (cases a)
  case None
  with assms(1) show ?thesis by simp
next
  case (Some r)
  with assms(1) obtain r' where b: "b = Some r'" "rel_outcome R r r'" by (cases b) auto
  from b(2) show ?thesis by cases (auto simp: Some b(1) intro: assms(2))
qed

lemma memory_relD:
  assumes "memory_rel E M m"
  shows "mm_world M = mc_world m" "mm_store M = mc_store m" "mm_processing_unit M = mc_processing_unit m"
    "mm_waiting_table M = mc_waiting_table m" "mm_stdout M = mc_stdout m"
    "mm_packets_to_add M = map (packet_bytes (su_pad E)) (mc_packets_to_add m)"
    "mm_answers_to_add M = map (packet_bytes (su_pad E)) (mc_answers_to_add m)"
    "mm_outputs_to_add M = map (token_bytes (su_pad E)) (mc_outputs_to_add m)"
    "mm_tokens_to_add M = map (token_bytes (su_pad E)) (mc_tokens_to_add m)"
    "mm_pairs_to_add M = map (pair_bytes (su_pad E)) (mc_pairs_to_add m)"
    "carries sizeof_token (token_bytes (su_pad E)) (mm_execution_token_output M) (mc_execution_token_output m)"
    "carries sizeof_token (token_bytes (su_pad E)) (mm_matching_unit_input M) (mc_matching_unit_input m)"
    "carries sizeof_pair (pair_bytes (su_pad E)) (mm_ready_token_pair M) (mc_ready_token_pair m)"
    "carries sizeof_packet (packet_bytes (su_pad E)) (mm_preprocessed_executable_packet M)
       (mc_preprocessed_executable_packet m)"
    "carries sizeof_packet (packet_bytes (su_pad E)) (mm_processed_executable_packet M)
       (mc_processed_executable_packet m)" "mm_queue_files M = queue_files (su_queue_fds E)"
  using assms by (simp_all add: memory_rel_def)

text \<open>The switch passes on the bytes it has received, which are those of the token.\<close>

lemma io_switch_struct:
  "outcome_bind (io_switch_step stack (token_bytes pad t)) (\<lambda>(printed, out). Ok (text @ printed, out))
   = outcome_bind (outcome_bind (io_switch_step stack (token_bytes pad t))
       (\<lambda>(printed, out). Ok (text @ printed, map token_of_bytes out)))
     (\<lambda>(s, out). Ok (s, map (token_bytes pad) out))"
  by (simp add: io_switch_step_spec token_codec.dec_enc)

lemma split_turn:
  assumes "rel_option (rel_outcome R) a b"
    and "\<And>s p i q s' p' i' q'. R (s, p, i, q) (s', p', i', q') \<Longrightarrow> S (f s p i q) (g s' p' i' q')"
  shows "rel_option (rel_outcome S) (map_option (\<lambda>r. outcome_bind r (\<lambda>(s, p, i, q). Ok (f s p i q))) a)
    (map_option (\<lambda>r. outcome_bind r (\<lambda>(s, p, i, q). Ok (g s p i q))) b)"
  using rel_turn [OF assms(1), of S "\<lambda>(s, p, i, q). f s p i q" "\<lambda>(s, p, i, q). g s p i q"] assms(2)
  by (auto simp: split_def)

lemma instruction_store_simulates:
  assumes rel: "memory_rel E M m"
  shows "rel_option (rel_outcome (memory_rel E))
    (memory_instruction_store_turn E M) (instruction_store_turn E m)"
proof -
  note r = memory_relD [OF rel]
  note ring = ring_turn_refines [OF r(13,14),
      where work = "\<lambda>bs. Some (outcome_bind (instruction_store_step (su_files E (mc_world m)) (pair_of_bytes bs) (mc_store m))
          (\<lambda>(cs, out). Ok (cs, map (packet_bytes (su_pad E)) out)))"
        and list_work = "\<lambda>pair. Some (instruction_store_step (su_files E (mc_world m)) pair (mc_store m))"
        and st = "mc_store m" and pend = "mc_packets_to_add m"]
  show ?thesis
    unfolding memory_instruction_store_turn_def instruction_store_turn_def r(1-10)
    by (rule split_turn [OF ring])
      (use rel in \<open>auto simp: memory_rel_def struct_sizes struct_lengths struct_decodes\<close>)
qed

lemma descriptors_free:
  assumes "\<not> names_queue fds p"
  shows "\<forall>fd\<in>set (descriptors_of p). queue_files fds fd = None"
  using assms by (auto simp: names_queue_def intro: queue_files_None)

lemma rings_same: "with_rings (rings_of M) M = M"
  by (simp add: with_rings_def rings_of_def)

text \<open>
  When the packet does not name a queue, the input module does on rings what it does on lists.
\<close>

lemma input_module_simulates:
  assumes rel: "memory_rel E M m" and inside: "\<not> machine_outside E m"
  shows "rel_option (rel_outcome (memory_rel E)) (memory_input_module_turn E M) (input_module_turn E m)"
proof (cases "mc_answers_to_add m")
  case (Cons p ps)
  note r = memory_relD [OF rel]
  have "length (packet_bytes (su_pad E) p) = sizeof_packet" by (simp add: struct_sizes struct_lengths)
  from carries_add [OF r(15) this] rel show ?thesis
    by (auto simp: memory_input_module_turn_def input_module_turn_def r(7) Cons memory_rel_def split: if_splits)
next
  case Nil
  note r = memory_relD [OF rel]
  show ?thesis
  proof (cases "mc_preprocessed_executable_packet m")
    case Nil
    with \<open>mc_answers_to_add m = []\<close> carries_remove [OF r(14)] show ?thesis
      by (simp add: memory_input_module_turn_def input_module_turn_def r(7))
  next
    case (Cons p ps)
    with \<open>mc_answers_to_add m = []\<close> inside have named: "\<not> names_queue (su_queue_fds E) p"
      by (simp add: machine_outside_def)
    from carries_remove [OF r(14)] Cons obtain q' where
      q': "queue_remove (mm_preprocessed_executable_packet M) sizeof_packet = Some (Ok (packet_bytes (su_pad E) p, q'))"
        "carries sizeof_packet (packet_bytes (su_pad E)) q' ps" by auto
    let ?M1 = "M\<lparr>mm_preprocessed_executable_packet := q'\<rparr>"
    have "mm_queue_files M = queue_files (su_queue_fds E)" using r(16) .
    with step_spares [of p "mm_queue_files M"] descriptors_free [OF named]
    have "input_module_step (shm_posix (su_posix E)) p (mm_world ?M1, mm_queue_files ?M1, rings_of ?M1)
        = map_option (\<lambda>(p', w'). (p', w', mm_queue_files ?M1, rings_of ?M1)) (input_module_step (su_posix E) p (mc_world m))"
      by (simp add: r(1))
    then have "memory_input_module_turn E M = map_option (\<lambda>(p', w'). Ok (?M1\<lparr>mm_world := w',
        mm_answers_to_add := [packet_bytes (su_pad E) p']\<rparr>)) (input_module_step (su_posix E) p (mc_world m))"
      using \<open>mc_answers_to_add m = []\<close> q'(1) rings_same [of ?M1]
      by (simp add: memory_input_module_turn_def r(7) struct_decodes Let_def option.map_comp comp_def split_def)
    moreover have "input_module_turn E m = map_option (\<lambda>(p', w'). Ok (m\<lparr>mc_world := w', mc_answers_to_add := [p'],
        mc_preprocessed_executable_packet := ps\<rparr>)) (input_module_step (su_posix E) p (mc_world m))"
      using \<open>mc_answers_to_add m = []\<close> Cons named
      by (simp add: input_module_turn_def input_module_work_def option.map_comp comp_def split_def)
    ultimately show ?thesis
      using rel q'(2) by (cases "input_module_step (su_posix E) p (mc_world m)") (auto simp: memory_rel_def)
  qed
qed

lemma processing_unit_simulates:
  assumes rel: "memory_rel E M m"
  shows "rel_option (rel_outcome (memory_rel E))
    (memory_processing_unit_turn E M) (processing_unit_turn E m)"
proof -
  note r = memory_relD [OF rel]
  note ring = ring_turn_refines [OF r(15,11),
      where work = "\<lambda>bs. Some (outcome_bind (processing_unit_step (su_trap_flag E) (su_pu_env E) (packet_of_bytes bs)
            (mc_processing_unit m)) (\<lambda>(st, out). Ok (st, map (token_bytes (su_pad E)) out)))"
        and list_work = "\<lambda>p. Some (processing_unit_step (su_trap_flag E) (su_pu_env E) p (mc_processing_unit m))"
        and st = "mc_processing_unit m" and pend = "mc_outputs_to_add m"]
  show ?thesis
    unfolding memory_processing_unit_turn_def processing_unit_turn_def r(1-10)
    by (rule split_turn [OF ring])
      (use rel in \<open>auto simp: memory_rel_def struct_sizes struct_lengths struct_decodes\<close>)
qed

lemma io_switch_simulates:
  assumes rel: "memory_rel E M m"
  shows "rel_option (rel_outcome (memory_rel E))
    (memory_io_switch_turn E M) (io_switch_turn E m)"
proof -
  note r = memory_relD [OF rel]
  note ring = ring_turn_refines [OF r(11,12),
      where work = "\<lambda>bs. Some (outcome_bind (io_switch_step (su_stack E) bs) (\<lambda>(printed, out). Ok (mc_stdout m @ printed, out)))"
        and list_work = "\<lambda>t. Some (outcome_bind (io_switch_step (su_stack E) (token_bytes (su_pad E) t))
          (\<lambda>(printed, out). Ok (mc_stdout m @ printed, map token_of_bytes out)))"
        and st = "mc_stdout m" and pend = "mc_tokens_to_add m"]
  show ?thesis
    unfolding memory_io_switch_turn_def io_switch_turn_def r(1-10)
    by (rule split_turn [OF ring])
      (use rel in \<open>auto simp: memory_rel_def struct_sizes struct_lengths struct_decodes io_switch_struct\<close>)
qed

lemma matching_unit_simulates:
  assumes rel: "memory_rel E M m"
  shows "rel_option (rel_outcome (memory_rel E))
    (memory_matching_unit_turn E M) (matching_unit_turn E m)"
proof -
  note r = memory_relD [OF rel]
  note ring = ring_turn_refines [OF r(12,13),
      where work = "\<lambda>bs. Some (outcome_bind (matching_unit_step (su_junk_token E) (token_of_bytes bs) (mc_waiting_table m))
          (\<lambda>(table, out). Ok (table, map (pair_bytes (su_pad E)) out)))"
        and list_work = "\<lambda>t. Some (matching_unit_step (su_junk_token E) t (mc_waiting_table m))"
        and st = "mc_waiting_table m" and pend = "mc_pairs_to_add m"]
  show ?thesis
    unfolding memory_matching_unit_turn_def matching_unit_turn_def r(1-10)
    by (rule split_turn [OF ring])
      (use rel in \<open>auto simp: memory_rel_def struct_sizes struct_lengths struct_decodes\<close>)
qed

lemma memory_turn_simulates:
  assumes "memory_rel E M m" and "u = Input_module \<longrightarrow> \<not> machine_outside E m"
  shows "rel_option (rel_outcome (memory_rel E)) (memory_unit_turn E u M) (unit_turn E u m)"
  using instruction_store_simulates [OF assms(1)] input_module_simulates [OF assms(1)]
    processing_unit_simulates [OF assms(1)] io_switch_simulates [OF assms(1)] matching_unit_simulates [OF assms(1)]
    assms(2)
  by (cases u) simp_all

lemma fresh_carries:
  assumes "queue_new env MAX_QUEUE_SIZE n = Some q" and "0 < n" and "n < 2 ^ 31"
  shows "carries n enc q []"
  using fresh_struct_queue [OF assms(1) _ assms(2,3)] by (simp add: carries_def MAX_QUEUE_SIZE_def)

lemma memory_start_simulates:
  assumes "memory_machine_start E calls junk os_filename w = Ok (Some M0)"
  shows "\<exists>m0. machine_start E junk os_filename w = Ok (Some m0) \<and> memory_rel E M0 m0"
proof -
  from assms obtain q1 q2 q3 q4 q5 where
    start: "start_queues calls = [Some q1, Some q2, Some q3, Some q4, Some q5]"
    by (auto simp: memory_machine_start_def split: list.splits option.splits)
  from arg_cong [OF start, of length] have "5 \<le> length calls" by (simp add: start_queues_def)
  then obtain c1 c2 c3 c4 c5 rest where "calls = c1 # c2 # c3 # c4 # c5 # rest"
    by (auto simp: numeral_eq_Suc Suc_le_length_iff)
  with start have new: "queue_new c1 MAX_QUEUE_SIZE 24 = Some q1" "queue_new c2 MAX_QUEUE_SIZE 24 = Some q2"
    "queue_new c3 MAX_QUEUE_SIZE 48 = Some q3" "queue_new c4 MAX_QUEUE_SIZE 48 = Some q4"
    "queue_new c5 MAX_QUEUE_SIZE 48 = Some q5"
    by (simp_all add: start_queues_def)
  from assms start obtain cs ready where
    os: "instruction_store_start (su_files E w) os_filename = Ok (Some (cs, ready))"
    and M0: "M0 = \<lparr>mm_world = w, mm_queue_files = queue_files (su_queue_fds E), mm_store = cs, mm_processing_unit = pu_init,
      mm_waiting_table = init_waiting_table junk SIZE_MATCHING_STORE, mm_stdout = [],
      mm_packets_to_add = map (packet_bytes (su_pad E)) ready, mm_answers_to_add = [],
      mm_outputs_to_add = [], mm_tokens_to_add = [], mm_pairs_to_add = [],
      mm_execution_token_output = q1, mm_matching_unit_input = q2, mm_ready_token_pair = q3,
      mm_preprocessed_executable_packet = q4, mm_processed_executable_packet = q5\<rparr>"
    by (auto simp: memory_machine_start_def outcome_bind_Ok_iff)
  show ?thesis
    unfolding machine_start_def os M0 using new
    by (auto simp: memory_rel_def struct_sizes intro!: fresh_carries)
qed

text \<open>The packet the input module would take does not name a queue; then its turn leaves the rings alone.\<close>

definition memory_spares :: "'w surroundings \<Rightarrow> 'w memory_machine \<Rightarrow> bool" where
  "memory_spares E M \<longleftrightarrow> mm_answers_to_add M \<noteq> [] \<or> (case queue_contents (mm_preprocessed_executable_packet M) of
     [] \<Rightarrow> True | bs # _ \<Rightarrow> \<not> names_queue (su_queue_fds E) (packet_of_bytes bs))"

definition spared_turn :: "'w surroundings \<Rightarrow> 'w memory_machine \<Rightarrow> 'w memory_machine \<Rightarrow> bool" where
  "spared_turn E M M' \<longleftrightarrow> (\<exists>u. memory_unit_turn E u M = Some (Ok M') \<and> (u = Input_module \<longrightarrow> memory_spares E M))"

lemma spares_iff:
  assumes "memory_rel E M m"
  shows "memory_spares E M \<longleftrightarrow> \<not> machine_outside E m"
  using memory_relD(7,14) [OF assms]
  by (auto simp: memory_spares_def machine_outside_def carries_def struct_decodes split: list.splits)

lemma outside_waits: "machine_outside E m \<Longrightarrow> unit_turn E Input_module m = None"
  by (auto simp: machine_outside_def unit_waits input_module_work_None)

lemma memory_step_simulates:
  assumes "memory_rel E M m"
  shows "spared_turn E M M' \<Longrightarrow> \<exists>m'. machine_turn E m m' \<and> memory_rel E M' m'"
    and "machine_turn E m m' \<Longrightarrow> \<exists>M'. spared_turn E M M' \<and> memory_rel E M' m'"
proof -
  note sim = memory_turn_simulates [OF assms] and spares = spares_iff [OF assms]
  show "\<exists>m'. machine_turn E m m' \<and> memory_rel E M' m'" if "spared_turn E M M'"
  proof -
    from that obtain u where "memory_unit_turn E u M = Some (Ok M')" "u = Input_module \<longrightarrow> \<not> machine_outside E m"
      by (auto simp: spared_turn_def spares)
    with sim [of u] show ?thesis
      by (auto simp: machine_turn_def option_rel_Some1 elim!: outcome.rel_cases)
  qed
  show "\<exists>M'. spared_turn E M M' \<and> memory_rel E M' m'" if "machine_turn E m m'"
  proof -
    from that obtain u where u: "unit_turn E u m = Some (Ok m')" by (auto simp: machine_turn_def)
    then have "u = Input_module \<longrightarrow> \<not> machine_outside E m" using outside_waits [of E m] by auto
    with sim [of u] u show ?thesis
      by (auto simp: spared_turn_def spares option_rel_Some2 elim!: outcome.rel_cases)
  qed
qed

text \<open>A simulation of single steps is one of runs of the same length.\<close>

lemma relpowp_simulation:
  assumes step: "\<And>a a' b. R a b \<Longrightarrow> f a a' \<Longrightarrow> \<exists>b'. g b b' \<and> R a' b'"
    and "R a b" and "(f ^^ n) a a'"
  shows "\<exists>b'. (g ^^ n) b b' \<and> R a' b'"
  using assms(3)
proof (induction n arbitrary: a')
  case 0
  with assms(2) show ?case by auto
next
  case (Suc n)
  then obtain a1 where "(f ^^ n) a a1" "f a1 a'" by auto
  with Suc.IH [of a1] step [of a1 _ a'] show ?case by (auto simp: relcompp.simps) blast
qed

text \<open>
  C5: the machine runs on the shared memory as it does on lists, until a call is made with the descriptor
  of a queue. When the five queues can be made and the operating system loads, every sequence of turns of
  the processes on the rings of bytes without such a call is a sequence of turns of the machine with lists
  and the other way round, the same process moving in each step; in all states that arise the rings hold
  the structs of the lists, and every process waits, ends with a status or touches foreign memory on the
  rings exactly when it does on the lists - the input module, when the packet before it names no queue.
  (What such a call does to the rings is shown by queue_descriptors_forge.)
\<close>

theorem shared_memory_implements_machine:
  assumes "memory_machine_start E calls junk os_filename w = Ok (Some M0)"
  shows "\<exists>m0. machine_start E junk os_filename w = Ok (Some m0)
    \<and> (\<forall>n M. (spared_turn E ^^ n) M0 M \<longrightarrow> (\<exists>m. (machine_turn E ^^ n) m0 m \<and> memory_rel E M m
         \<and> (\<forall>u. u \<noteq> Input_module \<or> memory_spares E M \<longrightarrow>
              rel_option (rel_outcome (memory_rel E)) (memory_unit_turn E u M) (unit_turn E u m))))
    \<and> (\<forall>n m. (machine_turn E ^^ n) m0 m \<longrightarrow> (\<exists>M. (spared_turn E ^^ n) M0 M \<and> memory_rel E M m))"
proof -
  let ?R = "memory_rel E"
  obtain m0 where start: "machine_start E junk os_filename w = Ok (Some m0)" and rel: "?R M0 m0"
    using memory_start_simulates [OF assms] by blast
  have down: "\<exists>m. (machine_turn E ^^ n) m0 m \<and> ?R M m" if "(spared_turn E ^^ n) M0 M" for n M
    using relpowp_simulation [of ?R "spared_turn E" "machine_turn E"] memory_step_simulates(1) rel that by blast
  have up: "\<exists>M. (spared_turn E ^^ n) M0 M \<and> ?R M m" if "(machine_turn E ^^ n) m0 m" for n m
    using relpowp_simulation [of "\<lambda>m M. ?R M m" "machine_turn E" "spared_turn E"]
      memory_step_simulates(2) rel that by blast
  have same: "rel_option (rel_outcome ?R) (memory_unit_turn E u M) (unit_turn E u m)"
    if "?R M m" "u \<noteq> Input_module \<or> memory_spares E M" for M m u
    using memory_turn_simulates [OF that(1), of u] that(2) spares_iff [OF that(1)] by blast
  show ?thesis
  proof (rule exI [of _ m0], intro conjI allI impI start)
    show "\<exists>m. (machine_turn E ^^ n) m0 m \<and> ?R M m \<and> (\<forall>u. u \<noteq> Input_module \<or> memory_spares E M \<longrightarrow>
        rel_option (rel_outcome ?R) (memory_unit_turn E u M) (unit_turn E u m))"
      if "(spared_turn E ^^ n) M0 M" for n M using down [OF that] same by blast
    show "\<exists>M. (spared_turn E ^^ n) M0 M \<and> ?R M m" if "(machine_turn E ^^ n) m0 m" for n m
      using that by (rule up)
  qed
qed

lemma replicate_5: "replicate 5 x = [x, x, x, x, x]"
  by (simp add: numeral_eq_Suc)

theorem shared_memory_implements_machine_witness:
  "\<exists>M0 M1. memory_machine_start small_surroundings (replicate 5 all_calls_ok) [] [111, 115] ([], [])
      = Ok (Some M0)
    \<and> spared_turn small_surroundings M0 M1
    \<and> queue_contents (mm_preprocessed_executable_packet M1) = [packet_bytes 0 os_packet]"
proof -
  let ?E = small_surroundings
  have "\<exists>q. queue_new all_calls_ok MAX_QUEUE_SIZE n = Some q" for n by (simp add: queue_new_def Let_def)
  then have "\<exists>q1 q2 q3 q4 q5. start_queues (replicate 5 all_calls_ok) = [Some q1, Some q2, Some q3, Some q4, Some q5]"
    unfolding start_queues_def replicate_5 list.map zip_Cons_Cons zip_Nil prod.case by metis
  then obtain M0 where M0: "memory_machine_start ?E (replicate 5 all_calls_ok) [] [111, 115] ([], []) = Ok (Some M0)"
    by (auto simp: memory_machine_start_def small_surroundings_def os_start)
  have "unit_turn ?E Instruction_store small_machine = Some (Ok moved_machine)"
    by (simp add: instruction_store_turn_def small_machine_def MAX_QUEUE_SIZE_def)
  then have run: "(machine_turn ?E ^^ 1) small_machine moved_machine"
    unfolding relpowp_1 machine_turn_def by blast
  have "\<forall>n m. (machine_turn ?E ^^ n) small_machine m \<longrightarrow>
      (\<exists>M. (spared_turn ?E ^^ n) M0 M \<and> memory_rel ?E M m)"
    using shared_memory_implements_machine [OF M0] by (simp add: small_machine_start)
  with run obtain M1 where "(spared_turn ?E ^^ 1) M0 M1" "memory_rel ?E M1 moved_machine"
    by blast
  with M0 show ?thesis
    by (simp only: relpowp_1) (auto simp: memory_rel_def carries_def small_surroundings_def)
qed

end
