(* ===== verification/Process_Tree.thy ===== *)
theory Process_Tree
  imports Machine
begin

text \<open>
  start_machine of manchester.c as processes: six forks, each followed by the code of the child, the
  wait, and the six kills. A child whose function returns goes on with the code of its parent; this is
  what the instruction store does when the file of the operating system cannot be opened.
\<close>

section \<open>Processes\<close>

text \<open>
  Where a process is in start_machine: before a fork, with the forks from there on (none left: in
  wait); in the function of a child, with the forks after it; before a kill, with the kills from there
  on (none left: about to return); or ended.
\<close>

datatype location = At_fork "child list" | In_body child "child list" | At_kill "child list" | Ended

text \<open>The variables of start_machine that hold what fork returned: 0 in the child itself.\<close>

record process =
  pr_parent :: nat
  pr_at :: location
  pr_pids :: "child \<Rightarrow> nat option"

text \<open>All processes of the group, the process with number \<open>Suc i\<close> in place \<open>i\<close>.\<close>

type_synonym process_group = "process list"

definition start_group :: process_group where
  "start_group = [\<lparr>pr_parent = 0, pr_at = At_fork children, pr_pids = (\<lambda>_. None)\<rparr>]"

definition move_to :: "location \<Rightarrow> process \<Rightarrow> process" where
  "move_to l p = p\<lparr>pr_at := l\<rparr>"

text \<open>The function of a child returns when the instruction store cannot open its file.\<close>

definition body_returns :: "bool \<Rightarrow> child \<Rightarrow> bool" where
  "body_returns os_opens c \<longleftrightarrow> c = Unit Instruction_store \<and> \<not> os_opens"

text \<open>
  The next step of start_machine in process \<open>i\<close>; None when it has none, as it is in the loop of its
  unit, asleep, waiting, or has ended. wait returns once a child has ended; kill with the number 0 goes
  to every process of the group.
\<close>

definition proceed :: "bool \<Rightarrow> nat \<Rightarrow> process_group \<Rightarrow> process_group option" where
  "proceed os_opens i ps =
     (let p = ps ! i in
      case pr_at p of
        At_fork (c # cs) \<Rightarrow>
          Some (ps[i := p\<lparr>pr_at := At_fork cs, pr_pids := (pr_pids p)(c \<mapsto> Suc (length ps))\<rparr>]
            @ [\<lparr>pr_parent = Suc i, pr_at = In_body c cs, pr_pids = (pr_pids p)(c \<mapsto> 0)\<rparr>])
      | At_fork [] \<Rightarrow>
          if \<exists>q\<in>set ps. pr_parent q = Suc i \<and> pr_at q = Ended
          then Some (ps[i := move_to (At_kill kill_order) p]) else None
      | In_body c cs \<Rightarrow>
          if body_returns os_opens c then Some (ps[i := move_to (At_fork cs) p]) else None
      | At_kill (c # cs) \<Rightarrow>
          (case pr_pids p c of
             None \<Rightarrow> None
           | Some 0 \<Rightarrow> Some (map (move_to Ended) ps)
           | Some (Suc j) \<Rightarrow> Some ((ps[i := move_to (At_kill cs) p])[j := move_to Ended (ps ! j)]))
      | At_kill [] \<Rightarrow> Some (ps[i := move_to Ended p])
      | Ended \<Rightarrow> None)"

text \<open>The loop of a unit may end the process, and so does the timeout.\<close>

definition expire :: "bool \<Rightarrow> nat \<Rightarrow> process_group \<Rightarrow> process_group option" where
  "expire os_opens i ps =
     (case pr_at (ps ! i) of
        In_body c cs \<Rightarrow> if body_returns os_opens c then None else Some (ps[i := move_to Ended (ps ! i)])
      | _ \<Rightarrow> None)"

datatype process_event = Proceed nat | Expire nat

fun group_event :: "bool \<Rightarrow> process_event \<Rightarrow> process_group \<Rightarrow> process_group option" where
  "group_event os_opens (Proceed i) ps = (if i < length ps then proceed os_opens i ps else None)"
| "group_event os_opens (Expire i) ps = (if i < length ps then expire os_opens i ps else None)"

fun group_run :: "bool \<Rightarrow> process_event list \<Rightarrow> process_group \<Rightarrow> process_group option" where
  "group_run os_opens [] ps = Some ps"
| "group_run os_opens (e # es) ps =
     (case group_event os_opens e ps of None \<Rightarrow> None | Some ps' \<Rightarrow> group_run os_opens es ps')"

definition ended :: "process \<Rightarrow> bool" where
  "ended p \<longleftrightarrow> pr_at p = Ended"

section \<open>The start with an operating system\<close>

text \<open>
  The main process has made the first \<open>k\<close> children, in order; each is in its function or has ended; the
  kills that are done have ended theirs.
\<close>

definition main_at :: "nat \<Rightarrow> process_group \<Rightarrow> bool" where
  "main_at k ps \<longleftrightarrow> (case pr_at (ps ! 0) of
       At_fork cs \<Rightarrow> cs = drop k children
     | At_kill cs \<Rightarrow> k = 6 \<and> (\<exists>killed. kill_order = killed @ cs
         \<and> (\<forall>j<6. children ! j \<in> set killed \<longrightarrow> ended (ps ! Suc j)))
     | Ended \<Rightarrow> k = 6 \<and> (\<forall>j<6. ended (ps ! Suc j))
     | In_body c cs \<Rightarrow> False)"

definition group_ok :: "nat \<Rightarrow> process_group \<Rightarrow> bool" where
  "group_ok k ps \<longleftrightarrow> k \<le> 6 \<and> length ps = Suc k \<and> pr_parent (ps ! 0) = 0 \<and> main_at k ps
     \<and> (\<forall>j<k. pr_parent (ps ! Suc j) = 1 \<and> pr_pids (ps ! 0) (children ! j) = Some (Suc (Suc j))
          \<and> (pr_at (ps ! Suc j) = In_body (children ! j) (drop (Suc j) children) \<or> ended (ps ! Suc j)))"

lemma length_children: "length children = 6"
  by (simp add: children_def)

lemma distinct_children: "i < 6 \<Longrightarrow> j < 6 \<Longrightarrow> children ! i = children ! j \<longleftrightarrow> i = j"
  by (rule nth_eq_iff_index_eq) (simp_all add: children_def)

lemma start_group_ok: "group_ok 0 start_group"
  by (simp add: group_ok_def main_at_def start_group_def)

lemma expire_ok:
  assumes "group_ok k ps" and "i < length ps" and "expire os_opens i ps = Some ps'"
  shows "group_ok k ps'"
proof -
  have "expire os_opens 0 ps = None"
    using assms(1) by (auto simp: group_ok_def main_at_def expire_def split: location.splits)
  with assms(3) have "i \<noteq> 0" by (cases i) simp_all
  then obtain j where i: "i = Suc j" by (cases i) auto
  from assms(3) have ps': "ps' = ps[i := move_to Ended (ps ! i)]"
    by (auto simp: expire_def split: location.splits if_splits)
  have "pr_at (ps' ! Suc n) = (if n = j then Ended else pr_at (ps ! Suc n))"
    "pr_parent (ps' ! Suc n) = pr_parent (ps ! Suc n)" "ps' ! 0 = ps ! 0" for n
    using assms(2) i by (auto simp: ps' move_to_def nth_list_update)
  then show ?thesis
    using assms(1) by (auto simp: group_ok_def main_at_def ended_def ps' split: location.splits)
qed

lemma kill_order_children: "c \<in> set kill_order \<longleftrightarrow> (\<exists>j<6. c = children ! j)"
proof -
  have "set kill_order = set children" by (auto simp: kill_order_def children_def)
  then show ?thesis by (auto simp: in_set_conv_nth length_children)
qed

lemma child_waits:
  assumes "group_ok k ps" and "j < k"
  shows "proceed True (Suc j) ps = None"
  using assms by (auto simp: group_ok_def proceed_def body_returns_def ended_def Let_def)

lemma fork_ok:
  assumes ok: "group_ok k ps" and at: "pr_at (ps ! 0) = At_fork (c # cs)" and step: "proceed True 0 ps = Some ps'"
  shows "group_ok (Suc k) ps'"
proof -
  let ?p = "ps ! 0"
  let ?main = "?p\<lparr>pr_at := At_fork cs, pr_pids := (pr_pids ?p)(c \<mapsto> Suc (length ps))\<rparr>"
  let ?new = "\<lparr>pr_parent = Suc 0, pr_at = In_body c cs, pr_pids = (pr_pids ?p)(c \<mapsto> 0)\<rparr>"
  have len: "length ps = Suc k" and k: "k \<le> 6" and drop: "c # cs = drop k children"
    using ok at by (auto simp: group_ok_def main_at_def)
  then have k6: "k < 6" using length_children by (cases "k = 6") auto
  from drop have c: "c = children ! k" and cs: "cs = drop (Suc k) children"
    using k6 by (simp_all add: Cons_nth_drop_Suc [symmetric] length_children)
  have ps': "ps' = ps[0 := ?main] @ [?new]" using step at by (simp add: proceed_def Let_def)
  have main: "ps' ! 0 = ?main" using len by (cases ps) (simp_all add: ps')
  have others: "ps' ! Suc j = (if j = k then ?new else ps ! Suc j)" if "j < Suc k" for j
    using that len by (auto simp: ps' nth_append)
  have pids: "pr_pids ?main (children ! j) = Some (Suc (Suc j))" if "j < Suc k" for j
    using that ok k6 distinct_children [of j k] by (auto simp: c len group_ok_def less_Suc_eq)
  have "main_at (Suc k) ps'" by (simp add: main_at_def main cs)
  moreover have "length ps' = Suc (Suc k)" by (simp add: ps' len)
  moreover have "pr_pids (ps' ! 0) (children ! j) = Some (Suc (Suc j))" if "j < Suc k" for j
    unfolding main by (rule pids [OF that])
  ultimately show ?thesis
    using ok k6 others main unfolding group_ok_def c [symmetric]
    by (auto simp: less_Suc_eq c cs)
qed

lemma kill_ok:
  assumes ok: "group_ok k ps" and at: "pr_at (ps ! 0) = At_kill (c # cs)" and step: "proceed True 0 ps = Some ps'"
  shows "group_ok k ps'"
proof -
  from ok at obtain killed where k: "k = 6" and len: "length ps = 7" and order: "kill_order = killed @ c # cs"
    and dead: "\<forall>j<6. children ! j \<in> set killed \<longrightarrow> ended (ps ! Suc j)"
    by (auto simp: group_ok_def main_at_def)
  have "c \<in> set kill_order" by (simp add: order)
  then obtain j where j: "j < 6" "c = children ! j" by (auto simp: kill_order_children)
  then have "pr_pids (ps ! 0) c = Some (Suc (Suc j))" using ok k by (simp add: group_ok_def)
  then have ps': "ps' = (ps[0 := move_to (At_kill cs) (ps ! 0)])[Suc j := move_to Ended (ps ! Suc j)]"
    using step at by (simp add: proceed_def Let_def)
  have main: "ps' ! 0 = move_to (At_kill cs) (ps ! 0)" using len by (cases ps) (simp_all add: ps')
  have others: "ps' ! Suc n = (if n = j then move_to Ended (ps ! Suc n) else ps ! Suc n)" if "n < 6" for n
    using that len j(1) by (auto simp: ps' nth_list_update)
  have "ended (ps' ! Suc n)" if "n < 6" "children ! n \<in> set (killed @ [c])" for n
    using that dead others [OF that(1)] distinct_children [of n j] j
    by (auto simp: ended_def move_to_def)
  moreover have "kill_order = (killed @ [c]) @ cs" by (simp add: order)
  ultimately have "main_at k ps'"
    unfolding main_at_def main k by (auto simp: move_to_def simp del: append_assoc)
  moreover have "length ps' = 7" by (simp add: ps' len)
  ultimately show ?thesis
    using ok others main unfolding group_ok_def k by (auto simp: move_to_def ended_def)
qed

lemma proceed_ok:
  assumes ok: "group_ok k ps" and i: "i < length ps" and step: "proceed True i ps = Some ps'"
  shows "\<exists>k'. group_ok k' ps'"
proof (cases i)
  case (Suc j)
  with ok i step child_waits [of k ps j] show ?thesis by (simp add: group_ok_def)
next
  case 0
  show ?thesis
  proof (cases "pr_at (ps ! 0)")
    case (In_body c cs)
    with ok show ?thesis by (simp add: group_ok_def main_at_def)
  next
    case Ended
    with step 0 show ?thesis by (simp add: proceed_def)
  next
    case (At_fork cs)
    show ?thesis
    proof (cases cs)
      case Nil
      with At_fork ok have k: "k = 6" by (auto simp: group_ok_def main_at_def length_children)
      have ps': "ps' = ps[0 := move_to (At_kill kill_order) (ps ! 0)]"
        using step 0 At_fork Nil by (auto simp: proceed_def Let_def split: if_splits)
      then have "group_ok 6 ps'"
        using ok i 0 by (auto simp: group_ok_def main_at_def k move_to_def)
      then show ?thesis ..
    qed (use fork_ok ok step At_fork 0 in blast)
  next
    case (At_kill cs)
    show ?thesis
    proof (cases cs)
      case Nil
      then have ps': "ps' = ps[0 := move_to Ended (ps ! 0)]"
        using step 0 At_kill by (simp add: proceed_def Let_def)
      have "\<forall>j<6. ended (ps ! Suc j)"
        using ok At_kill Nil kill_order_children by (auto simp: group_ok_def main_at_def)
      then have "group_ok k ps'"
        using ok i 0 At_kill by (auto simp: group_ok_def main_at_def move_to_def ps')
      then show ?thesis ..
    qed (use kill_ok ok step At_kill 0 in blast)
  qed
qed

lemma group_run_ok:
  assumes "group_ok k ps" and "group_run True es ps = Some ps'"
  shows "\<exists>k'. group_ok k' ps'"
  using assms
proof (induction True es ps arbitrary: k rule: group_run.induct)
  case (1 ps)
  then show ?case by auto
next
  case (2 e es ps)
  from "2.prems"(2) obtain ps1 where step: "group_event True e ps = Some ps1"
    and rest: "group_run True es ps1 = Some ps'" by (auto split: option.splits)
  have "\<exists>k'. group_ok k' ps1"
  proof (cases e)
    case (Proceed i)
    with step "2.prems"(1) proceed_ok show ?thesis by (auto split: if_splits)
  next
    case (Expire i)
    with step have "i < length ps" "expire True i ps = Some ps1" by (simp_all split: if_splits)
    from expire_ok [OF "2.prems"(1) this] show ?thesis ..
  qed
  with "2.hyps" [OF step _ rest] show ?case by blast
qed

section \<open>Properties\<close>

text \<open>
  C17: start_machine leaves nothing behind. When the file of the operating system can be opened, then
  after any steps of the processes there are at most the main process and one child for each of the six
  forks, in the order of the code; while the main process waits it has all six; and once it has ended,
  every process of the group has.
\<close>

theorem start_machine_leaves_nothing:
  assumes "group_run True es start_group = Some ps"
  shows "length ps \<le> 7 \<and> (\<forall>j<length ps - 1. pr_parent (ps ! Suc j) = 1
      \<and> (ended (ps ! Suc j) \<or> pr_at (ps ! Suc j) = In_body (children ! j) (drop (Suc j) children)))
    \<and> (pr_at (ps ! 0) = At_fork [] \<longrightarrow> length ps = 7)
    \<and> (ended (ps ! 0) \<longrightarrow> (\<forall>p\<in>set ps. ended p))"
proof -
  obtain k where ok: "group_ok k ps" using group_run_ok [OF start_group_ok assms] by blast
  have "\<forall>p\<in>set ps. ended p" if "ended (ps ! 0)"
  proof -
    have "\<forall>j<7. ended (ps ! j)"
    proof (intro allI impI)
      fix j :: nat
      assume "j < 7"
      with ok that show "ended (ps ! j)" by (cases j) (auto simp: group_ok_def main_at_def ended_def)
    qed
    moreover have "length ps = 7" using ok that by (auto simp: group_ok_def main_at_def ended_def)
    ultimately show ?thesis by (auto simp: in_set_conv_nth)
  qed
  with ok show ?thesis by (auto simp: group_ok_def main_at_def length_children)
qed

definition failed_start_forks :: "process_event list" where
  "failed_start_forks = Proceed 0 # Proceed 1 # replicate 5 (Proceed 1) @ replicate 5 (Proceed 0)"

definition orphans :: "process_group \<Rightarrow> machine_unit set" where
  "orphans ps = {u. \<exists>p\<in>set ps. (\<exists>cs. pr_at p = In_body (Unit u) cs) \<and> ended (ps ! (pr_parent p - 1))}"

text \<open>
  C37: when the file of the operating system cannot be opened, the child of the first fork goes on with
  the code of its parent, and how the machine ends depends on the scheduler. There is a run after which
  both processes in start_machine have ended and the input module, the processing unit, the I/O switch and
  the matching unit that the child has forked are left without a parent, and no step of start_machine is
  left that could end them; and there is a run in which the child comes first and its kill of process
  number 0 ends the whole group, the waiting main process and its children included.
\<close>

theorem failed_start_orphans:
  "(\<exists>es ps. group_run False es start_group = Some ps \<and> ended (ps ! 0) \<and> ended (ps ! 1)
      \<and> orphans ps = {Input_module, Processing_unit, Io_switch, Matching_unit}
      \<and> list_all (\<lambda>i. proceed False i ps = None) [0..<length ps])
   \<and> (\<exists>es ps. group_run False es start_group = Some ps \<and> length ps = 12 \<and> list_all ended ps)"
proof -
  note eval = start_group_def children_def kill_order_def proceed_def expire_def body_returns_def
    failed_start_forks_def move_to_def ended_def numeral_eq_Suc
  have leak: "\<exists>ps. group_run False (failed_start_forks @ Expire 6 # Expire 11 # replicate 8 (Proceed 0))
      start_group = Some ps \<and> ended (ps ! 0) \<and> ended (ps ! 1)
      \<and> orphans ps = {Input_module, Processing_unit, Io_switch, Matching_unit}
      \<and> (\<forall>i<length ps. proceed False i ps = None)"
    by (simp add: eval) (auto simp: orphans_def ended_def proceed_def body_returns_def less_Suc_eq)
  have group: "\<exists>ps. group_run False (failed_start_forks @ Expire 6 # replicate 3 (Proceed 1)) start_group
      = Some ps \<and> length ps = 12 \<and> (\<forall>p\<in>set ps. ended p)"
    by (simp add: eval)
  from leak group show ?thesis
    unfolding list_all_iff set_upt by (metis atLeastLessThan_iff)
qed

theorem start_machine_leaves_nothing_witness:
  "\<exists>ps. group_run True (replicate 6 (Proceed 0) @ Expire 6 # replicate 8 (Proceed 0)) start_group = Some ps
     \<and> (\<forall>p\<in>set ps. ended p)"
proof -
  have "\<exists>ps. group_run True (replicate 6 (Proceed 0) @ Expire 6 # replicate 8 (Proceed 0)) start_group = Some ps
     \<and> ended (ps ! 0)"
    by (simp add: start_group_def children_def kill_order_def proceed_def expire_def body_returns_def
        move_to_def ended_def numeral_eq_Suc)
  then show ?thesis using start_machine_leaves_nothing by blast
qed

end
