(* ===== verification/Machine_Histories.thy ===== *)
theory Machine_Histories
  imports Machine
begin

text \<open>
  What the theories of the single processes say of their loops, put together: in every state of the
  machine, what each process has sent is its loop run over all it has received, and each queue holds what
  the process before it has sent and the process behind it has not yet taken. So every theorem on a whole
  run of a process is one on the machine; the trap mode is the example.
\<close>

section \<open>Runs of the loops\<close>

lemma input_module_run_snoc:
  assumes "input_module_run px ps w = Some (ps', w1)" and "input_module_step px p w1 = Some (p', w2)"
  shows "input_module_run px (ps @ [p]) w = Some (ps' @ [p'], w2)"
  using assms(1)
  by (induction ps arbitrary: w ps') (auto simp: assms(2) split: option.splits)

lemma instruction_store_run_snoc:
  assumes "instruction_store_run xs cs = Ok (cs1, out)" and "instruction_store_step env pair cs1 = Ok (cs2, out2)"
  shows "instruction_store_run (xs @ [(env, pair)]) cs = Ok (cs2, out @ out2)"
  using assms(1)
proof (induction xs arbitrary: cs out)
  case (Cons x xs)
  then show ?case by (cases x) (auto simp: outcome_bind_Ok_iff)
qed (simp add: assms(2))

lemma processing_unit_run_snoc:
  assumes "processing_unit_run tf env ps st = Ok (st1, out)" and "processing_unit_step tf env p st1 = Ok (st2, out2)"
  shows "processing_unit_run tf env (ps @ [p]) st = Ok (st2, out @ out2)"
  using assms(1)
  by (induction ps arbitrary: st out) (auto simp: outcome_bind_Ok_iff assms(2))

lemma matching_unit_run_snoc:
  assumes "matching_unit_run junk toks t = Ok (t1, out)" and "matching_unit_step junk tok t1 = Ok (t2, out2)"
  shows "matching_unit_run junk (toks @ [tok]) t = Ok (t2, out @ out2)"
  using assms(1)
  by (induction toks arbitrary: t out) (auto simp: outcome_bind_Ok_iff assms(2))

lemma io_switch_run_snoc:
  assumes "io_switch_run toks = Ok (shown, out)" and "io_switch_step stack tok = Ok (shown2, out2)"
  shows "io_switch_run (toks @ [(stack, tok)]) = Ok (shown @ shown2, out @ out2)"
  using assms(1)
proof (induction toks arbitrary: shown out)
  case (Cons x toks)
  then show ?case by (cases x) (auto simp: outcome_bind_Ok_iff)
qed (simp add: assms(2))

section \<open>Histories\<close>

text \<open>What each process has taken from the queue before it, and the worlds in which the pairs were handled.\<close>

record 'w history =
  hs_worlds :: "'w list"
  hs_pairs :: "ready_token_pair_type list"
  hs_packets :: "execution_packet list"
  hs_answers :: "execution_packet list"
  hs_outputs :: "token_type list"
  hs_tokens :: "token_type list"

definition store_history :: "'w surroundings \<Rightarrow> 'w machine \<Rightarrow> 'w history \<Rightarrow> 'w machine \<Rightarrow> bool" where
  "store_history E m0 H m \<longleftrightarrow> length (hs_worlds H) = length (hs_pairs H)
     \<and> (\<exists>sent. instruction_store_run (zip (map (su_files E) (hs_worlds H)) (hs_pairs H)) (mc_store m0) = Ok (mc_store m, sent)
         \<and> mc_packets_to_add m0 @ sent = hs_packets H @ mc_preprocessed_executable_packet m @ mc_packets_to_add m)"

definition input_history :: "'w surroundings \<Rightarrow> 'w machine \<Rightarrow> 'w history \<Rightarrow> 'w machine \<Rightarrow> bool" where
  "input_history E m0 H m \<longleftrightarrow> (\<forall>p\<in>set (hs_packets H). \<not> names_queue (su_queue_fds E) p)
     \<and> input_module_run (su_posix E) (hs_packets H) (mc_world m0)
       = Some (hs_answers H @ mc_processed_executable_packet m @ mc_answers_to_add m, mc_world m)"

definition execution_history :: "'w surroundings \<Rightarrow> 'w history \<Rightarrow> 'w machine \<Rightarrow> bool" where
  "execution_history E H m \<longleftrightarrow> processing_unit_run (su_trap_flag E) (su_pu_env E) (hs_answers H) pu_init
     = Ok (mc_processing_unit m, hs_outputs H @ mc_execution_token_output m @ mc_outputs_to_add m)"

definition switch_history :: "'w surroundings \<Rightarrow> 'w history \<Rightarrow> 'w machine \<Rightarrow> bool" where
  "switch_history E H m \<longleftrightarrow> (\<exists>sent. io_switch_run (map (\<lambda>t. (su_stack E, token_bytes (su_pad E) t)) (hs_outputs H))
       = Ok (mc_stdout m, sent)
     \<and> map token_of_bytes sent = hs_tokens H @ mc_matching_unit_input m @ mc_tokens_to_add m)"

definition matching_history :: "'w surroundings \<Rightarrow> 'w machine \<Rightarrow> 'w history \<Rightarrow> 'w machine \<Rightarrow> bool" where
  "matching_history E m0 H m \<longleftrightarrow> matching_unit_run (su_junk_token E) (hs_tokens H) (mc_waiting_table m0)
     = Ok (mc_waiting_table m, hs_pairs H @ mc_ready_token_pair m @ mc_pairs_to_add m)"

definition machine_history :: "'w surroundings \<Rightarrow> 'w machine \<Rightarrow> 'w history \<Rightarrow> 'w machine \<Rightarrow> bool" where
  "machine_history E m0 H m \<longleftrightarrow> store_history E m0 H m \<and> input_history E m0 H m \<and> execution_history E H m
     \<and> switch_history E H m \<and> matching_history E m0 H m"

lemmas history_defs = machine_history_def store_history_def input_history_def execution_history_def
  switch_history_def matching_history_def

lemma instruction_store_history:
  assumes hist: "machine_history E m0 H m" and turn: "instruction_store_turn E m = Some (Ok m')"
  shows "\<exists>H'. machine_history E m0 H' m' \<and> length (hs_answers H') \<le> Suc (length (hs_answers H))"
proof -
  from instruction_store_process.moves [OF turn] obtain s p i q where
    m': "m' = m\<lparr>mc_store := s, mc_packets_to_add := p, mc_ready_token_pair := i, mc_preprocessed_executable_packet := q\<rparr>"
    and step: "(\<exists>x. mc_packets_to_add m = x # p \<and> q = mc_preprocessed_executable_packet m @ [x] \<and> s = mc_store m
        \<and> i = mc_ready_token_pair m)
      \<or> (\<exists>x. mc_packets_to_add m = [] \<and> mc_ready_token_pair m = x # i \<and> q = mc_preprocessed_executable_packet m
        \<and> instruction_store_step (su_files E (mc_world m)) x (mc_store m) = Ok (s, p))" by auto
  from step show ?thesis
  proof (elim disjE exE conjE)
    fix x
    assume "mc_packets_to_add m = x # p" "q = mc_preprocessed_executable_packet m @ [x]" "s = mc_store m"
      "i = mc_ready_token_pair m"
    with hist show ?thesis by (intro exI [of _ H]) (simp add: m' history_defs)
  next
    fix x
    assume x: "mc_packets_to_add m = []" "mc_ready_token_pair m = x # i" "q = mc_preprocessed_executable_packet m"
      and work: "instruction_store_step (su_files E (mc_world m)) x (mc_store m) = Ok (s, p)"
    let ?H = "H\<lparr>hs_pairs := hs_pairs H @ [x], hs_worlds := hs_worlds H @ [mc_world m]\<rparr>"
    from hist obtain sent where len: "length (hs_worlds H) = length (hs_pairs H)"
      and run: "instruction_store_run (zip (map (su_files E) (hs_worlds H)) (hs_pairs H)) (mc_store m0) = Ok (mc_store m, sent)"
      and sent: "mc_packets_to_add m0 @ sent = hs_packets H @ mc_preprocessed_executable_packet m"
      by (auto simp: history_defs x(1))
    have "store_history E m0 ?H m'"
      using instruction_store_run_snoc [OF run work] len sent x by (simp add: store_history_def m')
    with hist x show ?thesis by (intro exI [of _ ?H]) (simp add: m' history_defs)
  qed
qed

lemma input_module_history:
  assumes hist: "machine_history E m0 H m" and turn: "input_module_turn E m = Some (Ok m')"
  shows "\<exists>H'. machine_history E m0 H' m' \<and> length (hs_answers H') \<le> Suc (length (hs_answers H))"
proof -
  from input_module_process.moves [OF turn] obtain s p i q where
    m': "m' = m\<lparr>mc_world := s, mc_answers_to_add := p, mc_preprocessed_executable_packet := i, mc_processed_executable_packet := q\<rparr>"
    and step: "(\<exists>x. mc_answers_to_add m = x # p \<and> q = mc_processed_executable_packet m @ [x] \<and> s = mc_world m
        \<and> i = mc_preprocessed_executable_packet m)
      \<or> (\<exists>x y. mc_answers_to_add m = [] \<and> mc_preprocessed_executable_packet m = x # i \<and> q = mc_processed_executable_packet m
        \<and> \<not> names_queue (su_queue_fds E) x \<and> input_module_step (su_posix E) x (mc_world m) = Some (y, s) \<and> p = [y])"
    by (auto simp: input_module_work_Some)
  from step show ?thesis
  proof (elim disjE exE conjE)
    fix x
    assume "mc_answers_to_add m = x # p" "q = mc_processed_executable_packet m @ [x]" "s = mc_world m"
      "i = mc_preprocessed_executable_packet m"
    with hist show ?thesis by (intro exI [of _ H]) (simp add: m' history_defs)
  next
    fix x y
    assume x: "mc_answers_to_add m = []" "mc_preprocessed_executable_packet m = x # i" "q = mc_processed_executable_packet m"
      "p = [y]" "\<not> names_queue (su_queue_fds E) x" and work: "input_module_step (su_posix E) x (mc_world m) = Some (y, s)"
    let ?H = "H\<lparr>hs_packets := hs_packets H @ [x]\<rparr>"
    from hist have run: "input_module_run (su_posix E) (hs_packets H) (mc_world m0)
        = Some (hs_answers H @ mc_processed_executable_packet m, mc_world m)" by (simp add: history_defs x(1))
    have "\<forall>p\<in>set (hs_packets H). \<not> names_queue (su_queue_fds E) p" using hist by (simp add: history_defs)
    then have "input_history E m0 ?H m'"
      using input_module_run_snoc [OF run work] x by (simp add: input_history_def m')
    with hist x show ?thesis by (intro exI [of _ ?H]) (simp add: m' history_defs)
  qed
qed

lemma processing_unit_history:
  assumes hist: "machine_history E m0 H m" and turn: "processing_unit_turn E m = Some (Ok m')"
  shows "\<exists>H'. machine_history E m0 H' m' \<and> length (hs_answers H') \<le> Suc (length (hs_answers H))"
proof -
  from processing_unit_process.moves [OF turn] obtain s p i q where
    m': "m' = m\<lparr>mc_processing_unit := s, mc_outputs_to_add := p, mc_processed_executable_packet := i, mc_execution_token_output := q\<rparr>"
    and step: "(\<exists>x. mc_outputs_to_add m = x # p \<and> q = mc_execution_token_output m @ [x] \<and> s = mc_processing_unit m
        \<and> i = mc_processed_executable_packet m)
      \<or> (\<exists>x. mc_outputs_to_add m = [] \<and> mc_processed_executable_packet m = x # i \<and> q = mc_execution_token_output m
        \<and> processing_unit_step (su_trap_flag E) (su_pu_env E) x (mc_processing_unit m) = Ok (s, p))" by auto
  from step show ?thesis
  proof (elim disjE exE conjE)
    fix x
    assume "mc_outputs_to_add m = x # p" "q = mc_execution_token_output m @ [x]" "s = mc_processing_unit m"
      "i = mc_processed_executable_packet m"
    with hist show ?thesis by (intro exI [of _ H]) (simp add: m' history_defs)
  next
    fix x
    assume x: "mc_outputs_to_add m = []" "mc_processed_executable_packet m = x # i" "q = mc_execution_token_output m"
      and work: "processing_unit_step (su_trap_flag E) (su_pu_env E) x (mc_processing_unit m) = Ok (s, p)"
    let ?H = "H\<lparr>hs_answers := hs_answers H @ [x]\<rparr>"
    from hist have run: "processing_unit_run (su_trap_flag E) (su_pu_env E) (hs_answers H) pu_init
        = Ok (mc_processing_unit m, hs_outputs H @ mc_execution_token_output m)" by (simp add: history_defs x(1))
    have "execution_history E ?H m'"
      using processing_unit_run_snoc [OF run work] x by (simp add: execution_history_def m')
    with hist x show ?thesis by (intro exI [of _ ?H]) (simp add: m' history_defs)
  qed
qed

lemma io_switch_history:
  assumes hist: "machine_history E m0 H m" and turn: "io_switch_turn E m = Some (Ok m')"
  shows "\<exists>H'. machine_history E m0 H' m' \<and> length (hs_answers H') \<le> Suc (length (hs_answers H))"
proof -
  from io_switch_process.moves [OF turn] obtain s p i q where
    m': "m' = m\<lparr>mc_stdout := s, mc_tokens_to_add := p, mc_execution_token_output := i, mc_matching_unit_input := q\<rparr>"
    and step: "(\<exists>x. mc_tokens_to_add m = x # p \<and> q = mc_matching_unit_input m @ [x] \<and> s = mc_stdout m
        \<and> i = mc_execution_token_output m)
      \<or> (\<exists>x shown out. mc_tokens_to_add m = [] \<and> mc_execution_token_output m = x # i \<and> q = mc_matching_unit_input m
        \<and> io_switch_step (su_stack E) (token_bytes (su_pad E) x) = Ok (shown, out)
        \<and> s = mc_stdout m @ shown \<and> p = map token_of_bytes out)" by (auto simp: outcome_bind_Ok_iff)
  from step show ?thesis
  proof (elim disjE exE conjE)
    fix x
    assume "mc_tokens_to_add m = x # p" "q = mc_matching_unit_input m @ [x]" "s = mc_stdout m"
      "i = mc_execution_token_output m"
    with hist show ?thesis by (intro exI [of _ H]) (simp add: m' history_defs)
  next
    fix x shown out
    assume x: "mc_tokens_to_add m = []" "mc_execution_token_output m = x # i" "q = mc_matching_unit_input m"
      "s = mc_stdout m @ shown" "p = map token_of_bytes out"
      and work: "io_switch_step (su_stack E) (token_bytes (su_pad E) x) = Ok (shown, out)"
    let ?H = "H\<lparr>hs_outputs := hs_outputs H @ [x]\<rparr>"
    from hist obtain sent where
      run: "io_switch_run (map (\<lambda>t. (su_stack E, token_bytes (su_pad E) t)) (hs_outputs H)) = Ok (mc_stdout m, sent)"
      and sent: "map token_of_bytes sent = hs_tokens H @ mc_matching_unit_input m" by (auto simp: history_defs x(1))
    have "switch_history E ?H m'"
      using io_switch_run_snoc [OF run work] sent x by (simp add: switch_history_def m')
    with hist x show ?thesis by (intro exI [of _ ?H]) (simp add: m' history_defs)
  qed
qed

lemma matching_unit_history:
  assumes hist: "machine_history E m0 H m" and turn: "matching_unit_turn E m = Some (Ok m')"
  shows "\<exists>H'. machine_history E m0 H' m' \<and> length (hs_answers H') \<le> Suc (length (hs_answers H))"
proof -
  from matching_unit_process.moves [OF turn] obtain s p i q where
    m': "m' = m\<lparr>mc_waiting_table := s, mc_pairs_to_add := p, mc_matching_unit_input := i, mc_ready_token_pair := q\<rparr>"
    and step: "(\<exists>x. mc_pairs_to_add m = x # p \<and> q = mc_ready_token_pair m @ [x] \<and> s = mc_waiting_table m
        \<and> i = mc_matching_unit_input m)
      \<or> (\<exists>x. mc_pairs_to_add m = [] \<and> mc_matching_unit_input m = x # i \<and> q = mc_ready_token_pair m
        \<and> matching_unit_step (su_junk_token E) x (mc_waiting_table m) = Ok (s, p))" by auto
  from step show ?thesis
  proof (elim disjE exE conjE)
    fix x
    assume "mc_pairs_to_add m = x # p" "q = mc_ready_token_pair m @ [x]" "s = mc_waiting_table m"
      "i = mc_matching_unit_input m"
    with hist show ?thesis by (intro exI [of _ H]) (simp add: m' history_defs)
  next
    fix x
    assume x: "mc_pairs_to_add m = []" "mc_matching_unit_input m = x # i" "q = mc_ready_token_pair m"
      and work: "matching_unit_step (su_junk_token E) x (mc_waiting_table m) = Ok (s, p)"
    let ?H = "H\<lparr>hs_tokens := hs_tokens H @ [x]\<rparr>"
    from hist have run: "matching_unit_run (su_junk_token E) (hs_tokens H) (mc_waiting_table m0)
        = Ok (mc_waiting_table m, hs_pairs H @ mc_ready_token_pair m)" by (simp add: history_defs x(1))
    have "matching_history E m0 ?H m'"
      using matching_unit_run_snoc [OF run work] x by (simp add: matching_history_def m')
    with hist x show ?thesis by (intro exI [of _ ?H]) (simp add: m' history_defs)
  qed
qed

lemma turn_history:
  assumes "machine_history E m0 H m" and "unit_turn E u m = Some (Ok m')"
  shows "\<exists>H'. machine_history E m0 H' m' \<and> length (hs_answers H') \<le> Suc (length (hs_answers H))"
  using assms instruction_store_history input_module_history processing_unit_history io_switch_history
    matching_unit_history by (cases u) auto

lemma start_history:
  assumes "machine_start E junk os_filename w = Ok (Some m0)"
  shows "machine_history E m0 \<lparr>hs_worlds = [], hs_pairs = [], hs_packets = [], hs_answers = [], hs_outputs = [],
    hs_tokens = []\<rparr> m0"
  using assms by (auto simp: machine_start_def outcome_bind_Ok_iff history_defs)

lemma turns_history:
  assumes start: "machine_start E junk os_filename w = Ok (Some m0)" and run: "(machine_turn E ^^ n) m0 m"
  shows "\<exists>H. machine_history E m0 H m \<and> length (hs_answers H) \<le> n"
  using run
proof (induction n arbitrary: m)
  case 0
  with start_history [OF start] show ?case by auto
next
  case (Suc n)
  from Suc.prems obtain m1 where "(machine_turn E ^^ n) m0 m1" and turn: "machine_turn E m1 m" by auto
  with Suc.IH obtain H where H: "machine_history E m0 H m1" "length (hs_answers H) \<le> n" by blast
  from turn obtain u where "unit_turn E u m1 = Some (Ok m)" by (auto simp: machine_turn_def)
  from turn_history [OF H(1) this] H(2) show ?case by (meson Suc_le_mono le_trans)
qed

section \<open>Properties\<close>

text \<open>
  C4: in every state the machine can reach while nobody else changes the world and no call is made with
  the descriptor of a queue, there are, for each process, the elements it has taken so far, such that its
  loop run over them from the start gives its state of now and everything it has sent, and that is, in
  order, what the process behind it has taken, what is in the queue between them, and what it has yet to
  add. So the five loops, each verified alone, make up the machine: the text printed is that of the I/O
  switch run over the outputs, and so on. The packets the input module has taken name no queue.
\<close>

theorem machine_is_its_loops:
  assumes "machine_start E junk os_filename w = Ok (Some m0)" and "(machine_turn E ^^ n) m0 m"
  shows "\<exists>H. store_history E m0 H m \<and> input_history E m0 H m \<and> execution_history E H m
    \<and> switch_history E H m \<and> matching_history E m0 H m \<and> length (hs_answers H) \<le> n"
  using turns_history [OF assms] by (auto simp: machine_history_def)

text \<open>
  C19: trap mode in the running machine. Within \<open>2 ^ 27\<close> turns of a machine with trap mode, whatever the
  scheduler, the files and the answers of the system, and as long as no call is made with the descriptor of
  a queue: the tokens that have left the processing unit - taken by the I/O switch, in the queue, or still
  to be added - are those of one event for each packet it has taken, in order; results leave directly only
  from packets whose instruction address is below 100 modulo \<open>2 ^ 16\<close>, all others are kept, with three
  tokens to the trap code for each, and a kept token leaves once at most, as the answer to an RTD. (A call
  with the descriptor of a queue goes around trap mode: queue_descriptors_forge.)
\<close>

theorem machine_trap_confines:
  assumes "machine_start E junk os_filename w = Ok (Some m0)" and "(machine_turn E ^^ n) m0 m"
    and "su_trap_flag E" and "n \<le> 2 ^ 27"
  shows "\<exists>H es. machine_history E m0 H m
    \<and> hs_outputs H @ mc_execution_token_output m @ mc_outputs_to_add m = concat (map event_tokens es)
    \<and> list_all2 (event_of_packet (su_pu_env E)) (hs_answers H) es
    \<and> answered_tokens es + map_contents (kh_lookup (pu_hash_table (mc_processing_unit m))) \<subseteq># intercepted_tokens es"
proof -
  from turns_history [OF assms(1,2)] obtain H where H: "machine_history E m0 H m" "length (hs_answers H) \<le> n" by blast
  then have "processing_unit_run True (su_pu_env E) (hs_answers H) pu_init
     = Ok (mc_processing_unit m, hs_outputs H @ mc_execution_token_output m @ mc_outputs_to_add m)"
    using assms(3) by (simp add: machine_history_def execution_history_def)
  from trap_mode_confines [OF _ this] H assms(4) show ?thesis by (metis le_trans)
qed

section \<open>A run of the machine\<close>

fun turns :: "'w surroundings \<Rightarrow> machine_unit list \<Rightarrow> 'w machine \<Rightarrow> 'w machine option" where
  "turns E [] m = Some m"
| "turns E (u # us) m = (case unit_turn E u m of Some (Ok m') \<Rightarrow> turns E us m' | _ \<Rightarrow> None)"

lemma turns_run: "turns E us m = Some m' \<Longrightarrow> (machine_turn E ^^ length us) m m'"
proof (induction us arbitrary: m)
  case (Cons u us)
  then obtain m1 where "unit_turn E u m = Some (Ok m1)" "turns E us m1 = Some m'"
    by (auto split: option.splits outcome.splits)
  with Cons.IH show ?case unfolding list.size(4) add_Suc_right add_0_right
    by (intro relpowp_Suc_I2) (auto simp: machine_turn_def)
qed simp

definition trap_surroundings :: "(byte list \<times> byte list) surroundings" where
  "trap_surroundings = small_surroundings\<lparr>su_trap_flag := True\<rparr>"

lemma trap_start: "machine_start trap_surroundings [] [111, 115] ([], []) = Ok (Some small_machine)"
  by (simp add: machine_start_def trap_surroundings_def small_surroundings_def os_start small_machine_def)

text \<open>The packet of the operating system goes through the input module and is executed.\<close>

lemma trap_run:
  "\<exists>m. (machine_turn trap_surroundings ^^ 4) small_machine m \<and> length (mc_outputs_to_add m) = 1"
proof -
  let ?us = "[Instruction_store, Input_module, Input_module, Processing_unit]"
  have "case turns trap_surroundings ?us small_machine of None \<Rightarrow> False | Some m \<Rightarrow> length (mc_outputs_to_add m) = 1"
    by code_simp
  then obtain m where m: "turns trap_surroundings ?us small_machine = Some m" "length (mc_outputs_to_add m) = 1"
    by (cases "turns trap_surroundings ?us small_machine") (simp_all only: option.case)
  have "length ?us = 4" by simp
  with turns_run [OF m(1)] m(2) show ?thesis by metis
qed

theorem machine_is_its_loops_witness:
  "\<exists>m H. (machine_turn trap_surroundings ^^ 4) small_machine m \<and> length (mc_outputs_to_add m) = 1
     \<and> store_history trap_surroundings small_machine H m \<and> input_history trap_surroundings small_machine H m
     \<and> execution_history trap_surroundings H m \<and> hs_answers H \<noteq> []"
proof -
  from trap_run obtain m where m: "(machine_turn trap_surroundings ^^ 4) small_machine m"
    "length (mc_outputs_to_add m) = 1" by blast
  from machine_is_its_loops [OF trap_start m(1)] obtain H where H: "store_history trap_surroundings small_machine H m"
    "input_history trap_surroundings small_machine H m" "execution_history trap_surroundings H m" by blast
  have "hs_answers H \<noteq> []"
  proof
    assume "hs_answers H = []"
    with H(3) have "mc_outputs_to_add m = []" by (simp add: execution_history_def)
    with m(2) show False by simp
  qed
  with m H show ?thesis by blast
qed

theorem machine_trap_confines_witness:
  "\<exists>m H es. (machine_turn trap_surroundings ^^ 4) small_machine m \<and> length (mc_outputs_to_add m) = 1
     \<and> machine_history trap_surroundings small_machine H m
     \<and> hs_outputs H @ mc_execution_token_output m @ mc_outputs_to_add m = concat (map event_tokens es)
     \<and> list_all2 (event_of_packet (su_pu_env trap_surroundings)) (hs_answers H) es"
proof -
  from trap_run obtain m where m: "(machine_turn trap_surroundings ^^ 4) small_machine m"
    "length (mc_outputs_to_add m) = 1" by blast
  have trap: "su_trap_flag trap_surroundings" by (simp add: trap_surroundings_def)
  have few: "(4 :: nat) \<le> 2 ^ 27" by simp
  from machine_trap_confines [OF trap_start m(1) trap few] m show ?thesis by blast
qed

end
