(* ===== verification/Trap_Table_Memory.thy ===== *)
theory Trap_Table_Memory
  imports Trap_Table_Laws
begin

text \<open>
  khash.h when memory runs out: the error returns of kh_resize and kh_put, and the store behind kh_put in
  single_step_token, which does not look at the return code.
\<close>

section \<open>Growing\<close>

text \<open>
  What the calls of one kh_resize give: kmalloc for the flags, krealloc for the keys and for the values.
  The krealloc calls that shrink an array, whose results are not checked, succeed; kh_put never shrinks.
\<close>

record allocations =
  al_flags :: bool
  al_keys :: bool
  al_vals :: bool

text \<open>The number of buckets kh_resize makes of the number asked for, and whether that is too small.\<close>

definition new_buckets :: "nat \<Rightarrow> nat" where
  "new_buckets requested = (let rounded = unat (kroundup32 (of_nat requested)) in if rounded < 4 then 4 else rounded)"

definition kh_resize_checked :: "allocations \<Rightarrow> u64 \<Rightarrow> 'v \<Rightarrow> nat \<Rightarrow> 'v kh_table \<Rightarrow> ('v kh_table \<times> int) option" where
  "kh_resize_checked al junk_key junk_val requested h =
     (let new_n = new_buckets requested
      in if hash_upper new_n \<le> kh_size h then Some (h, 0)
         else if \<not> al_flags al then Some (h, - 1)
         else if kh_n_buckets h < new_n \<and> \<not> al_keys al then Some (h, - 1)
         else if kh_n_buckets h < new_n \<and> \<not> al_vals al
         then Some (h\<lparr>kh_keys := realloc_list junk_key new_n (kh_keys h)\<rparr>, - 1)
         else map_option (\<lambda>h'. (h', 0)) (kh_resize junk_key junk_val requested h))"

definition kh_put_grow_checked :: "allocations \<Rightarrow> u64 \<Rightarrow> 'v \<Rightarrow> 'v kh_table \<Rightarrow> ('v kh_table \<times> int) option" where
  "kh_put_grow_checked al junk_key junk_val h =
     (if kh_upper_bound h \<le> kh_n_occupied h
      then if 2 * kh_size h < kh_n_buckets h
           then kh_resize_checked al junk_key junk_val (kh_n_buckets h - 1) h
           else kh_resize_checked al junk_key junk_val (kh_n_buckets h + 1) h
      else Some (h, 0))"

text \<open>kh_put behind the growing, and the whole, with n_buckets and -1 as its error.\<close>

definition kh_put_found :: "u64 \<Rightarrow> 'v kh_table \<Rightarrow> ('v kh_table \<times> nat \<times> int) option" where
  "kh_put_found key h = (case kh_put_bucket h key of None \<Rightarrow> None
     | Some x \<Rightarrow>
         if ac_isempty (kh_flags h) x
         then Some (h\<lparr>kh_keys := (kh_keys h)[x := key],
                 kh_flags := ac_set_isboth_false x (kh_flags h),
                 kh_size := Suc (kh_size h), kh_n_occupied := Suc (kh_n_occupied h)\<rparr>, x, 1)
         else if ac_isdel (kh_flags h) x
         then Some (h\<lparr>kh_keys := (kh_keys h)[x := key],
                 kh_flags := ac_set_isboth_false x (kh_flags h),
                 kh_size := Suc (kh_size h)\<rparr>, x, 2)
         else Some (h, x, 0))"

definition kh_put_checked :: "allocations \<Rightarrow> u64 \<Rightarrow> 'v \<Rightarrow> u64 \<Rightarrow> 'v kh_table \<Rightarrow> ('v kh_table \<times> nat \<times> int) option" where
  "kh_put_checked al junk_key junk_val key h0 =
     (case kh_put_grow_checked al junk_key junk_val h0 of None \<Rightarrow> None
      | Some (h, r) \<Rightarrow> if r < 0 then Some (h, kh_n_buckets h, - 1) else kh_put_found key h)"

text \<open>The last lines of single_step_token: kh_value of the bucket, whatever kh_put has returned.\<close>

definition hold_token :: "allocations \<Rightarrow> u64 \<Rightarrow> 'v \<Rightarrow> u64 \<Rightarrow> 'v \<Rightarrow> 'v kh_table \<Rightarrow> 'v kh_table outcome option" where
  "hold_token al junk_key junk_val key token h =
     (case kh_put_checked al junk_key junk_val key h of None \<Rightarrow> None
      | Some (h', k, ret) \<Rightarrow> Some (if k < length (kh_vals h') then Ok (kh_set_value k token h') else Fault))"

section \<open>With and without memory\<close>

definition plenty :: allocations where
  "plenty = \<lparr>al_flags = True, al_keys = True, al_vals = True\<rparr>"

text \<open>The table must be rehashed, and a call that this needs fails.\<close>

definition growth_fails :: "allocations \<Rightarrow> 'v kh_table \<Rightarrow> bool" where
  "growth_fails al h \<longleftrightarrow> kh_upper_bound h \<le> kh_n_occupied h
     \<and> (\<not> al_flags al \<or> kh_n_buckets h \<le> 2 * kh_size h \<and> (\<not> al_keys al \<or> \<not> al_vals al))"

lemma kh_put_split:
  "map_option (\<lambda>(h', x, r). (h', x, int r)) (kh_put junk_key junk_val key h) =
     (case kh_put_grow junk_key junk_val h of None \<Rightarrow> None | Some h1 \<Rightarrow> kh_put_found key h1)"
  by (simp add: kh_put_def kh_put_found_def split: option.split)

lemma kh_put_inside:
  assumes "kh_inv h" and "table_room h" and "kh_put junk_key junk_val key h = Some (h', x, r)"
  shows "x < length (kh_vals h')"
proof -
  from kh_put_grow_works [OF assms(1) assms(2) [unfolded table_room_def], of junk_key junk_val] obtain h1 m where
    grow: "kh_put_grow junk_key junk_val h = Some h1" and built: "kh_built m h1" by blast
  from kh_put_bucket_cases [OF built, of key] obtain y where y: "kh_put_bucket h1 key = Some y" "y < 2 ^ m" by blast
  with grow assms(3) have "x = y" "kh_vals h' = kh_vals h1"
    by (auto simp: kh_put_def split: if_splits)
  with y built show ?thesis by (simp add: kh_built_def)
qed

lemma requested_buckets:
  assumes "kh_inv h" and "table_room h" and "kh_upper_bound h \<le> kh_n_occupied h"
  shows "if 2 * kh_size h < kh_n_buckets h
     then new_buckets (kh_n_buckets h - 1) = kh_n_buckets h \<and> kh_size h < hash_upper (kh_n_buckets h)
     else kh_n_buckets h < new_buckets (kh_n_buckets h + 1) \<and> kh_size h < hash_upper (new_buckets (kh_n_buckets h + 1))"
proof (cases "h = kh_init")
  case True
  then show ?thesis by (simp add: kh_init_def new_buckets_def kroundup32_1 hash_upper_def)
next
  case False
  with assms(1) obtain m where built: "kh_built m h" by (auto simp: kh_inv_def)
  then have m: "2 \<le> m" and n: "kh_n_buckets h = 2 ^ m" by (simp_all add: kh_built_def)
  have "m < 31" using assms(2) power_strict_increasing_iff [of "2 :: nat" m 31] unfolding table_room_def n by simp
  have "card (live h) \<le> card (occupied h)" by (intro card_mono live_occupied finite_occupied)
  then have size: "kh_size h < 2 ^ m" using built hash_upper_less [OF m] by (simp add: kh_built_def)
  have four: "(4 :: nat) \<le> 2 ^ m" using m power_increasing [of 2 m "2 :: nat"] by simp
  note round_same [OF m less_imp_le [OF \<open>m < 31\<close>], folded new_buckets_def]
    and round_next [OF m \<open>m < 31\<close>, folded new_buckets_def]
  then show ?thesis
    using hash_upper_half [of "kh_size h" "2 ^ m"] hash_upper_double [of "kh_size h" "2 ^ m"] size four
    by (simp add: n)
qed

lemma grow_checked:
  assumes "kh_inv h" and "table_room h"
  shows "if growth_fails al h
     then \<exists>h'. kh_put_grow_checked al junk_key junk_val h = Some (h', - 1) \<and> kh_n_buckets h' = kh_n_buckets h
       \<and> kh_vals h' = kh_vals h \<and> kh_lookup h' = kh_lookup h
     else kh_put_grow_checked al junk_key junk_val h = map_option (\<lambda>h'. (h', 0)) (kh_put_grow junk_key junk_val h)"
proof (cases "kh_upper_bound h \<le> kh_n_occupied h")
  case False
  then show ?thesis by (simp add: growth_fails_def kh_put_grow_checked_def kh_put_grow_def)
next
  case True
  note shape = kh_inv_shape [OF assms(1)]
  have lookup: "kh_lookup (h\<lparr>kh_keys := realloc_list junk_key n (kh_keys h)\<rparr>) = kh_lookup h"
    if "kh_n_buckets h < n" for n
  proof -
    have "realloc_list junk_key n (kh_keys h) ! i = kh_keys h ! i" if "i < kh_n_buckets h" for i
      using realloc_grow(2) [of "kh_keys h" n i] \<open>kh_n_buckets h < n\<close> that shape(1) by simp
    then have "find (\<lambda>i. \<not> ac_iseither (kh_flags h) i \<and> realloc_list junk_key n (kh_keys h) ! i = key) [0..<kh_n_buckets h]
      = find (\<lambda>i. \<not> ac_iseither (kh_flags h) i \<and> kh_keys h ! i = key) [0..<kh_n_buckets h]" for key
      by (intro find_cong) simp_all
    then show ?thesis by (simp add: kh_lookup_def fun_eq_iff)
  qed
  show ?thesis
  proof (cases "2 * kh_size h < kh_n_buckets h")
    case half: True
    from requested_buckets [OF assms True] half
    have "new_buckets (kh_n_buckets h - 1) = kh_n_buckets h" "kh_size h < hash_upper (kh_n_buckets h)" by simp_all
    then show ?thesis
      using True half by (simp add: kh_put_grow_checked_def kh_put_grow_def kh_resize_checked_def growth_fails_def)
  next
    case full: False
    from requested_buckets [OF assms True] full
    have "kh_n_buckets h < new_buckets (kh_n_buckets h + 1)"
      "kh_size h < hash_upper (new_buckets (kh_n_buckets h + 1))" by simp_all
    then show ?thesis
      using True full lookup
      by (auto simp: kh_put_grow_checked_def kh_put_grow_def kh_resize_checked_def growth_fails_def Let_def)
  qed
qed

text \<open>
  C38: when a result is held back and the hash table has to grow or to be cleaned up first, for which
  memory is not to be had, kh_put says so, with -1, and leaves the entries as they are; the token is then
  stored behind the last of the values. In every other case the token is stored as if memory were
  never short: kh_put then is the kh_put of the other theories.
\<close>

theorem hold_token_faults_iff:
  assumes "kh_inv h" and "table_room h"
  shows "if growth_fails al h
     then (\<exists>h'. kh_put_checked al junk_key junk_val key h = Some (h', kh_n_buckets h, - 1) \<and> kh_lookup h' = kh_lookup h)
       \<and> hold_token al junk_key junk_val key token h = Some Fault
     else kh_put_checked al junk_key junk_val key h
         = map_option (\<lambda>(h', x, r). (h', x, int r)) (kh_put junk_key junk_val key h)
       \<and> hold_token al junk_key junk_val key token h = Some (Ok (table_put junk_key junk_val key token h))"
proof (cases "growth_fails al h")
  case True
  with grow_checked [OF assms, of al junk_key junk_val] obtain h' where
    h': "kh_put_grow_checked al junk_key junk_val h = Some (h', - 1)" "kh_n_buckets h' = kh_n_buckets h"
      "kh_vals h' = kh_vals h" "kh_lookup h' = kh_lookup h" by auto
  then have "kh_put_checked al junk_key junk_val key h = Some (h', kh_n_buckets h, - 1)"
    by (simp add: kh_put_checked_def)
  with True h' kh_inv_shape(2) [OF assms(1)] show ?thesis by (simp add: hold_token_def)
next
  case False
  with grow_checked [OF assms, of al junk_key junk_val]
  have "kh_put_grow_checked al junk_key junk_val h = map_option (\<lambda>h'. (h', 0)) (kh_put_grow junk_key junk_val h)"
    by simp
  then have put: "kh_put_checked al junk_key junk_val key h
      = map_option (\<lambda>(h', x, r). (h', x, int r)) (kh_put junk_key junk_val key h)"
    by (simp add: kh_put_checked_def kh_put_split split: option.split)
  from kh_put_works [OF assms(1) assms(2) [unfolded table_room_def], of junk_key junk_val key]
  obtain h' x r m where works: "kh_put junk_key junk_val key h = Some (h', x, r)"
    and built: "kh_built m (kh_set_value x token h')"
    and stored: "kh_lookup (kh_set_value x token h') = (kh_lookup h)(key \<mapsto> token)" by blast
  have "x < length (kh_vals h')" by (rule kh_put_inside [OF assms works])
  with put works False show ?thesis by (simp add: hold_token_def table_put_def)
qed

section \<open>Giving the memory back\<close>

text \<open>
  kh_destroy: the blocks handed to kfree, in order; a NULL array is none. The program keeps its table until
  the process ends.
\<close>

datatype table_block = Keys_block | Flags_block | Vals_block | Header_block

definition kh_destroy :: "'v kh_table option \<Rightarrow> table_block list" where
  "kh_destroy h = (case h of None \<Rightarrow> []
     | Some t \<Rightarrow> (if kh_keys t = [] then [] else [Keys_block]) @ (if kh_flags t = [] then [] else [Flags_block])
         @ (if kh_vals t = [] then [] else [Vals_block]) @ [Header_block])"

lemma kh_destroy_frees:
  assumes "kh_inv h"
  shows "kh_destroy (Some h) = (if kh_n_buckets h = 0 then [Header_block]
    else [Keys_block, Flags_block, Vals_block, Header_block])"
proof (cases "h = kh_init")
  case True
  then show ?thesis by (simp add: kh_destroy_def kh_init_def)
next
  case False
  with assms obtain m where "kh_built m h" by (auto simp: kh_inv_def)
  then show ?thesis
    by (auto simp: kh_destroy_def kh_built_def ac_fsize_positive simp flip: length_0_conv)
qed

text \<open>The first store into a fresh table with no memory for its values.\<close>

theorem hold_token_faults_iff_witness:
  "hold_token \<lparr>al_flags = True, al_keys = True, al_vals = False\<rparr> 0 0 5 (7 :: nat) kh_init = Some Fault
   \<and> hold_token plenty 0 0 5 (7 :: nat) kh_init = Some (Ok (table_put 0 0 5 7 kh_init))"
proof -
  let ?short = "\<lparr>al_flags = True, al_keys = True, al_vals = False\<rparr>"
  have ok: "kh_inv (kh_init :: nat kh_table)" "table_room (kh_init :: nat kh_table)"
    by (simp_all add: table_room_def) (simp add: kh_init_def)
  have "growth_fails ?short (kh_init :: nat kh_table)" "\<not> growth_fails plenty (kh_init :: nat kh_table)"
    by (simp_all add: growth_fails_def plenty_def kh_init_def)
  with hold_token_faults_iff [OF ok, of ?short 0 0 5 7] hold_token_faults_iff [OF ok, of plenty 0 0 5 7]
  show ?thesis by simp
qed

end
