(* ===== verification/Assembler.thy ===== *)
theory Assembler
  imports Sephi_Loader "HOL-Library.Monad_Syntax"
begin

text \<open>
  assembler.py from the graph of nodes to the file: the optimisation, graph_to_instructions with its work
  list, and the writing of instructions and tables. A Python exception or failed assertion is None.
\<close>

section \<open>Opcodes\<close>

record asm_opcode =
  opc_opcode :: int
  opc_num_inputs :: nat
  opc_repr :: string

abbreviation Opcode :: "int \<Rightarrow> nat \<Rightarrow> string \<Rightarrow> asm_opcode" where
  "Opcode v n r \<equiv> \<lparr>opc_opcode = v, opc_num_inputs = n, opc_repr = r\<rparr>"

definition OPCODE_LIST :: "asm_opcode list" where
  "OPCODE_LIST =
    [Opcode (- 1) 1 ''OUTD'', Opcode (- 2) 1 ''OUTS'', Opcode 0 2 ''ADD'', Opcode 1 2 ''SUB'',
     Opcode 2 2 ''BRR'', Opcode 3 2 ''LT'', Opcode 4 2 ''EQ'', Opcode 5 1 ''DUP'', Opcode 6 1 ''NEG'',
     Opcode 7 2 ''MER'', Opcode 8 1 ''NTG'', Opcode 9 1 ''ITG'', Opcode 10 2 ''GT'', Opcode 11 2 ''SIL'',
     Opcode 12 2 ''CTG'', Opcode 13 2 ''RTD'', Opcode 14 1 ''ETG'', Opcode 15 2 ''MUL'',
     Opcode 16 2 ''XOR'', Opcode 17 2 ''AND'', Opcode 18 2 ''OR'', Opcode 19 2 ''SHL'',
     Opcode 20 2 ''SHR'', Opcode 21 2 ''NEQ'', Opcode 22 2 ''OPN'', Opcode 23 1 ''RED'',
     Opcode 24 2 ''WRT'', Opcode 25 1 ''CLS'', Opcode 26 2 ''GTE'', Opcode 27 2 ''LTE'',
     Opcode 28 1 ''HLT'', Opcode 29 2 ''LOD'', Opcode 30 1 ''LS'', Opcode 31 2 ''SDF'',
     Opcode 32 1 ''ULK'', Opcode 33 2 ''LSK'', Opcode 34 1 ''RND'']"

text \<open>The entries that the code looks up by name.\<close>

definition OUTD_OPCODE :: asm_opcode where "OUTD_OPCODE = OPCODE_LIST ! 0"
definition OUTS_OPCODE :: asm_opcode where "OUTS_OPCODE = OPCODE_LIST ! 1"
definition DUP_OPCODE :: asm_opcode where "DUP_OPCODE = OPCODE_LIST ! 7"
definition MER_OPCODE :: asm_opcode where "MER_OPCODE = OPCODE_LIST ! 9"

definition SPECIAL_OPCODES :: "asm_opcode list" where
  "SPECIAL_OPCODES = [OUTD_OPCODE, OUTS_OPCODE]"

section \<open>The graph\<close>

text \<open>
  An input is a literal or the name of a label. A Python node is one object however often it is referred
  to; here it is named by its id, by which nodes compare.
\<close>

datatype operand = Literal int | Label "byte list"

record node_destination =
  dst_node :: nat
  dst_input :: nat

record node =
  nd_opcode :: asm_opcode
  nd_id :: nat
  nd_input_1 :: "operand option"
  nd_input_2 :: "operand option"
  nd_destination_1 :: "node_destination option"
  nd_destination_2 :: "node_destination option"
  nd_optimizable :: bool

text \<open>
  The graph, with all node objects: those of its list of nodes and those only referred to. Dictionaries
  are lists of their entries in insertion order.
\<close>

record graph =
  gr_objects :: "node list"
  gr_nodes :: "nat list"
  gr_labels :: "(byte list \<times> nat) list"
  gr_external_references :: "(byte list \<times> nat list) list"
  gr_exports :: "byte list list"

definition find_node :: "graph \<Rightarrow> nat \<Rightarrow> node option" where
  "find_node g k = List.find (\<lambda>n. nd_id n = k) (gr_objects g)"

text \<open>The two destinations, by attribute name.\<close>

datatype dest_field = Destination_1 | Destination_2

fun destination_at :: "dest_field \<Rightarrow> node \<Rightarrow> node_destination option" where
  "destination_at Destination_1 n = nd_destination_1 n"
| "destination_at Destination_2 n = nd_destination_2 n"

fun redirect :: "dest_field \<Rightarrow> node_destination option \<Rightarrow> node \<Rightarrow> node" where
  "redirect Destination_1 d n = n\<lparr>nd_destination_1 := d\<rparr>"
| "redirect Destination_2 d n = n\<lparr>nd_destination_2 := d\<rparr>"

definition update_node :: "nat \<Rightarrow> (node \<Rightarrow> node) \<Rightarrow> graph \<Rightarrow> graph" where
  "update_node k f g = g\<lparr>gr_objects := map (\<lambda>n. if nd_id n = k then f n else n) (gr_objects g)\<rparr>"

section \<open>Optimisation\<close>

text \<open>parents[k]: a node that leads to k twice is there twice.\<close>

definition goes_to :: "dest_field \<Rightarrow> node \<Rightarrow> nat \<Rightarrow> bool" where
  "goes_to f n k \<longleftrightarrow> map_option dst_node (destination_at f n) = Some k"

fun parents_of :: "graph \<Rightarrow> nat list \<Rightarrow> nat \<Rightarrow> nat list option" where
  "parents_of g [] k = Some []"
| "parents_of g (j # js) k = do {
     n \<leftarrow> find_node g j;
     rest \<leftarrow> parents_of g js k;
     Some ((if goes_to Destination_1 n k then [j] else []) @ (if goes_to Destination_2 n k then [j] else [])
       @ rest) }"

text \<open>
  One round of the second loop; the parents are those of the graph before it. The attributes are read
  from the objects as they are now, also from objects that have been taken off the list of nodes.
\<close>

definition optimize_node :: "(nat \<Rightarrow> nat list option) \<Rightarrow> nat \<Rightarrow> graph \<Rightarrow> graph option" where
  "optimize_node parents k g = do {
     n \<leftarrow> find_node g k;
     ps \<leftarrow> parents k;
     if nd_opcode n = DUP_OPCODE \<and> length ps = 1 \<and> nd_destination_2 n = None \<and> nd_optimizable n
     then do {
       parent \<leftarrow> find_node g (ps ! 0);
       g' \<leftarrow> (if goes_to Destination_1 parent k
         then Some (update_node (ps ! 0) (redirect Destination_1 (nd_destination_1 n)) g)
         else if goes_to Destination_2 parent k
         then Some (update_node (ps ! 0) (redirect Destination_2 (nd_destination_1 n)) g)
         else None);
       Some (g'\<lparr>gr_nodes := remove1 k (gr_nodes g')\<rparr>) }
     else Some g }"

fun optimize_nodes :: "(nat \<Rightarrow> nat list option) \<Rightarrow> nat list \<Rightarrow> graph \<Rightarrow> graph option" where
  "optimize_nodes parents [] g = Some g"
| "optimize_nodes parents (k # ks) g = do { g' \<leftarrow> optimize_node parents k g; optimize_nodes parents ks g' }"

definition optimize_graph :: "graph \<Rightarrow> graph option" where
  "optimize_graph g = optimize_nodes (parents_of g (gr_nodes g)) (gr_nodes g) g"

section \<open>Tables and instructions\<close>

record DestinationToUpdate =
  up_instruction_num :: nat
  up_is_first_destination :: bool
  up_is_second_destination :: bool
  up_is_first_literal :: bool
  up_is_second_literal :: bool

definition combine_flags :: "DestinationToUpdate \<Rightarrow> byte" where
  "combine_flags u = (if up_is_first_destination u then 1 else 0)
     OR (if up_is_second_destination u then 2 else 0) OR (if up_is_first_literal u then 4 else 0)
     OR (if up_is_second_literal u then 8 else 0)"

record asm_instruction =
  ai_opcode :: asm_opcode
  ai_destination_1 :: "int option"
  ai_destination_2 :: "int option"
  ai_literal_1 :: "operand option"
  ai_literal_2 :: "operand option"

definition create_destination :: "int \<Rightarrow> nat \<Rightarrow> nat \<Rightarrow> int" where
  "create_destination addr input matching =
     take_bit 32 (push_bit 3 (push_bit 1 addr XOR int input) XOR int matching)"

text \<open>OUTPUTD_DESTINATION, OUTPUTS_DESTINATION and DEV_NULL_DESTINATION of the assembler.\<close>

definition asm_OUTPUTD :: int where "asm_OUTPUTD = create_destination (2 ^ 28 - 1) 0 0"
definition asm_OUTPUTS :: int where "asm_OUTPUTS = create_destination (2 ^ 28 - 2) 0 0"
definition asm_DEV_NULL :: int where "asm_DEV_NULL = create_destination (2 ^ 28 - 5) 0 0"

definition node_to_instruction :: "node \<Rightarrow> asm_instruction option" where
  "node_to_instruction n = (if nd_opcode n \<in> set SPECIAL_OPCODES then None
     else Some \<lparr>ai_opcode = nd_opcode n, ai_destination_1 = None, ai_destination_2 = None,
       ai_literal_1 = nd_input_1 n, ai_literal_2 = nd_input_2 n\<rparr>)"

text \<open>Whether a value counts as true in Python: neither None, 0 nor the empty string.\<close>

fun truthy :: "operand option \<Rightarrow> bool" where
  "truthy None = False"
| "truthy (Some (Literal v)) = (v \<noteq> 0)"
| "truthy (Some (Label s)) = (s \<noteq> [])"

text \<open>The matching function of a destination.\<close>

definition matching_of :: "node \<Rightarrow> nat option" where
  "matching_of n =
     (if opc_num_inputs (nd_opcode n) = 1 then Some 0
      else if opc_num_inputs (nd_opcode n) = 2
      then if truthy (nd_input_1 n) \<and> truthy (nd_input_2 n) then None
           else if nd_opcode n = MER_OPCODE then Some 2
           else if nd_input_1 n \<noteq> None then Some 0
           else Some 1
      else None)"

section \<open>From nodes to instructions\<close>

text \<open>The local variables of graph_to_instructions: to_return, the tables, node_to_idx and to_visit.\<close>

record asm_state =
  as_instructions :: "asm_instruction list"
  as_constants :: "DestinationToUpdate list"
  as_labels :: "DestinationToUpdate list"
  as_external_references :: "(DestinationToUpdate \<times> byte list) list"
  as_idx :: "nat \<Rightarrow> nat option"
  as_to_visit :: "nat list"

definition empty_asm :: asm_state where
  "empty_asm = \<lparr>as_instructions = [], as_constants = [], as_labels = [], as_external_references = [],
     as_idx = (\<lambda>_. None), as_to_visit = []\<rparr>"

definition append_node :: "nat \<Rightarrow> asm_instruction \<Rightarrow> asm_state \<Rightarrow> asm_state" where
  "append_node k inst st = st\<lparr>as_idx := (as_idx st)(k \<mapsto> length (as_instructions st)),
     as_instructions := as_instructions st @ [inst], as_to_visit := as_to_visit st @ [k]\<rparr>"

text \<open>The first loop, over the list of nodes.\<close>

fun collect_nodes :: "graph \<Rightarrow> nat list \<Rightarrow> asm_state \<Rightarrow> asm_state option" where
  "collect_nodes g [] st = Some st"
| "collect_nodes g (k # ks) st = do {
     n \<leftarrow> find_node g k;
     collect_nodes g ks (case node_to_instruction n of None \<Rightarrow> st | Some inst \<Rightarrow> append_node k inst st) }"

text \<open>An input that names a label becomes the address of the labelled node.\<close>

definition label_of :: "graph \<Rightarrow> operand option \<Rightarrow> nat option" where
  "label_of g input = (case input of Some (Label l) \<Rightarrow> map_of (gr_labels g) l | _ \<Rightarrow> None)"

definition blank_update :: "nat \<Rightarrow> DestinationToUpdate" where
  "blank_update i = \<lparr>up_instruction_num = i, up_is_first_destination = False,
     up_is_second_destination = False, up_is_first_literal = False, up_is_second_literal = False\<rparr>"

definition visit_label :: "graph \<Rightarrow> node \<Rightarrow> nat \<Rightarrow> asm_state \<Rightarrow> asm_state option" where
  "visit_label g n i st = (case label_of g (nd_input_1 n) of
       None \<Rightarrow> Some st
     | Some target \<Rightarrow> do {
         j \<leftarrow> as_idx st target;
         Some (st\<lparr>as_instructions := (as_instructions st)[i := (as_instructions st ! i)
                    \<lparr>ai_literal_1 := Some (Literal (create_destination (int j) 0 0))\<rparr>],
                as_labels := as_labels st @ [(blank_update i)\<lparr>up_is_first_literal := True\<rparr>]\<rparr>) })"

fun set_destination :: "dest_field \<Rightarrow> int \<Rightarrow> asm_instruction \<Rightarrow> asm_instruction" where
  "set_destination Destination_1 v inst = inst\<lparr>ai_destination_1 := Some v\<rparr>"
| "set_destination Destination_2 v inst = inst\<lparr>ai_destination_2 := Some v\<rparr>"

definition write_destination :: "nat \<Rightarrow> dest_field \<Rightarrow> int \<Rightarrow> asm_state \<Rightarrow> asm_state" where
  "write_destination i f v st = st\<lparr>as_instructions :=
     (as_instructions st)[i := set_destination f v (as_instructions st ! i)]\<rparr>"

definition constant_update :: "nat \<Rightarrow> dest_field \<Rightarrow> DestinationToUpdate" where
  "constant_update i f = (blank_update i)\<lparr>up_is_first_destination := (f = Destination_1),
     up_is_second_destination := (f = Destination_2)\<rparr>"

definition visit_destination :: "graph \<Rightarrow> node \<Rightarrow> nat \<Rightarrow> dest_field \<Rightarrow> asm_state \<Rightarrow> asm_state option" where
  "visit_destination g n i f st = (case destination_at f n of
       None \<Rightarrow> Some st
     | Some d \<Rightarrow> do {
         target \<leftarrow> find_node g (dst_node d);
         if nd_opcode target = OUTD_OPCODE
         then Some (write_destination i f asm_OUTPUTD
                (st\<lparr>as_constants := as_constants st @ [constant_update i f]\<rparr>))
         else if nd_opcode target = OUTS_OPCODE
         then Some (write_destination i f asm_OUTPUTS
                (st\<lparr>as_constants := as_constants st @ [constant_update i f]\<rparr>))
         else do {
           st' \<leftarrow> (if as_idx st (dst_node d) \<noteq> None then Some st
             else do { inst \<leftarrow> node_to_instruction target; Some (append_node (dst_node d) inst st) });
           matching \<leftarrow> matching_of target;
           j \<leftarrow> as_idx st' (dst_node d);
           Some (write_destination i f (create_destination (int j) (dst_input d) matching) st') } })"

text \<open>nodes_to_extern: the last name that refers to the node.\<close>

definition extern_of :: "graph \<Rightarrow> nat \<Rightarrow> byte list option" where
  "extern_of g k = fold (\<lambda>(extern, nodes) found. if k \<in> set nodes then Some extern else found)
     (gr_external_references g) None"

definition visit_extern :: "graph \<Rightarrow> nat \<Rightarrow> nat \<Rightarrow> asm_state \<Rightarrow> asm_state" where
  "visit_extern g k i st = (case extern_of g k of
       None \<Rightarrow> st
     | Some extern \<Rightarrow> st\<lparr>as_external_references := as_external_references st
         @ [((blank_update i)\<lparr>up_is_first_destination := True\<rparr>, extern)]\<rparr>)"

text \<open>One round of the second loop.\<close>

definition visit_node :: "graph \<Rightarrow> nat \<Rightarrow> asm_state \<Rightarrow> asm_state option" where
  "visit_node g k st = do {
     n \<leftarrow> find_node g k;
     i \<leftarrow> as_idx st k;
     if nd_opcode n \<in> set SPECIAL_OPCODES \<or> label_of g (nd_input_2 n) \<noteq> None then None
     else do {
       st1 \<leftarrow> visit_label g n i st;
       st2 \<leftarrow> visit_destination g n i Destination_1 st1;
       st3 \<leftarrow> visit_destination g n i Destination_2 st2;
       Some (visit_extern g k i st3) } }"

text \<open>The second loop ends: a round takes one node from the list and adds only nodes not seen before.\<close>

definition unseen :: "graph \<Rightarrow> asm_state \<Rightarrow> nat" where
  "unseen g st = card {k \<in> nd_id ` set (gr_objects g). as_idx st k = None}"

definition work_left :: "graph \<Rightarrow> asm_state \<Rightarrow> nat" where
  "work_left g st = 2 * unseen g st + length (as_to_visit st)"

lemma find_node_Some:
  assumes "find_node g k = Some n"
  shows "n \<in> set (gr_objects g)" and "nd_id n = k"
  using assms by (auto simp: find_node_def find_Some_iff)

lemma append_node_work:
  assumes "find_node g k = Some n" and "as_idx st k = None"
  shows "work_left g (append_node k inst st) < work_left g st"
proof -
  let ?new = "append_node k inst st"
  have "{j \<in> nd_id ` set (gr_objects g). as_idx ?new j = None}
      = {j \<in> nd_id ` set (gr_objects g). as_idx st j = None} - {k}"
    by (auto simp: append_node_def)
  moreover have "card ({j \<in> nd_id ` set (gr_objects g). as_idx st j = None} - {k})
      < card {j \<in> nd_id ` set (gr_objects g). as_idx st j = None}"
    by (rule card_Diff1_less) (use find_node_Some [OF assms(1)] assms(2) in auto)
  ultimately have "unseen g ?new < unseen g st" by (simp only: unseen_def)
  then show ?thesis by (simp add: work_left_def append_node_def)
qed

lemma visit_label_work:
  assumes "visit_label g n i st = Some st'"
  shows "work_left g st' = work_left g st"
  using assms
  by (auto simp: visit_label_def work_left_def unseen_def bind_eq_Some_conv split: option.splits)

lemma visit_destination_work:
  assumes "visit_destination g n i f st = Some st'"
  shows "work_left g st' \<le> work_left g st"
proof -
  have written: "work_left g (write_destination i f v s) = work_left g s" for v s
    by (simp add: write_destination_def work_left_def unseen_def)
  have tables: "work_left g (s\<lparr>as_constants := c\<rparr>) = work_left g s" for c s
    by (simp add: work_left_def unseen_def)
  show ?thesis
    using assms
    by (auto simp: visit_destination_def bind_eq_Some_conv written tables
        split: option.splits if_splits intro: less_imp_le [OF append_node_work])
qed

lemma visit_node_work:
  assumes "visit_node g k st = Some st'"
  shows "work_left g st' \<le> work_left g st"
proof -
  from assms obtain n i st1 st2 st3 where "visit_label g n i st = Some st1"
    "visit_destination g n i Destination_1 st1 = Some st2" "visit_destination g n i Destination_2 st2 = Some st3"
    "st' = visit_extern g k i st3"
    by (auto simp: visit_node_def bind_eq_Some_conv split: if_splits)
  moreover have "work_left g (visit_extern g k i st3) = work_left g st3"
    by (simp add: visit_extern_def work_left_def unseen_def split: option.splits)
  ultimately show ?thesis
    using visit_label_work visit_destination_work by (metis le_trans order_refl)
qed

function visit_nodes :: "graph \<Rightarrow> asm_state \<Rightarrow> asm_state option" where
  "visit_nodes g st = (case as_to_visit st of
       [] \<Rightarrow> Some st
     | k # ks \<Rightarrow> (case visit_node g k (st\<lparr>as_to_visit := ks\<rparr>) of
           None \<Rightarrow> None
         | Some st' \<Rightarrow> visit_nodes g st'))"
  by pat_completeness auto
termination
proof (relation "measure (\<lambda>(g, st). work_left g st)", goal_cases)
  case (2 g st k ks st')
  from visit_node_work [OF 2(2)] 2(1) show ?case
    by (simp add: work_left_def unseen_def)
qed simp

declare visit_nodes.simps [simp del]

section \<open>Exports and the file\<close>

fun export_symbols :: "graph \<Rightarrow> asm_state \<Rightarrow> byte list list \<Rightarrow> (int \<times> byte list) list option" where
  "export_symbols g st [] = Some []"
| "export_symbols g st (export # exports) = do {
     target \<leftarrow> map_of (gr_labels g) export;
     i \<leftarrow> as_idx st target;
     rest \<leftarrow> export_symbols g st exports;
     Some ((create_destination (int i) 0 0, export) # rest) }"

text \<open>The last operand is what graph_to_instructions returns besides the exports.\<close>

definition graph_to_instructions :: "graph \<Rightarrow> (asm_state \<times> (int \<times> byte list) list) option" where
  "graph_to_instructions g = do {
     st0 \<leftarrow> collect_nodes g (gr_nodes g) empty_asm;
     st \<leftarrow> visit_nodes g st0;
     exports \<leftarrow> export_symbols g st (gr_exports g);
     Some (st, exports) }"

text \<open>struct.pack of an unsigned and of a signed number, and of a name in a field of 256 bytes.\<close>

definition pack_unsigned :: "nat \<Rightarrow> int \<Rightarrow> byte list option" where
  "pack_unsigned bytes v = (if 0 \<le> v \<and> v < 2 ^ (8 * bytes)
     then Some (le_bytes bytes (word_of_int v :: u64)) else None)"

definition pack_signed :: "int \<Rightarrow> byte list option" where
  "pack_signed v = (if - (2 ^ 63) \<le> v \<and> v < 2 ^ 63 then Some (le_bytes 8 (word_of_int v :: u64)) else None)"

definition pack_name :: "byte list \<Rightarrow> byte list" where
  "pack_name name = take 256 name @ replicate (256 - length name) 0"

text \<open>\<open>literal or 0\<close>; a label that is still there cannot be packed.\<close>

fun literal_value :: "operand option \<Rightarrow> int option" where
  "literal_value None = Some 0"
| "literal_value (Some (Literal v)) = Some v"
| "literal_value (Some (Label l)) = (if l = [] then Some 0 else None)"

text \<open>Python tests the second destination for truth, so the destination 0 counts as none.\<close>

definition serialize_instruction :: "asm_instruction \<Rightarrow> byte list option" where
  "serialize_instruction inst =
     (let marker = (case ai_destination_2 inst of None \<Rightarrow> 0 | Some v \<Rightarrow> if v = 0 then 0 else 1);
          instruction_literal = (if ai_literal_1 inst \<noteq> None \<and> ai_literal_2 inst \<noteq> None then 2
            else if ai_literal_1 inst \<noteq> None \<or> ai_literal_2 inst \<noteq> None then 1 else 0)
      in do {
        literal_1 \<leftarrow> literal_value (ai_literal_1 inst);
        literal_2 \<leftarrow> literal_value (ai_literal_2 inst);
        opcode \<leftarrow> pack_unsigned 4 (opc_opcode (ai_opcode inst));
        destination_1 \<leftarrow> pack_unsigned 4 (case ai_destination_1 inst of None \<Rightarrow> asm_DEV_NULL | Some v \<Rightarrow> v);
        destination_2 \<leftarrow> pack_unsigned 4 (case ai_destination_2 inst of None \<Rightarrow> asm_DEV_NULL | Some v \<Rightarrow> v);
        first \<leftarrow> pack_signed literal_1;
        second \<leftarrow> pack_signed literal_2;
        Some (opcode @ destination_1 @ destination_2 @ [marker] @ [0, 0, 0] @ first @ second
          @ le_bytes 4 (instruction_literal :: u32) @ [0, 0, 0, 0]) })"

fun concat_options :: "('a \<Rightarrow> byte list option) \<Rightarrow> 'a list \<Rightarrow> byte list option" where
  "concat_options f [] = Some []"
| "concat_options f (x # xs) = do { a \<leftarrow> f x; b \<leftarrow> concat_options f xs; Some (a @ b) }"

definition update_to_binary :: "DestinationToUpdate \<Rightarrow> byte list option" where
  "update_to_binary u = do {
     number \<leftarrow> pack_unsigned 4 (int (up_instruction_num u));
     Some (number @ [combine_flags u] @ [0, 0, 0]) }"

definition external_to_binary :: "DestinationToUpdate \<times> byte list \<Rightarrow> byte list option" where
  "external_to_binary = (\<lambda>(u, name). do { update \<leftarrow> update_to_binary u; Some (update @ pack_name name) })"

definition export_to_binary :: "int \<times> byte list \<Rightarrow> byte list option" where
  "export_to_binary = (\<lambda>(destination, name). do {
     d \<leftarrow> pack_unsigned 4 destination; Some (d @ pack_name name) })"

definition generate_header :: "DestinationToUpdate list \<Rightarrow> DestinationToUpdate list
    \<Rightarrow> (DestinationToUpdate \<times> byte list) list \<Rightarrow> (int \<times> byte list) list \<Rightarrow> byte list option" where
  "generate_header constants labels external_references exported = do {
     num_constant \<leftarrow> pack_unsigned 2 (int (length constants));
     num_to_fix \<leftarrow> pack_unsigned 2 (int (length labels));
     num_external_ref \<leftarrow> pack_unsigned 2 (int (length external_references));
     num_exported \<leftarrow> pack_unsigned 2 (int (length exported));
     a \<leftarrow> concat_options update_to_binary constants;
     b \<leftarrow> concat_options update_to_binary labels;
     c \<leftarrow> concat_options external_to_binary external_references;
     d \<leftarrow> concat_options export_to_binary exported;
     Some (map of_char ''sephiALD'' @ num_constant @ num_to_fix @ num_external_ref @ num_exported
       @ a @ b @ c @ d) }"

text \<open>output_graph and the part of it behind the optimisation; the drawing of the graph is left out.\<close>

definition assemble :: "graph \<Rightarrow> byte list option" where
  "assemble g = do {
     (st, exported) \<leftarrow> graph_to_instructions g;
     output \<leftarrow> concat_options serialize_instruction (as_instructions st);
     header \<leftarrow> generate_header (as_constants st) (as_labels st) (as_external_references st) exported;
     Some (header @ output) }"

definition output_graph :: "graph \<Rightarrow> byte list option" where
  "output_graph g = do { g' \<leftarrow> optimize_graph g; assemble g' }"

end
