(* ===== verification/Assembler_Parser.thy ===== *)
theory Assembler_Parser
  imports Assembler "HOL-Library.AList"
begin

text \<open>
  The front of assembler.py: parse_create_ir_graph reads a text, line by line, into nodes, and then leads
  the values of the variables from the nodes that define them to the nodes that use them. The text is
  ASCII, one byte for each character. A Python exception, failed assertion or exit is None; the messages
  of the log are left out.
\<close>

section \<open>Lines, words and numbers\<close>

abbreviation ascii :: "string \<Rightarrow> byte list" where "ascii s \<equiv> map of_char s"

definition is_newline :: "byte \<Rightarrow> bool" where "is_newline b \<longleftrightarrow> b = 10 \<or> b = 13"

definition is_white :: "byte \<Rightarrow> bool" where "is_white b \<longleftrightarrow> 9 \<le> b \<and> b \<le> 13 \<or> 28 \<le> b \<and> b \<le> 32"

fun split_at :: "(byte \<Rightarrow> bool) \<Rightarrow> byte list \<Rightarrow> byte list list" where
  "split_at sep [] = [[]]"
| "split_at sep (b # bs) = (if sep b then [] # split_at sep bs
     else case split_at sep bs of [] \<Rightarrow> [[b]] | w # ws \<Rightarrow> (b # w) # ws)"

text \<open>
  The lines of the text; an end of line of two characters counts as an empty line more, and empty lines
  are passed over.
\<close>

definition text_lines :: "byte list \<Rightarrow> byte list list" where
  "text_lines input = split_at is_newline input"

text \<open>str.split(), str.strip, str.rstrip, str.upper and str.lower.\<close>

definition split_words :: "byte list \<Rightarrow> byte list list" where
  "split_words line = filter (\<lambda>w. w \<noteq> []) (split_at is_white line)"

definition rstrip :: "(byte \<Rightarrow> bool) \<Rightarrow> byte list \<Rightarrow> byte list" where
  "rstrip p s = rev (dropWhile p (rev s))"

definition strip :: "(byte \<Rightarrow> bool) \<Rightarrow> byte list \<Rightarrow> byte list" where
  "strip p s = rstrip p (dropWhile p s)"

definition upper :: "byte list \<Rightarrow> byte list" where
  "upper = map (\<lambda>b. if 97 \<le> b \<and> b \<le> 122 then b - 32 else b)"

definition lower :: "byte list \<Rightarrow> byte list" where
  "lower = map (\<lambda>b. if 65 \<le> b \<and> b \<le> 90 then b + 32 else b)"

text \<open>
  int(arg, base): digits, with single underscores between them; the flag says that a digit has to come
  next.
\<close>

definition digit_of :: "nat \<Rightarrow> byte \<Rightarrow> nat option" where
  "digit_of base b =
     (let d = (if 48 \<le> b \<and> b \<le> 57 then unat b - 48
               else if 97 \<le> b \<and> b \<le> 122 then unat b - 87
               else if 65 \<le> b \<and> b \<le> 90 then unat b - 55 else base)
      in if d < base then Some d else None)"

fun int_digits :: "nat \<Rightarrow> int \<Rightarrow> bool \<Rightarrow> byte list \<Rightarrow> int option" where
  "int_digits base acc digit_next [] = (if digit_next then None else Some acc)"
| "int_digits base acc digit_next (b # bs) = (case digit_of base b of
       Some d \<Rightarrow> int_digits base (acc * int base + int d) False bs
     | None \<Rightarrow> if b = 95 \<and> \<not> digit_next then int_digits base acc True bs else None)"

fun int_base_10 :: "byte list \<Rightarrow> int option" where
  "int_base_10 (b # bs) = (if b = 43 then int_digits 10 0 True bs
     else if b = 45 then map_option uminus (int_digits 10 0 True bs)
     else int_digits 10 0 True (b # bs))"
| "int_base_10 [] = None"

text \<open>Base 16 for a text behind its prefix 0x, where one underscore may come first.\<close>

fun int_base_16 :: "byte list \<Rightarrow> int option" where
  "int_base_16 (b # bs) = (if b = 95 then int_digits 16 0 True bs else int_digits 16 0 True (b # bs))"
| "int_base_16 [] = None"

definition parse_arg :: "byte list \<Rightarrow> operand" where
  "parse_arg arg = (case int_base_10 arg of
       Some v \<Rightarrow> Literal v
     | None \<Rightarrow> if take 2 (lower arg) = ascii ''0x''
         then (case int_base_16 (drop 2 arg) of Some v \<Rightarrow> Literal v | None \<Rightarrow> Label arg)
         else Label arg)"

section \<open>The lines\<close>

text \<open>
  The graph as it grows, with the local variables of the function. A variable that has no entry in the
  defaultdict \<open>variables\<close> stands for the empty list. The labels and external references are dictionaries
  with their entries in insertion order; the set of exports is the list of its elements, in the order in
  which they came (Python goes through a set in an order of its own, which changes the order of the
  exports in the file).
\<close>

record parse_state =
  ps_nodes :: "node list"
  ps_labels :: "(byte list \<times> nat) list"
  ps_external_references :: "(byte list \<times> nat list) list"
  ps_exports :: "byte list list"
  ps_variables :: "byte list \<Rightarrow> nat list"
  ps_node_num :: nat
  ps_label :: "byte list option"

definition empty_parse :: parse_state where
  "empty_parse = \<lparr>ps_nodes = [], ps_labels = [], ps_external_references = [], ps_exports = [],
     ps_variables = (\<lambda>_. []), ps_node_num = 0, ps_label = None\<rparr>"

definition OPCODES :: "byte list \<Rightarrow> asm_opcode option" where
  "OPCODES name = List.find (\<lambda>opc. ascii (opc_repr opc) = name) OPCODE_LIST"

definition SPECIAL_OPCODES_NAMES :: "byte list list" where
  "SPECIAL_OPCODES_NAMES = map (\<lambda>opc. ascii (opc_repr opc)) SPECIAL_OPCODES"

text \<open>args[i], an exception where the list is shorter.\<close>

definition arg_at :: "byte list list \<Rightarrow> nat \<Rightarrow> byte list option" where
  "arg_at args i = (if i < length args then Some (args ! i) else None)"

definition new_node :: "asm_opcode \<Rightarrow> nat \<Rightarrow> operand option \<Rightarrow> operand option \<Rightarrow> node_destination option
    \<Rightarrow> node_destination option \<Rightarrow> bool \<Rightarrow> node" where
  "new_node opc num input_1 input_2 d1 d2 optimizable = \<lparr>nd_opcode = opc, nd_id = num,
     nd_input_1 = input_1, nd_input_2 = input_2, nd_destination_1 = d1, nd_destination_2 = d2,
     nd_optimizable = optimizable\<rparr>"

text \<open>The node joins the graph and node_num is counted up; a variable is defined by the last node.\<close>

definition add_node :: "node \<Rightarrow> parse_state \<Rightarrow> parse_state" where
  "add_node n st = st\<lparr>ps_nodes := ps_nodes st @ [n], ps_node_num := ps_node_num st + 1\<rparr>"

definition define_variable :: "byte list \<Rightarrow> parse_state \<Rightarrow> parse_state" where
  "define_variable s st =
     st\<lparr>ps_variables := (ps_variables st)(s := ps_variables st s @ [length (ps_nodes st) - 1])\<rparr>"

text \<open>A label that is waiting and not empty names the node.\<close>

definition attach_label :: "nat \<Rightarrow> parse_state \<Rightarrow> parse_state" where
  "attach_label k st = (case ps_label st of
       None \<Rightarrow> st
     | Some label \<Rightarrow> if label = [] then st
         else st\<lparr>ps_labels := AList.update label k (ps_labels st), ps_label := None\<rparr>)"

definition parse_label :: "byte list \<Rightarrow> parse_state \<Rightarrow> parse_state option" where
  "parse_label the_label st =
     (if the_label = [] \<or> last the_label \<noteq> 58 then None
      else if ps_label st \<noteq> None \<and> ps_label st \<noteq> Some [] then None
      else let label = rstrip (\<lambda>b. b = 58) the_label
        in if label \<in> fst ` set (ps_labels st) then None else Some (st\<lparr>ps_label := Some label\<rparr>))"

definition parse_export :: "byte list list \<Rightarrow> parse_state \<Rightarrow> parse_state option" where
  "parse_export args st = do {
     exported \<leftarrow> arg_at args 1;
     if exported \<notin> fst ` set (ps_labels st) then None
     else Some (st\<lparr>ps_exports := List.insert exported (ps_exports st)\<rparr>) }"

definition parse_extern :: "byte list list \<Rightarrow> parse_state \<Rightarrow> parse_state option" where
  "parse_extern args st = do {
     name \<leftarrow> arg_at args 1;
     Some (st\<lparr>ps_external_references := AList.update name [] (ps_external_references st)\<rparr>) }"

text \<open>variable = OPERATION first second\<close>

fun is_literal :: "operand option \<Rightarrow> bool" where
  "is_literal (Some (Literal v)) = True"
| "is_literal _ = False"

fun is_name :: "operand option \<Rightarrow> bool" where
  "is_name (Some (Label s)) = True"
| "is_name _ = False"

definition parse_assignment :: "byte list list \<Rightarrow> parse_state \<Rightarrow> parse_state option" where
  "parse_assignment args st =
     (if \<not> (length args = 5 \<or> length args = 4) then None
      else do {
        opcode \<leftarrow> OPCODES (upper (args ! 2));
        let input_1 = Some (parse_arg (args ! 3));
        input_2 \<leftarrow> (if opc_num_inputs opcode = 2
          then do { second_arg \<leftarrow> arg_at args 4; Some (Some (parse_arg second_arg)) } else Some None);
        if is_literal input_1 \<and> is_name input_2 then None
        else if opcode = MER_OPCODE \<and> (is_literal input_1 \<or> is_literal input_2) then None
        else Some (attach_label (ps_node_num st) (define_variable (args ! 0)
          (add_node (new_node opcode (ps_node_num st) input_1 input_2 None None False) st))) })"

text \<open>OUTD value or OUTS value\<close>

definition parse_output :: "byte list list \<Rightarrow> parse_state \<Rightarrow> parse_state option" where
  "parse_output args st =
     (if length args \<noteq> 2 then None
      else do {
        opcode \<leftarrow> OPCODES (upper (args ! 0));
        Some (attach_label (ps_node_num st)
          (add_node (new_node opcode (ps_node_num st) (Some (parse_arg (args ! 1))) None None None False) st)) })"

text \<open>true, false = BRR input test; the name of the operation is looked up as it is written.\<close>

definition branch_output :: "byte list \<Rightarrow> parse_state \<Rightarrow> parse_state" where
  "branch_output variable st = define_variable (strip (\<lambda>b. b = 44) variable)
     (add_node (new_node DUP_OPCODE (ps_node_num st) None None None None True) st)"

definition parse_branch :: "byte list list \<Rightarrow> parse_state \<Rightarrow> parse_state option" where
  "parse_branch args st = do {
     input \<leftarrow> arg_at args 4;
     let input_var = Some (parse_arg input);
     let test_var = (if length args = 6 then Some (parse_arg (args ! 5)) else None);
     let true_branch = ps_node_num st;
     let st1 = branch_output (args ! 0) st;
     let false_branch = ps_node_num st1;
     let st2 = branch_output (args ! 1) st1;
     opcode \<leftarrow> OPCODES (args ! 3);
     Some (attach_label (ps_node_num st2) (add_node (new_node opcode (ps_node_num st2) input_var test_var
       (Some \<lparr>dst_node = true_branch, dst_input = 0\<rparr>) (Some \<lparr>dst_node = false_branch, dst_input = 0\<rparr>) False) st2)) }"

text \<open>One round of the loop: what a line is, in the order of the tests.\<close>

definition parse_line :: "byte list \<Rightarrow> parse_state \<Rightarrow> parse_state option" where
  "parse_line text_line st =
     (let line = strip is_white text_line; args = split_words line
      in if line = [] \<or> hd line = 35 then Some st
         else if length args = 1 then parse_label (args ! 0) st
         else if upper (args ! 0) = ascii ''EXPORT'' then parse_export args st
         else if upper (args ! 0) = ascii ''EXTERN'' then parse_extern args st
         else if args ! 1 = ascii ''='' then parse_assignment args st
         else if upper (args ! 0) \<in> set SPECIAL_OPCODES_NAMES then parse_output args st
         else do {
           operation \<leftarrow> arg_at args 3;
           if upper operation = ascii ''BRR'' \<or> upper operation = ascii ''NTG'' then parse_branch args st
           else Some st })"

fun parse_lines :: "byte list list \<Rightarrow> parse_state \<Rightarrow> parse_state option" where
  "parse_lines [] st = Some st"
| "parse_lines (line # lines) st = do { st' \<leftarrow> parse_line line st; parse_lines lines st' }"

end
