(* ===== verification/Assembler_Wiring.thy ===== *)
theory Assembler_Wiring
  imports Assembler_Parser
begin

text \<open>
  The second half of parse_create_ir_graph, from the nodes of the lines to the graph: every use of a
  variable becomes a destination of the nodes that define it, and a node with more than two uses passes
  its value on to a DUP node made for it. Main is the whole program.
\<close>

section \<open>The loop over the nodes\<close>

text \<open>The inputs, by the number INPUTS gives the attribute.\<close>

definition input_at :: "nat \<Rightarrow> node \<Rightarrow> operand option" where
  "input_at iv n = (if iv = 0 then nd_input_1 n else nd_input_2 n)"

definition clear_input :: "nat \<Rightarrow> node \<Rightarrow> node" where
  "clear_input iv n = (if iv = 0 then n\<lparr>nd_input_1 := None\<rparr> else n\<lparr>nd_input_2 := None\<rparr>)"

definition modify_node :: "nat \<Rightarrow> (node \<Rightarrow> node) \<Rightarrow> parse_state \<Rightarrow> parse_state" where
  "modify_node k f st = st\<lparr>ps_nodes := (ps_nodes st)[k := f (ps_nodes st ! k)]\<rparr>"

text \<open>
  A use \<open>u\<close> of the variable \<open>s\<close> goes to the node at \<open>p\<close>: to its first free destination, or to the second
  one of a new DUP node that takes over the second destination of the node and the variable.
\<close>

definition connect :: "byte list \<Rightarrow> node_destination \<Rightarrow> nat \<Rightarrow> parse_state \<Rightarrow> parse_state" where
  "connect s u p st =
     (let parent = ps_nodes st ! p
      in if nd_destination_1 parent = None then modify_node p (redirect Destination_1 (Some u)) st
         else if nd_destination_2 parent = None then modify_node p (redirect Destination_2 (Some u)) st
         else let new_dup = new_node DUP_OPCODE (ps_node_num st) None None (nd_destination_2 parent) None True;
                  st1 = modify_node p (redirect Destination_2 (Some \<lparr>dst_node = ps_node_num st, dst_input = 0\<rparr>)) st;
                  st2 = add_node new_dup st1;
                  last_index = length (ps_nodes st2) - 1;
                  st3 = st2\<lparr>ps_variables := (ps_variables st2)(s := [last_index])\<rparr>
              in modify_node last_index (redirect Destination_2 (Some u)) st3)"

text \<open>The loop over \<open>variables[input]\<close> goes over the list as it is before the loop.\<close>

definition wire_input :: "nat \<Rightarrow> nat \<Rightarrow> parse_state \<Rightarrow> parse_state" where
  "wire_input iv k st = (case input_at iv (ps_nodes st ! k) of
       Some (Label s) \<Rightarrow>
         if s = ascii ''_'' then modify_node k (clear_input iv) st
         else if s \<in> fst ` set (ps_labels st) then st
         else fold (connect s \<lparr>dst_node = nd_id (ps_nodes st ! k), dst_input = iv\<rparr>) (ps_variables st s)
           (modify_node k (clear_input iv) st)
     | _ \<Rightarrow> st)"

text \<open>A literal that is left with one incoming edge belongs to the first input.\<close>

definition settle_literal :: "node \<Rightarrow> node" where
  "settle_literal n = (if opc_num_inputs (nd_opcode n) = 2 \<and> nd_input_1 n = None \<and> nd_input_2 n \<noteq> None
     then n\<lparr>nd_input_1 := nd_input_2 n, nd_input_2 := None\<rparr> else n)"

definition wire_node :: "nat \<Rightarrow> parse_state \<Rightarrow> parse_state" where
  "wire_node k st = modify_node k settle_literal (wire_input 1 k (wire_input 0 k st))"

text \<open>
  The loop also goes over the nodes it adds itself; it ends because these have no inputs.
\<close>

definition has_input :: "node \<Rightarrow> bool" where
  "has_input n \<longleftrightarrow> nd_input_1 n \<noteq> None \<or> nd_input_2 n \<noteq> None"

definition inputs_left :: "nat \<Rightarrow> parse_state \<Rightarrow> nat" where
  "inputs_left k st = length (filter has_input (drop k (ps_nodes st)))"


text \<open>
  A node without its destinations, the nodes that connect adds, and what stays as it is while uses are
  connected: nothing of the old nodes changes but their destinations.
\<close>

definition bare :: "node \<Rightarrow> node" where
  "bare n = n\<lparr>nd_destination_1 := None, nd_destination_2 := None\<rparr>"

definition dup_node :: "nat \<Rightarrow> node" where
  "dup_node i = new_node DUP_OPCODE i None None None None True"

definition grown :: "parse_state \<Rightarrow> parse_state \<Rightarrow> bool" where
  "grown st st' \<longleftrightarrow> ps_node_num st \<le> ps_node_num st'
     \<and> map bare (ps_nodes st') = map bare (ps_nodes st) @ map dup_node [ps_node_num st..<ps_node_num st']
     \<and> ps_labels st' = ps_labels st \<and> ps_external_references st' = ps_external_references st
     \<and> ps_exports st' = ps_exports st"

lemma grown_refl [simp]: "grown st st"
  by (simp add: grown_def)

lemma grown_trans [trans]:
  assumes "grown a b" and "grown b c"
  shows "grown a c"
proof -
  have "[ps_node_num a..<ps_node_num c] = [ps_node_num a..<ps_node_num b] @ [ps_node_num b..<ps_node_num c]"
    using assms upt_add_eq_append [of "ps_node_num a" "ps_node_num b" "ps_node_num c - ps_node_num b"]
    by (simp add: grown_def)
  then show ?thesis using assms by (simp add: grown_def)
qed

lemma bare_redirect [simp]: "bare (redirect f d n) = bare n"
  by (cases f) (simp_all add: bare_def)

lemma map_bare_update: "bare n = bare (xs ! k) \<Longrightarrow> map bare (xs[k := n]) = map bare xs"
  by (simp add: map_update list_update_same_conv [symmetric] nth_map)
     (metis length_map list_update_beyond list_update_id not_le nth_map)

lemma grown_connect: "grown st (connect s u p st)"
proof -
  have new: "bare (new_node DUP_OPCODE i None None None d True) = dup_node i"
    "bare (new_node DUP_OPCODE i None None d None True) = dup_node i" for i d
    by (simp_all add: bare_def dup_node_def new_node_def)
  show ?thesis
    by (simp add: connect_def Let_def grown_def modify_node_def add_node_def map_bare_update
        list_update_append nth_append new del: redirect.simps)
qed

lemma grown_connects: "grown st (fold (connect s u) ps st)"
  by (induction ps arbitrary: st) (auto intro: grown_trans [OF grown_connect])

text \<open>What the loop makes of the inputs of a node.\<close>

definition resolve :: "byte list set \<Rightarrow> nat \<Rightarrow> node \<Rightarrow> node" where
  "resolve labels iv n = (case input_at iv n of
       Some (Label s) \<Rightarrow> if s = ascii ''_'' \<or> s \<notin> labels then clear_input iv n else n
     | _ \<Rightarrow> n)"

definition label_names :: "parse_state \<Rightarrow> byte list set" where
  "label_names st = fst ` set (ps_labels st)"

definition resolved :: "byte list set \<Rightarrow> node \<Rightarrow> node" where
  "resolved labels n = settle_literal (resolve labels 1 (resolve labels 0 n))"

lemma grown_wire_input: "grown (modify_node k (resolve (label_names st) iv) st) (wire_input iv k st)"
proof (cases "input_at iv (ps_nodes st ! k)")
  case (Some x)
  then show ?thesis
    by (cases x) (auto simp: wire_input_def resolve_def label_names_def modify_node_def grown_connects
        intro: grown_connects)
qed (simp add: wire_input_def resolve_def modify_node_def)

lemma grown_length: "grown st st' \<Longrightarrow> length (ps_nodes st) \<le> length (ps_nodes st')"
  unfolding grown_def by (metis length_append length_map le_add1)

lemma grown_nth: "grown st st' \<Longrightarrow> k < length (ps_nodes st) \<Longrightarrow> bare (ps_nodes st' ! k) = bare (ps_nodes st ! k)"
  by (frule grown_length) (simp add: grown_def, metis length_map nth_append nth_map order_less_le_trans)

text \<open>A change of a node that does not look at its destinations.\<close>

definition on_bare :: "(node \<Rightarrow> node) \<Rightarrow> bool" where
  "on_bare f \<longleftrightarrow> (\<forall>n. bare (f n) = f (bare n))"

lemma grown_modify:
  assumes "grown st st'" and "k < length (ps_nodes st)" and "on_bare f"
  shows "grown (modify_node k f st) (modify_node k f st')"
  using assms grown_nth [OF assms(1,2)]
  by (simp add: grown_def modify_node_def map_update on_bare_def list_update_append)

lemma on_bare_resolve: "on_bare (resolve labels iv)"
  by (auto simp: on_bare_def resolve_def input_at_def clear_input_def bare_def split: option.splits operand.splits)

lemma on_bare_settle: "on_bare settle_literal"
  by (auto simp: on_bare_def settle_literal_def bare_def)

lemma modify_modify: "modify_node k f (modify_node k g st) = modify_node k (f \<circ> g) st"
  by (cases "k < length (ps_nodes st)") (simp_all add: modify_node_def list_update_beyond)

lemma label_names_modify [simp]: "label_names (modify_node k f st) = label_names st"
  by (simp add: label_names_def modify_node_def)

lemma length_modify [simp]: "length (ps_nodes (modify_node k f st)) = length (ps_nodes st)"
  by (simp add: modify_node_def)

lemma grown_wire_node:
  assumes "k < length (ps_nodes st)"
  shows "grown (modify_node k (resolved (label_names st)) st) (wire_node k st)"
proof -
  let ?r = "\<lambda>iv. resolve (label_names st) iv"
  note first = grown_wire_input [of k st 0]
  have labels: "label_names (wire_input 0 k st) = label_names st"
    using first by (simp add: grown_def label_names_def modify_node_def)
  have "grown (modify_node k (?r 1) (modify_node k (?r 0) st)) (modify_node k (?r 1) (wire_input 0 k st))"
    by (rule grown_modify [OF first]) (use assms in \<open>simp_all add: on_bare_resolve\<close>)
  also have "grown \<dots> (wire_input 1 k (wire_input 0 k st))"
    using grown_wire_input [of k "wire_input 0 k st" 1] by (simp add: labels)
  finally have "grown (modify_node k settle_literal (modify_node k (?r 1) (modify_node k (?r 0) st))) (wire_node k st)"
    unfolding wire_node_def by (rule grown_modify) (use assms in \<open>simp_all add: on_bare_settle\<close>)
  then show ?thesis
    by (simp add: modify_modify comp_def resolved_def [abs_def])
qed

lemma has_input_bare [simp]: "has_input (bare n) = has_input n"
  by (simp add: has_input_def bare_def)

lemma inputs_left_wire_node:
  assumes "k < length (ps_nodes st)"
  shows "inputs_left (Suc k) (wire_node k st) = inputs_left (Suc k) st"
proof -
  let ?m = "modify_node k (resolved (label_names st)) st"
  have split: "inputs_left i s = length (filter has_input (drop i (map bare (ps_nodes s))))" for i s
    by (simp add: inputs_left_def drop_map filter_map comp_def)
  have "map bare (ps_nodes (wire_node k st)) = map bare (ps_nodes ?m)
      @ map dup_node [ps_node_num ?m..<ps_node_num (wire_node k st)]"
    using grown_wire_node [OF assms] by (simp add: grown_def)
  moreover have "filter has_input (map dup_node xs) = []" for xs
    by (simp add: filter_empty_conv dup_node_def new_node_def has_input_def)
  ultimately have "inputs_left (Suc k) (wire_node k st) = inputs_left (Suc k) ?m"
    using assms by (simp add: split)
  also have "\<dots> = inputs_left (Suc k) st"
    by (simp add: inputs_left_def modify_node_def)
  finally show ?thesis .
qed

lemma wire_node_idle:
  assumes "k < length (ps_nodes st)" and "\<not> has_input (ps_nodes st ! k)"
  shows "wire_node k st = st"
proof -
  have none: "input_at iv (ps_nodes st ! k) = None" for iv using assms(2) by (simp add: has_input_def input_at_def)
  then have "wire_input iv k st = st" for iv by (simp add: wire_input_def)
  then show ?thesis using assms(2) by (simp add: wire_node_def modify_node_def settle_literal_def has_input_def)
qed

function wire_nodes :: "nat \<Rightarrow> parse_state \<Rightarrow> parse_state" where
  "wire_nodes k st = (if k < length (ps_nodes st) then wire_nodes (Suc k) (wire_node k st) else st)"
  by pat_completeness auto
termination
proof (relation "measures [\<lambda>(k, st). inputs_left k st, \<lambda>(k, st). length (ps_nodes st) - k]", goal_cases)
  case (2 k st)
  have "inputs_left k st = inputs_left (Suc k) st + (if has_input (ps_nodes st ! k) then 1 else 0)"
    using 2 by (simp add: inputs_left_def Cons_nth_drop_Suc [symmetric])
  with 2 inputs_left_wire_node [OF 2] wire_node_idle [OF 2] show ?case by (auto split: if_splits)
qed simp

declare wire_nodes.simps [simp del]

section \<open>External references, and the whole program\<close>

fun collect_extern :: "byte list \<Rightarrow> nat list \<Rightarrow> parse_state \<Rightarrow> parse_state option" where
  "collect_extern extern [] st = Some st"
| "collect_extern extern (i # is) st =
     (if nd_destination_1 (ps_nodes st ! i) \<noteq> None then None
      else collect_extern extern is (st\<lparr>ps_external_references := AList.update extern
        (the (map_of (ps_external_references st) extern) @ [nd_id (ps_nodes st ! i)]) (ps_external_references st)\<rparr>))"

fun collect_externs :: "byte list list \<Rightarrow> parse_state \<Rightarrow> parse_state option" where
  "collect_externs [] st = Some st"
| "collect_externs (extern # externs) st = do {
     st' \<leftarrow> collect_extern extern (ps_variables st extern) st; collect_externs externs st' }"

definition graph_of :: "parse_state \<Rightarrow> graph" where
  "graph_of st = \<lparr>gr_objects = ps_nodes st, gr_nodes = map nd_id (ps_nodes st), gr_labels = ps_labels st,
     gr_external_references = ps_external_references st, gr_exports = ps_exports st\<rparr>"

definition parse_create_ir_graph :: "byte list \<Rightarrow> graph option" where
  "parse_create_ir_graph input = do {
     st \<leftarrow> parse_lines (text_lines input) empty_parse;
     let wired_nodes = wire_nodes 0 st;
     st' \<leftarrow> collect_externs (map fst (ps_external_references wired_nodes)) wired_nodes;
     Some (graph_of st') }"

text \<open>main: from the text of the input file to the content of the output file.\<close>

definition assembler_main :: "byte list \<Rightarrow> byte list option" where
  "assembler_main input = do { graph \<leftarrow> parse_create_ir_graph input; output_graph graph }"

end
