(* ===== verification/Assembler_Chains.thy ===== *)
theory Assembler_Chains
  imports Assembler_Wiring "HOL-Library.Disjoint_Sets"
begin

text \<open>
  How the value of a node reaches several uses: through its two destinations, or through a chain of DUP
  nodes that starts with it. The chains stay apart and grow at their ends.
\<close>

section \<open>One chain\<close>

text \<open>The destinations of a node, and the uses they are.\<close>

definition dests :: "node \<Rightarrow> node_destination option \<times> node_destination option" where
  "dests n = (nd_destination_1 n, nd_destination_2 n)"

definition sends :: "node \<Rightarrow> node_destination list \<Rightarrow> bool" where
  "sends n us \<longleftrightarrow> length us \<le> 2 \<and> nd_destination_1 n = (if us = [] then None else Some (us ! 0))
     \<and> nd_destination_2 n = (if length us < 2 then None else Some (us ! 1))"

text \<open>
  The chain passes on the uses: every node but the last one has one of them and leads to the next node;
  the last one has the rest, which are two if the chain has more than one node.
\<close>

fun linked :: "node list \<Rightarrow> nat list \<Rightarrow> node_destination list \<Rightarrow> bool" where
  "linked ns [] us = False"
| "linked ns [p] us = (p < length ns \<and> sends (ns ! p) us)"
| "linked ns (p # q # qs) us = (p < length ns \<and> length us > 2
     \<and> dests (ns ! p) = (Some (hd us), Some \<lparr>dst_node = q, dst_input = 0\<rparr>) \<and> linked ns (q # qs) (tl us))"

lemma linked_length: "linked ns path us \<Longrightarrow> length path = (if length us \<le> 2 then 1 else length us - 1)"
  by (induction ns path us rule: linked.induct) (auto simp: sends_def)

lemma linked_inside: "linked ns path us \<Longrightarrow> q \<in> set path \<Longrightarrow> q < length ns"
  by (induction ns path us rule: linked.induct) auto

lemma sends_dests: "dests n = dests m \<Longrightarrow> sends n us = sends m us"
  by (simp add: sends_def dests_def)

text \<open>Only the destinations of the nodes of the chain matter.\<close>

lemma linked_cong:
  assumes "linked ns path us" and "\<And>q. q \<in> set path \<Longrightarrow> q < length ns' \<and> dests (ns' ! q) = dests (ns ! q)"
  shows "linked ns' path us"
  using assms
  by (induction ns path us rule: linked.induct) (auto cong: sends_dests)

lemma last_sends:
  assumes "linked ns path us"
  shows "sends (ns ! last path) (drop (length path - 1) us)"
  using assms by (induction ns path us rule: linked.induct) (auto simp: drop_Suc)

lemma linked_short:
  assumes "linked ns path us" and "length us < 2" and "f = (if us = [] then Destination_1 else Destination_2)"
  shows "linked (ns[last path := redirect f (Some u) (ns ! last path)]) path (us @ [u])"
proof -
  from linked_length [OF assms(1)] assms(2) obtain p where "path = [p]" by (cases path) auto
  then show ?thesis using assms by (cases us) (auto simp: sends_def)
qed

text \<open>The new node takes over the last use, next to the new one.\<close>

lemma linked_snoc:
  assumes "linked ns path us" and "2 \<le> length us" and "distinct path"
    and "nd_destination_1 new = nd_destination_2 (ns ! last path)" and "nd_destination_2 new = Some u"
  shows "linked (ns[last path := redirect Destination_2 (Some \<lparr>dst_node = length ns, dst_input = 0\<rparr>) (ns ! last path)]
    @ [new]) (path @ [length ns]) (us @ [u])"
  using assms
proof (induction ns path us rule: linked.induct)
  case (2 ns p us)
  then obtain a b where "us = [a, b]" by (auto simp: sends_def length_Suc_conv le_Suc_eq numeral_2_eq_2)
  with 2 show ?case by (auto simp: sends_def nth_append dests_def)
next
  case (3 ns p q qs us)
  then have "2 \<le> length (tl us)" "last (q # qs) \<noteq> p" by auto
  with 3 show ?case by (cases us) (auto simp: nth_append dests_def)
qed simp

section \<open>All chains\<close>

text \<open>
  What \<open>connect\<close> has made of the nodes: the definer \<open>p\<close> of a variable passes the uses \<open>W p\<close> on by the
  chain \<open>P p\<close> of new nodes; every new node is in one chain, and the other nodes lead where they did.
\<close>

definition definers :: "parse_state \<Rightarrow> nat set" where
  "definers st = (\<Union>s. set (ps_variables st s))"

definition wired_to :: "parse_state \<Rightarrow> (nat \<Rightarrow> node_destination list) \<Rightarrow> (nat \<Rightarrow> nat list) \<Rightarrow> node list \<Rightarrow> bool" where
  "wired_to st W P ns \<longleftrightarrow> length (ps_nodes st) \<le> length ns
     \<and> (\<forall>p\<in>definers st. linked ns (p # P p) (W p) \<and> distinct (P p))
     \<and> disjoint_family_on (\<lambda>p. set (P p)) (definers st)
     \<and> (\<Union>p\<in>definers st. set (P p)) = {length (ps_nodes st)..<length ns}
     \<and> (\<forall>k<length (ps_nodes st). k \<notin> definers st \<longrightarrow> dests (ns ! k) = dests (ps_nodes st ! k))"

text \<open>What the lines leave behind.\<close>

definition parsed :: "parse_state \<Rightarrow> bool" where
  "parsed st \<longleftrightarrow> map nd_id (ps_nodes st) = [0..<length (ps_nodes st)] \<and> ps_node_num st = length (ps_nodes st)
     \<and> (\<forall>s. distinct (ps_variables st s))
     \<and> (\<forall>s t. s \<noteq> t \<longrightarrow> set (ps_variables st s) \<inter> set (ps_variables st t) = {})
     \<and> (\<forall>s. \<forall>p\<in>set (ps_variables st s). p < length (ps_nodes st) \<and> dests (ps_nodes st ! p) = (None, None))
     \<and> (\<forall>n\<in>set (ps_nodes st). \<forall>f d. destination_at f n = Some d \<longrightarrow> dst_node d < length (ps_nodes st) \<and> dst_input d = 0)
     \<and> (\<forall>(l, k)\<in>set (ps_labels st). k < length (ps_nodes st))
     \<and> distinct (map fst (ps_external_references st)) \<and> (\<forall>(name, nodes)\<in>set (ps_external_references st). nodes = [])"

lemma parsed_apart:
  assumes "parsed st" and "p \<in> set (ps_variables st s)" and "p \<in> set (ps_variables st t)"
  shows "s = t"
proof -
  have "\<forall>s t. s \<noteq> t \<longrightarrow> set (ps_variables st s) \<inter> set (ps_variables st t) = {}"
    using assms(1) by (simp add: parsed_def)
  then show ?thesis using assms(2,3) by blast
qed

lemma definers_inside: "parsed st \<Longrightarrow> p \<in> definers st \<Longrightarrow> p < length (ps_nodes st)"
  by (auto simp: parsed_def definers_def)

lemma wired_to_cong:
  assumes "wired_to st W P ns" and "map dests ns' = map dests ns"
  shows "wired_to st W P ns'"
proof -
  have len: "length ns' = length ns" using assms(2) by (metis length_map)
  then have same: "dests (ns' ! q) = dests (ns ! q)" if "q < length ns" for q
    using assms(2) that by (metis nth_map)
  have "linked ns' path us" if "linked ns path us" for path us
    using that by (rule linked_cong) (use linked_inside [OF that] len same in auto)
  with assms(1) len same show ?thesis by (simp add: wired_to_def)
qed

lemma wired_to_start: "parsed st \<Longrightarrow> wired_to st (\<lambda>_. []) (\<lambda>_. []) (ps_nodes st)"
  by (auto simp: wired_to_def sends_def disjoint_family_on_def parsed_def definers_def dests_def)

text \<open>A use of the variable goes to the end of the chain.\<close>

lemma connect_short:
  assumes "nd_destination_1 (ps_nodes st ! q) = None \<or> nd_destination_2 (ps_nodes st ! q) = None"
  shows "connect s u q st = modify_node q (redirect
    (if nd_destination_1 (ps_nodes st ! q) = None then Destination_1 else Destination_2) (Some u)) st"
  using assms by (auto simp: connect_def Let_def)

lemma connect_long:
  assumes "nd_destination_1 (ps_nodes st ! q) \<noteq> None" and "nd_destination_2 (ps_nodes st ! q) \<noteq> None"
    and "ps_node_num st = length (ps_nodes st)"
  shows "connect s u q st = st\<lparr>ps_nodes := (ps_nodes st)[q := redirect Destination_2
        (Some \<lparr>dst_node = length (ps_nodes st), dst_input = 0\<rparr>) (ps_nodes st ! q)]
      @ [(dup_node (length (ps_nodes st)))\<lparr>nd_destination_1 := nd_destination_2 (ps_nodes st ! q),
          nd_destination_2 := Some u\<rparr>],
      ps_node_num := length (ps_nodes st) + 1, ps_variables := (ps_variables st)(s := [length (ps_nodes st)])\<rparr>"
  using assms
  by (auto simp: connect_def Let_def modify_node_def add_node_def nth_append list_update_append dup_node_def new_node_def)

lemma dests_redirect_other: "i \<noteq> q \<Longrightarrow> i < length ns \<Longrightarrow> dests ((ns[q := n] @ new) ! i) = dests (ns ! i)"
  by (simp add: nth_append)

lemma grown_number:
  "grown st st' \<Longrightarrow> ps_node_num st = length (ps_nodes st) \<Longrightarrow> ps_node_num st' = length (ps_nodes st')"
  unfolding grown_def by (metis diff_add length_append length_map length_upt add.commute le_add_diff_inverse)

lemma wired_to_update:
  assumes "parsed st" and "wired_to st W P ns" and "p \<in> definers st" and "P' = P(p := P p @ ext)"
    and "set ext = {length ns..<length ns'}" and "distinct ext" and "length ns \<le> length ns'"
    and "linked ns' (p # P' p) us" and "q = last (p # P p)"
    and "\<And>i. i < length ns \<Longrightarrow> i \<noteq> q \<Longrightarrow> dests (ns' ! i) = dests (ns ! i)"
  shows "wired_to st (W(p := us)) P' ns'"
proof -
  let ?N = "length (ps_nodes st)"
  note w = assms(2) [unfolded wired_to_def]
  have new: "?N \<le> i" "i < length ns" if "i \<in> set (P r)" "r \<in> definers st" for i r
    using w that by auto
  have q: "q = p \<or> q \<in> set (P p)" using assms(9) by auto
  have apart: "q \<notin> set (r # P r)" if "r \<in> definers st" "r \<noteq> p" for r
  proof -
    have "set (P p) \<inter> set (P r) = {}"
      using w that assms(3) by (auto simp: disjoint_family_on_def)
    with q new [OF _ that(1)] new [OF _ assms(3)] definers_inside [OF assms(1)] that assms(3) show ?thesis
      by fastforce
  qed
  have "linked ns' (r # P r) (W r)" if r: "r \<in> definers st" "r \<noteq> p" for r
  proof (rule linked_cong)
    show "linked ns (r # P r) (W r)" using w r by blast
    then have "i < length ns" if "i \<in> set (r # P r)" for i using linked_inside that by blast
    then show "i < length ns' \<and> dests (ns' ! i) = dests (ns ! i)" if "i \<in> set (r # P r)" for i
      using that assms(7,10) apart [OF r] by fastforce
  qed
  moreover have fresh: "set ext \<inter> set (P r) = {}" if "r \<in> definers st" for r
    using new(2) that assms(5) by fastforce
  then have "disjoint_family_on (\<lambda>r. set (P' r)) (definers st)"
    using w by (simp add: disjoint_family_on_def assms(4)) blast
  moreover have "(\<Union>r\<in>definers st. set (P' r)) = {?N..<length ns'}"
  proof -
    have "(\<Union>r\<in>definers st. set (P' r)) = (\<Union>r\<in>definers st. set (P r)) \<union> set ext"
      using assms(3,4) by (auto split: if_splits)
    then show ?thesis using w assms(5,7) by auto
  qed
  moreover have "dests (ns' ! k) = dests (ps_nodes st ! k)" if "k < ?N" "k \<notin> definers st" for k
  proof -
    have "k \<noteq> q" using q new(1) [OF _ assms(3)] that assms(3) by fastforce
    then show ?thesis using w that assms(10) by auto
  qed
  moreover have "distinct (P' p)"
    using w assms(3,4,6) fresh [OF assms(3)] by auto
  ultimately show ?thesis using w assms(4,7,8) unfolding wired_to_def by auto
qed

lemma connect_wired:
  assumes ok: "parsed st0" and w: "wired_to st0 W P (ps_nodes st)" and p: "p \<in> definers st0"
    and num: "ps_node_num st = length (ps_nodes st)" and st': "st' = connect s u (last (p # P p)) st"
  shows "\<exists>P'. wired_to st0 (W(p := W p @ [u])) P' (ps_nodes st') \<and> (\<forall>r. r \<noteq> p \<longrightarrow> P' r = P r)
    \<and> ps_variables st' = (if length (W p) < 2 then ps_variables st else (ps_variables st)(s := [last (p # P' p)]))
    \<and> ps_node_num st' = length (ps_nodes st')"
proof -
  let ?q = "last (p # P p)" and ?ns = "ps_nodes st"
  note w' = w [unfolded wired_to_def]
  have chain: "linked ?ns (p # P p) (W p)" and "distinct (P p)" using w' p by blast+
  moreover have "set (P p) \<subseteq> {length (ps_nodes st0)..<length ?ns}" using w' p by blast
  ultimately have dist: "distinct (p # P p)" using definers_inside [OF ok p] by auto
  have num': "ps_node_num st' = length (ps_nodes st')" using grown_number [OF grown_connect num] st' by simp
  have len: "length (p # P p) = (if length (W p) \<le> 2 then 1 else length (W p) - 1)" by (rule linked_length [OF chain])
  from last_sends [OF chain] have sends: "sends (?ns ! ?q) (drop (length (P p)) (W p))" by simp
  show ?thesis
  proof (cases "length (W p) < 2")
    case True
    then have P: "P p = []" using len by auto
    let ?f = "if W p = [] then Destination_1 else Destination_2"
    have free: "nd_destination_1 (?ns ! ?q) = None \<longleftrightarrow> W p = []" "nd_destination_2 (?ns ! ?q) = None"
      using sends True by (auto simp: sends_def P)
    have st'': "st' = modify_node ?q (redirect ?f (Some u)) st"
      unfolding st' using connect_short [of st ?q] free by simp
    have "wired_to st0 (W(p := W p @ [u])) (P(p := P p @ [])) (ps_nodes st')"
    proof (rule wired_to_update [OF ok w p, where q = ?q and ext = "[]"])
      show "linked (ps_nodes st') (p # (P(p := P p @ [])) p) (W p @ [u])"
        using linked_short [OF chain True refl] by (simp add: st'' modify_node_def)
    qed (simp_all add: st'' modify_node_def)
    then show ?thesis using True num' by (intro exI [of _ P]) (simp add: st'' modify_node_def)
  next
    case False
    have "length (drop (length (P p)) (W p)) = 2" using len False by (auto split: if_splits)
    with sends have busy: "nd_destination_1 (?ns ! ?q) \<noteq> None" "nd_destination_2 (?ns ! ?q) \<noteq> None"
      by (auto simp: sends_def)
    let ?new = "(dup_node (length ?ns))\<lparr>nd_destination_1 := nd_destination_2 (?ns ! ?q), nd_destination_2 := Some u\<rparr>"
    have ns': "ps_nodes st' = ?ns[?q := redirect Destination_2 (Some \<lparr>dst_node = length ?ns, dst_input = 0\<rparr>) (?ns ! ?q)]
        @ [?new]"
      and vars: "ps_variables st' = (ps_variables st)(s := [length ?ns])"
      unfolding st' connect_long [OF busy num] by simp_all
    have "wired_to st0 (W(p := W p @ [u])) (P(p := P p @ [length ?ns])) (ps_nodes st')"
    proof (rule wired_to_update [OF ok w p, where q = ?q and ext = "[length ?ns]"])
      show "linked (ps_nodes st') (p # (P(p := P p @ [length ?ns])) p) (W p @ [u])"
        using linked_snoc [OF chain _ dist, of ?new u] False by (simp add: ns')
    qed (auto simp: ns' nth_append)
    then show ?thesis using False num' vars by (intro exI [of _ "P(p := P p @ [length ?ns])"]) simp
  qed
qed

end
