(* ===== verification/Assembler_Delivery.thy ===== *)
theory Assembler_Delivery
  imports Assembler_Chains
begin

text \<open>
  Which uses of a variable the nodes that define it reach, and what the loop over the nodes makes of the
  graph of the lines.
\<close>

section \<open>The uses of a variable\<close>

lemma connects_wired:
  assumes "parsed st0" and "wired_to st0 W P (ps_nodes st)" and "ps_node_num st = length (ps_nodes st)"
    and "distinct ps" and "set ps \<subseteq> definers st0" and "\<forall>p\<in>set ps. length (W p) = n"
    and "st' = fold (connect s u) (map (\<lambda>p. last (p # P p)) ps) st"
  shows "\<exists>P'. wired_to st0 (\<lambda>p. if p \<in> set ps then W p @ [u] else W p) P' (ps_nodes st')
    \<and> (\<forall>r. r \<notin> set ps \<longrightarrow> P' r = P r)
    \<and> ps_variables st' = (if ps = [] \<or> n < 2 then ps_variables st
        else (ps_variables st)(s := [last (last ps # P' (last ps))]))
    \<and> ps_node_num st' = length (ps_nodes st')"
  using assms(2-)
proof (induction ps arbitrary: st W P)
  case (Cons p ps)
  let ?st1 = "connect s u (last (p # P p)) st" and ?W1 = "W(p := W p @ [u])"
  have p: "p \<in> definers st0" "length (W p) = n" "p \<notin> set ps" using Cons.prems by auto
  from connect_wired [OF assms(1) Cons.prems(1) p(1) Cons.prems(2) refl] obtain P1
    where P1: "wired_to st0 ?W1 P1 (ps_nodes ?st1)" "\<forall>r. r \<noteq> p \<longrightarrow> P1 r = P r"
      "ps_variables ?st1 = (if n < 2 then ps_variables st else (ps_variables st)(s := [last (p # P1 p)]))"
      "ps_node_num ?st1 = length (ps_nodes ?st1)"
    using p(2) by blast
  have "map (\<lambda>p. last (p # P p)) ps = map (\<lambda>p. last (p # P1 p)) ps"
    using P1(2) p(3) by (auto intro!: map_cong)
  then have st': "st' = fold (connect s u) (map (\<lambda>p. last (p # P1 p)) ps) ?st1"
    unfolding Cons.prems(6) list.map fold_simps comp_def by (rule arg_cong)
  have W1: "\<forall>r\<in>set ps. length (?W1 r) = n" using Cons.prems(5) p(3) by auto
  from Cons.IH [OF P1(1) P1(4) _ _ W1 st'] Cons.prems(3,4) obtain P'
    where P': "wired_to st0 (\<lambda>r. if r \<in> set ps then ?W1 r @ [u] else ?W1 r) P' (ps_nodes st')"
      "\<forall>r. r \<notin> set ps \<longrightarrow> P' r = P1 r"
      "ps_variables st' = (if ps = [] \<or> n < 2 then ps_variables ?st1
        else (ps_variables ?st1)(s := [last (last ps # P' (last ps))]))"
      "ps_node_num st' = length (ps_nodes st')" by auto
  have "(\<lambda>r. if r \<in> set ps then ?W1 r @ [u] else ?W1 r) = (\<lambda>r. if r \<in> set (p # ps) then W r @ [u] else W r)"
    using p(3) by auto
  moreover have "ps_variables st' = (if n < 2 then ps_variables st
      else (ps_variables st)(s := [last (last (p # ps) # P' (last (p # ps)))]))"
    using P'(2,3) P1(3) p(3) by auto
  ultimately show ?case using P' P1(2) by (intro exI [of _ P']) auto
qed auto

text \<open>
  After the uses \<open>U\<close>: the last node that defines a variable passes on all its uses, the others only the
  first three, because the third one makes the new node of the last definition the only entry of the
  variable.
\<close>

definition feeds :: "parse_state \<Rightarrow> (byte list \<Rightarrow> node_destination list) \<Rightarrow> (nat \<Rightarrow> node_destination list) \<Rightarrow> bool" where
  "feeds st U W \<longleftrightarrow> (\<forall>s. \<forall>p\<in>set (ps_variables st s).
     W p = (if p = last (ps_variables st s) then U s else take 3 (U s)))"

definition open_ends :: "parse_state \<Rightarrow> (byte list \<Rightarrow> node_destination list) \<Rightarrow> (nat \<Rightarrow> nat list) \<Rightarrow> byte list \<Rightarrow> nat list" where
  "open_ends st U P s = (let ps = ps_variables st s
     in if ps = [] \<or> length (U s) \<le> 2 then ps else [last (last ps # P (last ps))])"

definition wiring :: "parse_state \<Rightarrow> (byte list \<Rightarrow> node_destination list) \<Rightarrow> parse_state \<Rightarrow> bool" where
  "wiring st U st' \<longleftrightarrow> (\<exists>W P. wired_to st W P (ps_nodes st') \<and> feeds st U W
     \<and> ps_variables st' = open_ends st U P) \<and> ps_node_num st' = length (ps_nodes st')"

lemma wiring_start: "parsed st \<Longrightarrow> wiring st (\<lambda>_. []) st"
  using wired_to_start [of st] unfolding wiring_def
  by (auto simp: feeds_def open_ends_def parsed_def intro!: exI [of _ "\<lambda>_. []"])

lemma wiring_use:
  assumes ok: "parsed st0" and w: "wiring st0 U st" and st': "st' = fold (connect s u) (ps_variables st s) st"
  shows "wiring st0 (U(s := U s @ [u])) st'"
proof -
  let ?all = "ps_variables st0 s"
  let ?ps = "if ?all = [] \<or> length (U s) \<le> 2 then ?all else [last ?all]"
  from w obtain W P where wired: "wired_to st0 W P (ps_nodes st)" and feeds: "feeds st0 U W"
    and vars: "ps_variables st = open_ends st0 U P" and num: "ps_node_num st = length (ps_nodes st)"
    by (auto simp: wiring_def)
  have sub: "set ?ps \<subseteq> set ?all" "set ?all \<subseteq> definers st0" "distinct ?ps"
    using ok by (auto simp: definers_def parsed_def)
  have lengths: "length (W p) = length (U s)" if "p \<in> set ?ps" for p
  proof -
    from that sub(1) have "W p = (if p = last ?all then U s else take 3 (U s))"
      using feeds unfolding feeds_def by blast
    with that show ?thesis by (auto split: if_splits)
  qed
  have short: "P p = []" if "p \<in> set ?ps" "length (U s) \<le> 2" for p
  proof -
    have "linked (ps_nodes st) (p # P p) (W p)" using wired that sub unfolding wired_to_def by blast
    from linked_length [OF this] that lengths [OF that(1)] show ?thesis by simp
  qed
  have "ps_variables st s = map (\<lambda>p. last (p # P p)) ?ps"
    using short by (auto simp: vars open_ends_def Let_def intro!: map_idI [symmetric])
  then have "st' = fold (connect s u) (map (\<lambda>p. last (p # P p)) ?ps) st" by (simp add: st')
  from connects_wired [OF ok wired num sub(3) _ _ this] sub lengths obtain P'
    where P': "wired_to st0 (\<lambda>p. if p \<in> set ?ps then W p @ [u] else W p) P' (ps_nodes st')"
      "\<forall>r. r \<notin> set ?ps \<longrightarrow> P' r = P r"
      "ps_variables st' = (if ?ps = [] \<or> length (U s) < 2 then ps_variables st
        else (ps_variables st)(s := [last (last ?ps # P' (last ?ps))]))"
      "ps_node_num st' = length (ps_nodes st')" by blast
  have other: "p \<notin> set ?ps" if "p \<in> set (ps_variables st0 t)" "t \<noteq> s" for p t
    using that sub(1) parsed_apart [OF ok] by blast
  have "feeds st0 (U(s := U s @ [u])) (\<lambda>p. if p \<in> set ?ps then W p @ [u] else W p)"
    unfolding feeds_def
  proof (intro allI ballI)
    fix t p assume p: "p \<in> set (ps_variables st0 t)"
    then have old: "W p = (if p = last (ps_variables st0 t) then U t else take 3 (U t))"
      using feeds by (simp add: feeds_def)
    show "(if p \<in> set ?ps then W p @ [u] else W p) = (if p = last (ps_variables st0 t)
        then (U(s := U s @ [u])) t else take 3 ((U(s := U s @ [u])) t))"
    proof (cases "t = s")
      case True
      then show ?thesis using old p by (cases "length (U s) \<le> 2") auto
    qed (use old other [OF p] in simp)
  qed
  moreover have "ps_variables st' = open_ends st0 (U(s := U s @ [u])) P'"
  proof
    fix t
    show "ps_variables st' t = open_ends st0 (U(s := U s @ [u])) P' t"
    proof (cases "t = s")
      case True
      then show ?thesis using P'(3) by (auto simp: vars open_ends_def Let_def)
    next
      case False
      have "P' (last (ps_variables st0 t)) = P (last (ps_variables st0 t))" if "ps_variables st0 t \<noteq> []"
        using P'(2) other [OF last_in_set [OF that] False] by blast
      then show ?thesis using P'(3) False by (auto simp: vars open_ends_def Let_def)
    qed
  qed
  ultimately show ?thesis using P'(1,4) unfolding wiring_def by blast
qed

section \<open>The loop over the nodes\<close>

text \<open>The use of a variable that an input of a node is, if it is one, and the uses in the order of the loop.\<close>

definition use_at :: "byte list set \<Rightarrow> byte list \<Rightarrow> nat \<Rightarrow> node \<Rightarrow> nat \<Rightarrow> node_destination list" where
  "use_at labels s k n iv = (if input_at iv n = Some (Label s) \<and> s \<noteq> ascii ''_'' \<and> s \<notin> labels
     then [\<lparr>dst_node = k, dst_input = iv\<rparr>] else [])"

definition uses_before :: "nat \<Rightarrow> parse_state \<Rightarrow> byte list \<Rightarrow> node_destination list" where
  "uses_before k st s = concat (map (\<lambda>j. use_at (label_names st) s j (ps_nodes st ! j) 0
     @ use_at (label_names st) s j (ps_nodes st ! j) 1) [0..<k])"

definition uses_of :: "parse_state \<Rightarrow> byte list \<Rightarrow> node_destination list" where
  "uses_of st = uses_before (length (ps_nodes st)) st"

lemma wiring_modify:
  assumes "wiring st0 U st" and "\<And>n. dests (f n) = dests n"
  shows "wiring st0 U (modify_node k f st)"
proof -
  have "map dests (ps_nodes (modify_node k f st)) = map dests (ps_nodes st)"
    by (simp add: modify_node_def map_update assms(2)) (metis length_map list_update_beyond list_update_id not_le nth_map)
  with assms(1) wired_to_cong show ?thesis
    unfolding wiring_def by (fastforce simp: modify_node_def)
qed

lemma dests_same [simp]: "dests (clear_input iv n) = dests n" "dests (settle_literal n) = dests n"
  by (simp_all add: dests_def clear_input_def settle_literal_def)

lemma wiring_input:
  assumes "parsed st0" and "wiring st0 U st" and "nd_id (ps_nodes st ! k) = k"
  shows "wiring st0 (\<lambda>s. U s @ use_at (label_names st) s k (ps_nodes st ! k) iv) (wire_input iv k st)"
proof (cases "input_at iv (ps_nodes st ! k)")
  case (Some x)
  show ?thesis
  proof (cases x)
    case (Label t)
    let ?n = "ps_nodes st ! k"
    show ?thesis
    proof (cases "t \<noteq> ascii ''_'' \<and> t \<notin> label_names st")
      case True
      have "(\<lambda>s. U s @ use_at (label_names st) s k ?n iv) = U(t := U t @ [\<lparr>dst_node = k, dst_input = iv\<rparr>])"
        using True Some Label by (auto simp: use_at_def)
      moreover have "wire_input iv k st = fold (connect t \<lparr>dst_node = k, dst_input = iv\<rparr>)
          (ps_variables (modify_node k (clear_input iv) st) t) (modify_node k (clear_input iv) st)"
        using True Some Label assms(3) by (simp add: wire_input_def label_names_def modify_node_def)
      ultimately show ?thesis
        using wiring_use [OF assms(1) wiring_modify [OF assms(2), of "clear_input iv" k]] by simp
    next
      case False
      then have "(\<lambda>s. U s @ use_at (label_names st) s k ?n iv) = U"
        using Some Label by (auto simp: use_at_def)
      then show ?thesis
        using False Some Label assms(2) wiring_modify [OF assms(2), of "clear_input iv" k]
        by (auto simp: wire_input_def label_names_def)
    qed
  qed (use Some assms(2) in \<open>simp add: wire_input_def use_at_def\<close>)
qed (use assms(2) in \<open>simp add: wire_input_def use_at_def\<close>)

lemma input_at_bare: "bare n = bare m \<Longrightarrow> input_at iv n = input_at iv m"
  by (cases n; cases m) (simp add: bare_def input_at_def)

lemma id_bare: "bare n = bare m \<Longrightarrow> nd_id n = nd_id m"
  by (cases n; cases m) (simp add: bare_def)

lemma wiring_node:
  assumes "parsed st0" and "wiring st0 U st" and "k < length (ps_nodes st)" and "nd_id (ps_nodes st ! k) = k"
  shows "wiring st0 (\<lambda>s. U s @ use_at (label_names st) s k (ps_nodes st ! k) 0
    @ use_at (label_names st) s k (ps_nodes st ! k) 1) (wire_node k st)"
proof -
  let ?st1 = "wire_input 0 k st"
  note g = grown_wire_input [of k st 0]
  have b: "bare (ps_nodes ?st1 ! k) = bare (resolve (label_names st) 0 (ps_nodes st ! k))"
    using grown_nth [OF g, of k] assms(3) by (simp add: modify_node_def)
  have labels: "label_names ?st1 = label_names st"
    using g by (simp add: grown_def label_names_def modify_node_def)
  have "input_at 1 (ps_nodes ?st1 ! k) = input_at 1 (ps_nodes st ! k)" "nd_id (ps_nodes ?st1 ! k) = k"
    unfolding input_at_bare [OF b] id_bare [OF b] using assms(4)
    by (auto simp: resolve_def input_at_def clear_input_def split: option.splits operand.splits)
  then have "use_at (label_names ?st1) s k (ps_nodes ?st1 ! k) 1 = use_at (label_names st) s k (ps_nodes st ! k) 1"
    and "nd_id (ps_nodes ?st1 ! k) = k" for s
    by (simp_all add: use_at_def labels)
  with wiring_input [OF assms(1) wiring_input [OF assms(1,2,4), of 0] this(2), of 1]
  show ?thesis unfolding wire_node_def by (intro wiring_modify) simp_all
qed

text \<open>The state at the head of the loop.\<close>

definition wired_before :: "parse_state \<Rightarrow> nat \<Rightarrow> parse_state \<Rightarrow> bool" where
  "wired_before st0 k st \<longleftrightarrow> wiring st0 (uses_before k st0) st \<and> length (ps_nodes st0) \<le> length (ps_nodes st)
     \<and> map bare (ps_nodes st) = map (resolved (label_names st0) \<circ> bare) (take k (ps_nodes st0))
          @ map bare (drop k (ps_nodes st0)) @ map dup_node [length (ps_nodes st0)..<length (ps_nodes st)]
     \<and> ps_labels st = ps_labels st0 \<and> ps_external_references st = ps_external_references st0
     \<and> ps_exports st = ps_exports st0"

lemma on_bare_resolved: "bare (resolved labels n) = resolved labels (bare n)"
  using on_bare_resolve on_bare_settle by (simp add: resolved_def on_bare_def)

lemma wired_before_step:
  assumes ok: "parsed st0" and w: "wired_before st0 k st" and k: "k < length (ps_nodes st0)"
  shows "wired_before st0 (Suc k) (wire_node k st)"
proof -
  let ?N = "length (ps_nodes st0)" and ?L = "label_names st0"
  have k': "k < length (ps_nodes st)" and L: "label_names st = ?L" and num: "ps_node_num st = length (ps_nodes st)"
    using w k by (auto simp: wired_before_def label_names_def wiring_def)
  have "map bare (ps_nodes st) ! k = bare (ps_nodes st0 ! k)"
    using w k by (simp add: wired_before_def nth_append)
  then have b: "bare (ps_nodes st ! k) = bare (ps_nodes st0 ! k)" using k' by simp
  have "nd_id (ps_nodes st0 ! k) = k"
    using ok k unfolding parsed_def by (metis add_0 length_map nth_map nth_upt)
  then have id: "nd_id (ps_nodes st ! k) = k" using id_bare [OF b] by simp
  have "use_at ?L s k (ps_nodes st ! k) iv = use_at ?L s k (ps_nodes st0 ! k) iv" for s iv
    by (simp add: use_at_def input_at_bare [OF b])
  then have wires: "wiring st0 (uses_before (Suc k) st0) (wire_node k st)"
    using wiring_node [OF ok _ k' id] w by (simp add: wired_before_def L uses_before_def [abs_def])
  have g: "grown (modify_node k (resolved ?L) st) (wire_node k st)"
    using grown_wire_node [OF k'] by (simp add: L)
  have "map bare (ps_nodes (wire_node k st)) = (map bare (ps_nodes st)) [k := resolved ?L (bare (ps_nodes st0 ! k))]
      @ map dup_node [length (ps_nodes st)..<ps_node_num (wire_node k st)]"
    using g num by (simp add: grown_def modify_node_def map_update on_bare_resolved b)
  also have "(map bare (ps_nodes st)) [k := resolved ?L (bare (ps_nodes st0 ! k))]
      = map (resolved ?L \<circ> bare) (take (Suc k) (ps_nodes st0)) @ map bare (drop (Suc k) (ps_nodes st0))
        @ map dup_node [?N..<length (ps_nodes st)]"
    using w k by (simp add: wired_before_def list_update_append take_Suc_conv_app_nth Cons_nth_drop_Suc [symmetric])
  finally have m: "map bare (ps_nodes (wire_node k st)) = \<dots> @ map dup_node [length (ps_nodes st)..<ps_node_num (wire_node k st)]" .
  have num': "ps_node_num (wire_node k st) = length (ps_nodes (wire_node k st))"
    using grown_number [OF g] num by (simp add: modify_node_def)
  have le: "length (ps_nodes st) \<le> length (ps_nodes (wire_node k st))"
    using grown_length [OF g] by simp
  have "[?N..<length (ps_nodes st)] @ [length (ps_nodes st)..<length (ps_nodes (wire_node k st))]
      = [?N..<length (ps_nodes (wire_node k st))]"
    using upt_add_eq_append [of ?N "length (ps_nodes st)" "length (ps_nodes (wire_node k st)) - length (ps_nodes st)"] le w
    by (simp add: wired_before_def)
  then have "map bare (ps_nodes (wire_node k st)) = map (resolved ?L \<circ> bare) (take (Suc k) (ps_nodes st0))
      @ map bare (drop (Suc k) (ps_nodes st0)) @ map dup_node [?N..<length (ps_nodes (wire_node k st))]"
    unfolding m num' by (simp flip: map_append)
  with wires w le g show ?thesis by (simp add: wired_before_def grown_def modify_node_def)
qed

lemma wire_nodes_idle:
  assumes "\<And>i. k \<le> i \<Longrightarrow> i < length (ps_nodes st) \<Longrightarrow> \<not> has_input (ps_nodes st ! i)"
  shows "wire_nodes k st = st"
  using assms
proof (induction k st rule: wire_nodes.induct)
  case (1 k st)
  then show ?case by (subst wire_nodes.simps) (auto simp: wire_node_idle)
qed

lemma wired_after:
  assumes "parsed st0" and "wired_before st0 k st" and "k \<le> length (ps_nodes st0)"
  shows "wired_before st0 (length (ps_nodes st0)) (wire_nodes k st)"
  using assms(2,3)
proof (induction "length (ps_nodes st0) - k" arbitrary: k st)
  case 0
  let ?N = "length (ps_nodes st0)"
  have "\<not> has_input (ps_nodes st ! i)" if i: "?N \<le> i" "i < length (ps_nodes st)" for i
  proof -
    have "map bare (ps_nodes st) ! i = dup_node i"
      using 0 i by (simp add: wired_before_def nth_append)
    then have "has_input (bare (ps_nodes st ! i)) = has_input (dup_node i)" using i by simp
    then show ?thesis by (simp add: dup_node_def new_node_def) (simp add: has_input_def)
  qed
  with 0 show ?case by (subst wire_nodes_idle) auto
next
  case (Suc d)
  then have "k < length (ps_nodes st0)" "k < length (ps_nodes st)" by (auto simp: wired_before_def)
  with Suc wired_before_step [OF assms(1) Suc.prems(1)] show ?case by (subst wire_nodes.simps) simp
qed

lemma wired_nodes:
  assumes "parsed st"
  shows "wired_before st (length (ps_nodes st)) (wire_nodes 0 st)"
  by (rule wired_after [OF assms])
     (use assms wiring_start [OF assms] in \<open>simp_all add: wired_before_def uses_before_def [abs_def]\<close>)

end
