(* ===== verification/Assembler_Lines.thy ===== *)
theory Assembler_Lines
  imports Assembler_Chains
begin

text \<open>
  What the lines of a text leave behind: nodes numbered by their places, variables defined by nodes that
  lead nowhere yet and that are apart, and at most seven nodes, definitions and uses for each line.
\<close>

section \<open>Nodes and variables\<close>

lemma parsed_add_node:
  assumes "parsed st" and "nd_id n = ps_node_num st"
    and "\<And>f d. destination_at f n = Some d \<Longrightarrow> dst_node d < ps_node_num st \<and> dst_input d = 0"
  shows "parsed (add_node n st)"
  using assms unfolding parsed_def add_node_def
  by (auto simp: nth_append less_Suc_eq)

lemma parsed_define:
  assumes "parsed st" and "nd_id n = ps_node_num st" and "dests n = (None, None)"
  shows "parsed (define_variable s (add_node n st))"
proof -
  have "destination_at f n = None" for f using assms(3) by (cases f) (simp_all add: dests_def)
  then have "parsed (add_node n st)" by (intro parsed_add_node assms) simp
  moreover have "length (ps_nodes st) \<notin> set (ps_variables st t)" for t
    using assms(1) by (auto simp: parsed_def)
  ultimately show ?thesis
    using assms(1,3) unfolding parsed_def define_variable_def by (auto simp: add_node_def)
qed

lemma set_alist_update: "set (AList.update k v al) \<subseteq> insert (k, v) (set al)"
  by (induction al) auto

lemma parsed_attach: "parsed st \<Longrightarrow> k < length (ps_nodes st) \<Longrightarrow> parsed (attach_label k st)"
  using set_alist_update [of _ k "ps_labels st"]
  by (fastforce simp: attach_label_def parsed_def split: option.splits)

lemma parsed_extern:
  "parsed st \<Longrightarrow> parsed (st\<lparr>ps_external_references := AList.update name [] (ps_external_references st)\<rparr>)"
  using set_alist_update [of name "[]" "ps_external_references st"]
  by (fastforce simp: parsed_def distinct_update)

text \<open>How much there is to wire.\<close>

definition input_count :: "node \<Rightarrow> nat" where
  "input_count n = (if nd_input_1 n = None then 0 else 1) + (if nd_input_2 n = None then 0 else 1)"

definition lines_size :: "parse_state \<Rightarrow> nat" where
  "lines_size st = length (ps_nodes st) + sum_list (map input_count (ps_nodes st)) + card (definers st)"

lemma size_add_node: "lines_size (add_node n st) = lines_size st + 1 + input_count n"
  by (simp add: lines_size_def add_node_def definers_def)

lemma size_define: "lines_size (define_variable s st) \<le> lines_size st + 1"
proof -
  have "definers (define_variable s st) = insert (length (ps_nodes st) - 1) (definers st)"
    by (auto simp: definers_def define_variable_def split: if_splits)
  then show ?thesis by (simp add: lines_size_def define_variable_def card_insert_le_m1 le_SucI card_insert_if)
qed

lemma size_attach [simp]: "lines_size (attach_label k st) = lines_size st"
  by (simp add: lines_size_def attach_label_def definers_def split: option.splits)

section \<open>Lines\<close>

lemma length_attach [simp]: "length (ps_nodes (attach_label k st)) = length (ps_nodes st)"
  by (simp add: attach_label_def split: option.splits)

lemma number_add [simp]: "ps_node_num (add_node n st) = ps_node_num st + 1"
  and number_define [simp]: "ps_node_num (define_variable s st) = ps_node_num st"
  and length_add [simp]: "length (ps_nodes (add_node n st)) = length (ps_nodes st) + 1"
  and length_define [simp]: "length (ps_nodes (define_variable s st)) = length (ps_nodes st)"
  by (simp_all add: add_node_def define_variable_def)

lemma parsed_number: "parsed st \<Longrightarrow> ps_node_num st = length (ps_nodes st)"
  by (simp add: parsed_def)

lemma input_count_new: "input_count (new_node opc k i1 i2 d1 d2 opt) \<le> 2"
  by (simp add: input_count_def)

text \<open>One line.\<close>

definition line_done :: "parse_state \<Rightarrow> parse_state \<Rightarrow> bool" where
  "line_done st st' \<longleftrightarrow> parsed st' \<and> lines_size st' \<le> lines_size st + 7"

lemma assignment_done:
  assumes "parsed st" and "parse_assignment args st = Some st'"
  shows "line_done st st'"
proof -
  from assms(2) obtain opc i1 i2 s
    where st': "st' = attach_label (ps_node_num st) (define_variable s
      (add_node (new_node opc (ps_node_num st) i1 i2 None None False) st))"
    by (auto simp: parse_assignment_def bind_eq_Some_conv Let_def split: if_splits)
  let ?n = "new_node opc (ps_node_num st) i1 i2 None None False"
  have "parsed (define_variable s (add_node ?n st))"
    by (rule parsed_define [OF assms(1)]) (simp_all add: new_node_def dests_def)
  then have "parsed st'" unfolding st' by (rule parsed_attach) (simp add: parsed_number [OF assms(1)])
  moreover have "lines_size st' \<le> lines_size st + 7"
    using size_define [of s "add_node ?n st"] input_count_new [of opc "ps_node_num st" i1 i2 None None False]
    by (simp add: st' size_add_node)
  ultimately show ?thesis by (simp add: line_done_def)
qed

lemma output_done:
  assumes "parsed st" and "parse_output args st = Some st'"
  shows "line_done st st'"
proof -
  from assms(2) obtain opc i1
    where st': "st' = attach_label (ps_node_num st) (add_node (new_node opc (ps_node_num st) i1 None None None False) st)"
    by (auto simp: parse_output_def bind_eq_Some_conv split: if_splits)
  let ?n = "new_node opc (ps_node_num st) i1 None None None False"
  have "destination_at f ?n = None" for f by (cases f) (simp_all add: new_node_def)
  then have "parsed (add_node ?n st)"
    by (intro parsed_add_node [OF assms(1)]) (simp_all add: new_node_def)
  then have "parsed st'" unfolding st' by (rule parsed_attach) (simp add: parsed_number [OF assms(1)])
  then show ?thesis
    using input_count_new [of opc "ps_node_num st" i1 None None None False]
    by (simp add: line_done_def st' size_add_node)
qed

lemma branch_output_done:
  assumes "parsed st"
  shows "parsed (branch_output s st)" and "lines_size (branch_output s st) \<le> lines_size st + 2"
    and "ps_node_num (branch_output s st) = ps_node_num st + 1"
proof -
  let ?n = "new_node DUP_OPCODE (ps_node_num st) None None None None True"
  show "parsed (branch_output s st)"
    unfolding branch_output_def by (rule parsed_define [OF assms]) (simp_all add: new_node_def dests_def)
  have "input_count ?n = 0" by (simp add: input_count_def new_node_def)
  then show "lines_size (branch_output s st) \<le> lines_size st + 2"
    using size_define [of "strip (\<lambda>b. b = 44) s" "add_node ?n st"]
    by (simp add: branch_output_def size_add_node)
  show "ps_node_num (branch_output s st) = ps_node_num st + 1" by (simp add: branch_output_def)
qed

lemma branch_done:
  assumes "parsed st" and "parse_branch args st = Some st'"
  shows "line_done st st'"
proof -
  let ?st1 = "branch_output (args ! 0) st"
  let ?st2 = "branch_output (args ! 1) ?st1"
  from assms(2) obtain opc i1 i2
    where st': "st' = attach_label (ps_node_num ?st2) (add_node (new_node opc (ps_node_num ?st2) i1 i2
      (Some \<lparr>dst_node = ps_node_num st, dst_input = 0\<rparr>)
      (Some \<lparr>dst_node = ps_node_num ?st1, dst_input = 0\<rparr>) False) ?st2)"
    by (auto simp: parse_branch_def bind_eq_Some_conv Let_def)
  let ?n = "new_node opc (ps_node_num ?st2) i1 i2 (Some \<lparr>dst_node = ps_node_num st, dst_input = 0\<rparr>)
      (Some \<lparr>dst_node = ps_node_num ?st1, dst_input = 0\<rparr>) False"
  note first = branch_output_done [OF assms(1), of "args ! 0"]
  note second = branch_output_done [OF first(1), of "args ! 1"]
  have leads: "dst_node d < ps_node_num ?st2 \<and> dst_input d = 0" if "destination_at f ?n = Some d" for f d
    using that first(3) second(3) by (cases f) (auto simp: new_node_def)
  have "parsed (add_node ?n ?st2)"
    by (rule parsed_add_node [OF second(1) _ leads]) (simp_all add: new_node_def)
  then have "parsed st'" unfolding st' by (rule parsed_attach) (use parsed_number [OF second(1)] in simp)
  moreover have "lines_size st' = lines_size ?st2 + 1 + input_count ?n" by (simp add: st' size_add_node)
  moreover have "input_count ?n \<le> 2" by (rule input_count_new)
  ultimately show ?thesis using first(2) second(2) unfolding line_done_def by linarith
qed

lemma line_done_same:
  assumes "parsed st" and "ps_nodes st' = ps_nodes st" and "ps_variables st' = ps_variables st"
    and "ps_node_num st' = ps_node_num st" and "ps_labels st' = ps_labels st"
    and "ps_external_references st' = ps_external_references st"
  shows "line_done st st'"
  using assms by (simp add: line_done_def parsed_def lines_size_def definers_def)

lemma parse_line_done:
  assumes "parsed st" and "parse_line line st = Some st'"
  shows "line_done st st'"
proof -
  have label: "line_done st st'" if "parse_label l st = Some st'" for l
    using that by (intro line_done_same [OF assms(1)])
      (auto simp: parse_label_def Let_def split: if_splits)
  have export: "line_done st st'" if "parse_export args st = Some st'" for args
    using that by (intro line_done_same [OF assms(1)])
      (auto simp: parse_export_def bind_eq_Some_conv split: if_splits)
  have extern: "line_done st st'" if "parse_extern args st = Some st'" for args
    using that parsed_extern [OF assms(1)]
    by (auto simp: parse_extern_def bind_eq_Some_conv line_done_def lines_size_def definers_def)
  show ?thesis
    using assms(2) label export extern assignment_done [OF assms(1)] output_done [OF assms(1)]
      branch_done [OF assms(1)] line_done_same [OF assms(1), of st]
    by (auto simp: parse_line_def Let_def bind_eq_Some_conv split: if_splits)
qed

lemma parse_lines_done:
  assumes "parsed st" and "parse_lines lines st = Some st'"
  shows "parsed st' \<and> lines_size st' \<le> lines_size st + 7 * length lines"
  using assms
proof (induction lines arbitrary: st)
  case (Cons line lines)
  then obtain st1 where "parse_line line st = Some st1" "parse_lines lines st1 = Some st'"
    by (auto simp: bind_eq_Some_conv)
  with Cons parse_line_done [of st line st1] show ?case by (fastforce simp: line_done_def)
qed simp

lemma parsed_empty: "parsed empty_parse" and size_empty: "lines_size empty_parse = 0"
  by (simp_all add: parsed_def empty_parse_def lines_size_def definers_def)

lemma parsed_text:
  assumes "parse_lines (text_lines input) empty_parse = Some st"
  shows "parsed st" and "lines_size st \<le> 7 * length (text_lines input)"
  using parse_lines_done [OF parsed_empty assms] size_empty by simp_all

end
