(* ===== verification/Assembler_Work.thy ===== *)
theory Assembler_Work
  imports Assembler "HOL-Library.Sublist"
begin

text \<open>
  The loops of graph_to_instructions: nodes are numbered in the order they are met, and after the loops
  the instruction of each is finished, with the entries of the tables in the order of the instructions.
\<close>

section \<open>What the loops compute\<close>

text \<open>
  Where a node is before it is visited, and what its fields are afterwards, given the numbers of all
  nodes.
\<close>

definition raw_instruction :: "node \<Rightarrow> asm_instruction" where
  "raw_instruction n = \<lparr>ai_opcode = nd_opcode n, ai_destination_1 = None, ai_destination_2 = None,
     ai_literal_1 = nd_input_1 n, ai_literal_2 = nd_input_2 n\<rparr>"

definition device_of :: "node \<Rightarrow> int option" where
  "device_of n = (if nd_opcode n = OUTD_OPCODE then Some asm_OUTPUTD
     else if nd_opcode n = OUTS_OPCODE then Some asm_OUTPUTS else None)"

definition wired :: "graph \<Rightarrow> (nat \<Rightarrow> nat option) \<Rightarrow> node \<Rightarrow> dest_field \<Rightarrow> int option" where
  "wired g idx n f = (case destination_at f n of
       None \<Rightarrow> None
     | Some d \<Rightarrow> do {
         target \<leftarrow> find_node g (dst_node d);
         case device_of target of
           Some v \<Rightarrow> Some v
         | None \<Rightarrow> do {
             j \<leftarrow> idx (dst_node d);
             matching \<leftarrow> matching_of target;
             Some (create_destination (int j) (dst_input d) matching) } })"

definition finished_instruction :: "graph \<Rightarrow> (nat \<Rightarrow> nat option) \<Rightarrow> node \<Rightarrow> asm_instruction" where
  "finished_instruction g idx n = \<lparr>ai_opcode = nd_opcode n,
     ai_destination_1 = wired g idx n Destination_1, ai_destination_2 = wired g idx n Destination_2,
     ai_literal_1 = (case label_of g (nd_input_1 n) of
         None \<Rightarrow> nd_input_1 n
       | Some target \<Rightarrow> map_option (\<lambda>j. Literal (create_destination (int j) 0 0)) (idx target)),
     ai_literal_2 = nd_input_2 n\<rparr>"

text \<open>Every destination and label of the node has a number.\<close>

definition settled :: "graph \<Rightarrow> (nat \<Rightarrow> nat option) \<Rightarrow> node \<Rightarrow> bool" where
  "settled g idx n \<longleftrightarrow>
     (\<forall>f. destination_at f n \<noteq> None \<longrightarrow> wired g idx n f \<noteq> None)
     \<and> (\<forall>target. label_of g (nd_input_1 n) = Some target \<longrightarrow> idx target \<noteq> None)
     \<and> label_of g (nd_input_2 n) = None"

definition is_device :: "graph \<Rightarrow> node \<Rightarrow> dest_field \<Rightarrow> bool" where
  "is_device g n f \<longleftrightarrow> (\<exists>d target. destination_at f n = Some d \<and> find_node g (dst_node d) = Some target
     \<and> device_of target \<noteq> None)"

definition constants_of :: "graph \<Rightarrow> node \<Rightarrow> nat \<Rightarrow> DestinationToUpdate list" where
  "constants_of g n i = (if is_device g n Destination_1 then [constant_update i Destination_1] else [])
     @ (if is_device g n Destination_2 then [constant_update i Destination_2] else [])"

definition labels_of :: "graph \<Rightarrow> node \<Rightarrow> nat \<Rightarrow> DestinationToUpdate list" where
  "labels_of g n i = (if label_of g (nd_input_1 n) = None then []
     else [(blank_update i)\<lparr>up_is_first_literal := True\<rparr>])"

definition externals_of :: "graph \<Rightarrow> node \<Rightarrow> nat \<Rightarrow> (DestinationToUpdate \<times> byte list) list" where
  "externals_of g n i = (case extern_of g (nd_id n) of None \<Rightarrow> []
     | Some extern \<Rightarrow> [((blank_update i)\<lparr>up_is_first_destination := True\<rparr>, extern)])"

text \<open>\<open>keys\<close> are the nodes with a number, in the order of their numbers.\<close>

definition asm_ok :: "graph \<Rightarrow> node list \<Rightarrow> asm_state \<Rightarrow> bool" where
  "asm_ok g keys st \<longleftrightarrow> distinct (map nd_id keys) \<and> length (as_instructions st) = length keys
     \<and> (\<forall>n\<in>set keys. find_node g (nd_id n) = Some n \<and> nd_opcode n \<notin> set SPECIAL_OPCODES)
     \<and> (\<forall>i<length keys. as_idx st (nd_id (keys ! i)) = Some i)
     \<and> dom (as_idx st) = nd_id ` set keys"

lemma special_iff: "nd_opcode n \<in> set SPECIAL_OPCODES \<longleftrightarrow> device_of n \<noteq> None"
  by (auto simp: device_of_def SPECIAL_OPCODES_def)

lemma node_to_instruction_raw:
  "node_to_instruction n = (if nd_opcode n \<in> set SPECIAL_OPCODES then None else Some (raw_instruction n))"
  by (simp add: node_to_instruction_def raw_instruction_def)

lemma append_node_ok:
  assumes "asm_ok g keys st" and "find_node g (nd_id n) = Some n" and "as_idx st (nd_id n) = None"
    and "nd_opcode n \<notin> set SPECIAL_OPCODES"
  shows "asm_ok g (keys @ [n]) (append_node (nd_id n) inst st)"
proof -
  have "nd_id n \<notin> dom (as_idx st)" using assms(3) by (simp add: domIff)
  then have fresh: "nd_id n \<notin> nd_id ` set keys" using assms(1) unfolding asm_ok_def by metis
  then have "nd_id (keys ! i) \<noteq> nd_id n" if "i < length keys" for i using that by (metis image_eqI nth_mem)
  with assms fresh show ?thesis
    by (auto simp: asm_ok_def append_node_def nth_append less_Suc_eq)
qed

text \<open>What a state shares with the one before it, except for one instruction.\<close>

definition same_tables :: "asm_state \<Rightarrow> asm_state \<Rightarrow> bool" where
  "same_tables st st' \<longleftrightarrow> as_labels st' = as_labels st
     \<and> as_external_references st' = as_external_references st \<and> as_idx st \<subseteq>\<^sub>m as_idx st'"

fun put_destination :: "dest_field \<Rightarrow> int option \<Rightarrow> asm_instruction \<Rightarrow> asm_instruction" where
  "put_destination f None inst = inst"
| "put_destination f (Some v) inst = set_destination f v inst"

lemma visit_destination_spec:
  assumes step: "visit_destination g n i f st = Some st'" and ok: "asm_ok g keys st" and i: "i < length keys"
  shows "\<exists>new. asm_ok g (keys @ new) st' \<and> as_to_visit st' = as_to_visit st @ map nd_id new
    \<and> as_instructions st' = (as_instructions st @ map raw_instruction new)
         [i := put_destination f (wired g (as_idx st') n f) (as_instructions st ! i)]
    \<and> as_constants st' = as_constants st @ (if is_device g n f then [constant_update i f] else [])
    \<and> same_tables st st' \<and> (destination_at f n \<noteq> None \<longrightarrow> wired g (as_idx st') n f \<noteq> None)"
proof (cases "destination_at f n")
  case None
  with step ok i show ?thesis
    by (intro exI [of _ "[]"]) (auto simp: visit_destination_def wired_def is_device_def same_tables_def)
next
  case (Some d)
  with step obtain target where target: "find_node g (dst_node d) = Some target"
    by (auto simp: visit_destination_def bind_eq_Some_conv)
  show ?thesis
  proof (cases "device_of target")
    case (Some v)
    have len: "i < length (as_instructions st)" using ok i by (simp add: asm_ok_def)
    have "st' = write_destination i f v (st\<lparr>as_constants := as_constants st @ [constant_update i f]\<rparr>)"
      using step Some \<open>destination_at f n = Some d\<close> target
      by (auto simp: visit_destination_def device_of_def split: if_splits)
    with Some \<open>destination_at f n = Some d\<close> target ok len show ?thesis
      by (intro exI [of _ "[]"])
        (auto simp: wired_def is_device_def same_tables_def write_destination_def asm_ok_def)
  next
    case None
    from step obtain st1 matching j where
      st1: "(if as_idx st (dst_node d) \<noteq> None then Some st
        else do { inst \<leftarrow> node_to_instruction target; Some (append_node (dst_node d) inst st) }) = Some st1"
      and m: "matching_of target = Some matching" and j: "as_idx st1 (dst_node d) = Some j"
      and st': "st' = write_destination i f (create_destination (int j) (dst_input d) matching) st1"
      using None \<open>destination_at f n = Some d\<close> target
      by (auto simp: visit_destination_def device_of_def bind_eq_Some_conv split: if_splits)
    have id: "nd_id target = dst_node d" using find_node_Some [OF target] by simp
    have "\<exists>new. asm_ok g (keys @ new) st1 \<and> as_to_visit st1 = as_to_visit st @ map nd_id new
      \<and> as_instructions st1 = as_instructions st @ map raw_instruction new
      \<and> as_constants st1 = as_constants st \<and> same_tables st st1"
    proof (cases "as_idx st (dst_node d)")
      case (Some k)
      with st1 ok show ?thesis by (intro exI [of _ "[]"]) (auto simp: same_tables_def)
    next
      case idx: None
      from None have special: "nd_opcode target \<notin> set SPECIAL_OPCODES" by (simp add: special_iff)
      with st1 idx have st1: "st1 = append_node (nd_id target) (raw_instruction target) st"
        by (simp add: node_to_instruction_raw id)
      from append_node_ok [OF ok _ _ special, of "raw_instruction target"] target idx
      show ?thesis
        by (intro exI [of _ "[target]"])
          (auto simp: st1 id append_node_def same_tables_def map_le_def)
    qed
    then obtain new where new: "asm_ok g (keys @ new) st1" "as_to_visit st1 = as_to_visit st @ map nd_id new"
      "as_instructions st1 = as_instructions st @ map raw_instruction new"
      "as_constants st1 = as_constants st" "same_tables st st1" by blast
    have len: "i < length (as_instructions st)" using ok i by (simp add: asm_ok_def)
    have "wired g (as_idx st') n f = Some (create_destination (int j) (dst_input d) matching)"
      using None \<open>destination_at f n = Some d\<close> target m j by (simp add: wired_def st' write_destination_def)
    moreover have "\<not> is_device g n f" using None \<open>destination_at f n = Some d\<close> target by (simp add: is_device_def)
    ultimately show ?thesis
      using new len
      by (intro exI [of _ new]) (auto simp: st' write_destination_def asm_ok_def same_tables_def nth_append)
  qed
qed

lemma same_tables_trans: "same_tables st st1 \<Longrightarrow> same_tables st1 st2 \<Longrightarrow> same_tables st st2"
  by (auto simp: same_tables_def intro: map_le_trans)

lemma map_le_Some: "m \<subseteq>\<^sub>m m' \<Longrightarrow> m k = Some v \<Longrightarrow> m' k = Some v"
  by (metis domI map_le_def)

lemma wired_stable:
  assumes "idx \<subseteq>\<^sub>m idx'" and "wired g idx n f = Some v"
  shows "wired g idx' n f = Some v"
  using assms
  by (auto simp: wired_def bind_eq_Some_conv map_le_def domIff split: option.splits) force+

lemma settled_stable:
  assumes "idx \<subseteq>\<^sub>m idx'" and "settled g idx n"
  shows "settled g idx' n" and "finished_instruction g idx' n = finished_instruction g idx n"
proof -
  have field: "wired g idx' n f = wired g idx n f" for f
  proof (cases "destination_at f n")
    case (Some d)
    with assms(2) obtain v where "wired g idx n f = Some v" by (auto simp: settled_def)
    with wired_stable [OF assms(1) this] show ?thesis by simp
  qed (simp add: wired_def)
  have target: "idx' target = idx target" if "label_of g (nd_input_1 n) = Some target" for target
  proof -
    from assms(2) that obtain j where "idx target = Some j" by (auto simp: settled_def)
    with map_le_Some [OF assms(1) this] show ?thesis by simp
  qed
  show "settled g idx' n" using assms(2) field target by (auto simp: settled_def)
  show "finished_instruction g idx' n = finished_instruction g idx n"
    using field target by (auto simp: finished_instruction_def split: option.splits)
qed

lemma visit_node_spec:
  assumes step: "visit_node g (nd_id n) st = Some st'" and ok: "asm_ok g keys st"
    and i: "i < length keys" "keys ! i = n" and raw: "as_instructions st ! i = raw_instruction n"
  shows "\<exists>new. asm_ok g (keys @ new) st' \<and> as_to_visit st' = as_to_visit st @ map nd_id new
    \<and> as_instructions st' = (as_instructions st @ map raw_instruction new)
         [i := finished_instruction g (as_idx st') n]
    \<and> settled g (as_idx st') n \<and> as_idx st \<subseteq>\<^sub>m as_idx st'
    \<and> as_constants st' = as_constants st @ constants_of g n i
    \<and> as_labels st' = as_labels st @ labels_of g n i
    \<and> as_external_references st' = as_external_references st @ externals_of g n i"
proof -
  have find: "find_node g (nd_id n) = Some n" and idx: "as_idx st (nd_id n) = Some i"
    using ok i by (auto simp: asm_ok_def)
  from step find idx obtain st1 st2 st3 where
    1: "visit_label g n i st = Some st1"
    and 2: "visit_destination g n i Destination_1 st1 = Some st2"
    and 3: "visit_destination g n i Destination_2 st2 = Some st3"
    and st': "st' = visit_extern g (nd_id n) i st3" and second: "label_of g (nd_input_2 n) = None"
    by (auto simp: visit_node_def bind_eq_Some_conv split: if_splits)
  have len: "length (as_instructions st) = length keys" using ok by (simp add: asm_ok_def)
  define lit where "lit = (case label_of g (nd_input_1 n) of None \<Rightarrow> nd_input_1 n
    | Some target \<Rightarrow> map_option (\<lambda>j. Literal (create_destination (int j) 0 0)) (as_idx st target))"
  have st1: "as_instructions st1 = (as_instructions st)[i := (raw_instruction n)\<lparr>ai_literal_1 := lit\<rparr>]"
    "as_labels st1 = as_labels st @ labels_of g n i" "as_constants st1 = as_constants st"
    "as_external_references st1 = as_external_references st" "as_idx st1 = as_idx st"
    "as_to_visit st1 = as_to_visit st"
    and labelled: "\<forall>target. label_of g (nd_input_1 n) = Some target \<longrightarrow> as_idx st target \<noteq> None"
    using 1 raw i(1) len
    by (auto simp: visit_label_def labels_of_def lit_def raw_instruction_def bind_eq_Some_conv
        intro: list_update_same_conv [THEN iffD2, symmetric] split: option.splits)
  have ok1: "asm_ok g keys st1" using ok by (simp add: asm_ok_def st1)
  from visit_destination_spec [OF 2 ok1 i(1)] obtain new1 where
    n1: "asm_ok g (keys @ new1) st2" "as_to_visit st2 = as_to_visit st1 @ map nd_id new1"
    "as_instructions st2 = (as_instructions st1 @ map raw_instruction new1)
       [i := put_destination Destination_1 (wired g (as_idx st2) n Destination_1) (as_instructions st1 ! i)]"
    "as_constants st2 = as_constants st1 @ (if is_device g n Destination_1 then [constant_update i Destination_1] else [])"
    "same_tables st1 st2"
    "destination_at Destination_1 n \<noteq> None \<longrightarrow> wired g (as_idx st2) n Destination_1 \<noteq> None" by blast
  have "i < length (keys @ new1)" using i(1) by simp
  from visit_destination_spec [OF 3 n1(1) this] obtain new2 where
    n2: "asm_ok g ((keys @ new1) @ new2) st3" "as_to_visit st3 = as_to_visit st2 @ map nd_id new2"
    "as_instructions st3 = (as_instructions st2 @ map raw_instruction new2)
       [i := put_destination Destination_2 (wired g (as_idx st3) n Destination_2) (as_instructions st2 ! i)]"
    "as_constants st3 = as_constants st2 @ (if is_device g n Destination_2 then [constant_update i Destination_2] else [])"
    "same_tables st2 st3"
    "destination_at Destination_2 n \<noteq> None \<longrightarrow> wired g (as_idx st3) n Destination_2 \<noteq> None" by blast
  have le: "as_idx st \<subseteq>\<^sub>m as_idx st3" "as_idx st2 \<subseteq>\<^sub>m as_idx st3"
    using n1(5) n2(5) st1(5) by (auto simp: same_tables_def intro: map_le_trans)
  have one: "wired g (as_idx st2) n Destination_1 = wired g (as_idx st3) n Destination_1"
  proof (cases "wired g (as_idx st2) n Destination_1")
    case None
    with n1(6) have "destination_at Destination_1 n = None" by simp
    then show ?thesis by (simp add: wired_def)
  qed (use wired_stable [OF le(2)] in simp)
  have lit3: "lit = (case label_of g (nd_input_1 n) of None \<Rightarrow> nd_input_1 n
    | Some target \<Rightarrow> map_option (\<lambda>j. Literal (create_destination (int j) 0 0)) (as_idx st3 target))"
    using labelled map_le_Some [OF le(1)] by (fastforce simp: lit_def split: option.splits)
  have rest: "as_instructions st' = as_instructions st3" "as_idx st' = as_idx st3"
    "as_to_visit st' = as_to_visit st3" "as_constants st' = as_constants st3" "as_labels st' = as_labels st3"
    "as_external_references st' = as_external_references st3 @ externals_of g n i"
    by (simp_all add: st' visit_extern_def externals_of_def split: option.splits)
  have "put_destination Destination_2 (wired g (as_idx st3) n Destination_2)
      (put_destination Destination_1 (wired g (as_idx st3) n Destination_1)
        ((raw_instruction n)\<lparr>ai_literal_1 := lit\<rparr>)) = finished_instruction g (as_idx st3) n"
    unfolding lit3
    by (cases "wired g (as_idx st3) n Destination_1"; cases "wired g (as_idx st3) n Destination_2")
      (simp_all add: finished_instruction_def raw_instruction_def)
  then have "as_instructions st' = (as_instructions st @ map raw_instruction (new1 @ new2))
      [i := finished_instruction g (as_idx st') n]"
    using i(1) len by (simp add: rest n2(3) n1(3) st1(1) one nth_append list_update_append)
  moreover have "settled g (as_idx st') n"
    unfolding settled_def rest
  proof (intro conjI allI impI second)
    fix f
    assume "destination_at f n \<noteq> None"
    then show "wired g (as_idx st3) n f \<noteq> None" using n1(6) n2(6) one by (cases f) auto
  next
    fix target
    assume "label_of g (nd_input_1 n) = Some target"
    then show "as_idx st3 target \<noteq> None" using labelled map_le_Some [OF le(1)] by fastforce
  qed
  moreover have "asm_ok g (keys @ (new1 @ new2)) st'" using n2(1) by (simp add: asm_ok_def rest)
  ultimately show ?thesis
    using n1 n2 st1 le
    by (intro exI [of _ "new1 @ new2"]) (simp add: rest constants_of_def same_tables_def)
qed

text \<open>The state after \<open>v\<close> rounds: the first \<open>v\<close> nodes are finished, the others wait.\<close>

definition asm_done :: "graph \<Rightarrow> node list \<Rightarrow> nat \<Rightarrow> asm_state \<Rightarrow> bool" where
  "asm_done g keys v st \<longleftrightarrow> asm_ok g keys st \<and> v \<le> length keys
     \<and> as_to_visit st = map nd_id (drop v keys)
     \<and> (\<forall>i<v. as_instructions st ! i = finished_instruction g (as_idx st) (keys ! i)
          \<and> settled g (as_idx st) (keys ! i))
     \<and> (\<forall>i. v \<le> i \<and> i < length keys \<longrightarrow> as_instructions st ! i = raw_instruction (keys ! i))
     \<and> as_constants st = concat (map (\<lambda>i. constants_of g (keys ! i) i) [0..<v])
     \<and> as_labels st = concat (map (\<lambda>i. labels_of g (keys ! i) i) [0..<v])
     \<and> as_external_references st = concat (map (\<lambda>i. externals_of g (keys ! i) i) [0..<v])"

lemma concat_keys:
  assumes "v \<le> length keys"
  shows "concat (map (\<lambda>i. f ((keys @ new) ! i) i) [0..<v]) = concat (map (\<lambda>i. f (keys ! i) i) [0..<v])"
  using assms by (intro arg_cong [where f = concat] map_cong) (auto simp: nth_append)

lemma visit_node_done:
  assumes fin: "asm_done g keys v st" and more: "v < length keys"
    and step: "visit_node g (nd_id (keys ! v)) (st\<lparr>as_to_visit := map nd_id (drop (Suc v) keys)\<rparr>) = Some st'"
  shows "\<exists>new. asm_done g (keys @ new) (Suc v) st'"
proof -
  let ?st = "st\<lparr>as_to_visit := map nd_id (drop (Suc v) keys)\<rparr>"
  have ok: "asm_ok g keys ?st" using fin by (simp add: asm_done_def asm_ok_def)
  have raw: "as_instructions ?st ! v = raw_instruction (keys ! v)" using fin more by (simp add: asm_done_def)
  from visit_node_spec [OF step ok more refl raw] obtain new where
    new: "asm_ok g (keys @ new) st'" "as_to_visit st' = map nd_id (drop (Suc v) keys) @ map nd_id new"
    "as_instructions st' = (as_instructions st @ map raw_instruction new)
       [v := finished_instruction g (as_idx st') (keys ! v)]"
    "settled g (as_idx st') (keys ! v)" and le: "as_idx st \<subseteq>\<^sub>m as_idx st'"
    and tables: "as_constants st' = as_constants st @ constants_of g (keys ! v) v"
    "as_labels st' = as_labels st @ labels_of g (keys ! v) v"
    "as_external_references st' = as_external_references st @ externals_of g (keys ! v) v"
    by auto
  have len: "length (as_instructions st) = length keys" using fin by (simp add: asm_done_def asm_ok_def)
  have "as_instructions st' ! i = finished_instruction g (as_idx st') (keys ! i) \<and> settled g (as_idx st') (keys ! i)"
    if "i < Suc v" for i
  proof (cases "i = v")
    case True
    with new(3,4) more len show ?thesis by simp
  next
    case False
    with that have "i < v" by simp
    with fin have "as_instructions st ! i = finished_instruction g (as_idx st) (keys ! i)"
      "settled g (as_idx st) (keys ! i)" by (simp_all add: asm_done_def)
    with settled_stable [OF le, of g "keys ! i"] new(3) \<open>i < v\<close> more len show ?thesis
      by (simp add: nth_append)
  qed
  moreover have "as_instructions st' ! i = raw_instruction ((keys @ new) ! i)"
    if "Suc v \<le> i" "i < length (keys @ new)" for i
    using that new(3) fin len by (auto simp: asm_done_def nth_append)
  ultimately show ?thesis
    using new(1,2) fin more tables
    by (intro exI [of _ new]) (simp add: asm_done_def nth_append concat_keys [unfolded nth_append])
qed

lemma visit_nodes_done:
  assumes "asm_done g keys v st" and "visit_nodes g st = Some st'"
  shows "\<exists>new. asm_done g (keys @ new) (length (keys @ new)) st'"
  using assms
proof (induction g st arbitrary: keys v rule: visit_nodes.induct)
  case (1 g st)
  show ?case
  proof (cases "v = length keys")
    case True
    with "1.prems" have "st' = st" by (simp add: visit_nodes.simps [of g st] asm_done_def)
    with "1.prems"(1) True show ?thesis by (intro exI [of _ "[]"]) simp
  next
    case False
    with "1.prems"(1) have v: "v < length keys" by (simp add: asm_done_def)
    then have visit: "as_to_visit st = nd_id (keys ! v) # map nd_id (drop (Suc v) keys)"
      using "1.prems"(1) by (simp add: asm_done_def Cons_nth_drop_Suc [symmetric])
    with "1.prems"(2) obtain st1 where
      step: "visit_node g (nd_id (keys ! v)) (st\<lparr>as_to_visit := map nd_id (drop (Suc v) keys)\<rparr>) = Some st1"
      and rest: "visit_nodes g st1 = Some st'"
      by (auto simp: visit_nodes.simps [of g st] split: option.splits)
    from visit_node_done [OF "1.prems"(1) v step] obtain new where "asm_done g (keys @ new) (Suc v) st1" ..
    from "1.IH" [OF visit step this rest] obtain newer where
      "asm_done g ((keys @ new) @ newer) (length ((keys @ new) @ newer)) st'" ..
    then show ?thesis by (intro exI [of _ "new @ newer"]) simp
  qed
qed

text \<open>
  The graphs the parser makes: a list of different nodes, one object for each id, with inputs one and two
  only, and with labels for nodes.
\<close>

definition graph_ok :: "graph \<Rightarrow> bool" where
  "graph_ok g \<longleftrightarrow> distinct (gr_nodes g) \<and> distinct (map nd_id (gr_objects g))
     \<and> (\<forall>n\<in>set (gr_objects g). \<forall>f\<in>{Destination_1, Destination_2}.
       case destination_at f n of None \<Rightarrow> True | Some d \<Rightarrow> dst_input d \<le> 1)
     \<and> (\<forall>(l, k)\<in>set (gr_labels g). find_node g k \<noteq> None)"

lemma collect_nodes_done:
  assumes "collect_nodes g ks st = Some st'" and "asm_done g keys 0 st"
    and "distinct ks" and "set ks \<inter> dom (as_idx st) = {}"
  shows "\<exists>new. asm_done g (keys @ new) 0 st'
    \<and> map nd_id new = filter (\<lambda>k. device_of (the (find_node g k)) = None) ks"
  using assms
proof (induction ks arbitrary: keys st)
  case Nil
  then show ?case by (intro exI [of _ "[]"]) simp
next
  case (Cons k ks)
  from Cons.prems(1) obtain n where n: "find_node g k = Some n" by (auto simp: bind_eq_Some_conv)
  then have id: "nd_id n = k" by (simp add: find_node_Some)
  show ?case
  proof (cases "device_of n")
    case (Some v)
    with Cons.prems n have "collect_nodes g ks st = Some st'"
      by (simp add: node_to_instruction_raw special_iff)
    from Cons.IH [OF this Cons.prems(2)] Cons.prems(3,4) n Some show ?thesis by simp
  next
    case None
    then have special: "nd_opcode n \<notin> set SPECIAL_OPCODES" by (simp add: special_iff)
    let ?st = "append_node (nd_id n) (raw_instruction n) st"
    have rest: "collect_nodes g ks ?st = Some st'"
      using Cons.prems(1) n special by (simp add: node_to_instruction_raw id)
    have "as_idx st (nd_id n) = None" using Cons.prems(4) by (auto simp: id)
    then have ok: "asm_ok g (keys @ [n]) ?st"
      using append_node_ok [of g keys st n] Cons.prems(2) n special by (simp add: asm_done_def id)
    have "asm_done g (keys @ [n]) 0 ?st"
      using ok Cons.prems(2) by (auto simp: asm_done_def append_node_def asm_ok_def nth_append less_Suc_eq)
    moreover have "set ks \<inter> dom (as_idx ?st) = {}"
      using Cons.prems(3,4) by (auto simp: append_node_def id)
    ultimately have "\<exists>new. asm_done g ((keys @ [n]) @ new) 0 st'
        \<and> map nd_id new = filter (\<lambda>k. device_of (the (find_node g k)) = None) ks"
      using Cons.prems(3) by (intro Cons.IH [OF rest]) simp_all
    then obtain new where "asm_done g ((keys @ [n]) @ new) 0 st'"
      "map nd_id new = filter (\<lambda>k. device_of (the (find_node g k)) = None) ks" by blast
    with n None id show ?thesis by (intro exI [of _ "n # new"]) simp
  qed
qed

lemma graph_to_instructions_spec:
  assumes "graph_to_instructions g = Some (st, exports)" and "graph_ok g"
  shows "\<exists>keys. asm_done g keys (length keys) st
    \<and> prefix (filter (\<lambda>k. device_of (the (find_node g k)) = None) (gr_nodes g)) (map nd_id keys)"
proof -
  from assms(1) obtain st0 where collect: "collect_nodes g (gr_nodes g) empty_asm = Some st0"
    and visit: "visit_nodes g st0 = Some st"
    by (auto simp: graph_to_instructions_def bind_eq_Some_conv)
  have "asm_done g [] 0 empty_asm" by (simp add: asm_done_def asm_ok_def empty_asm_def)
  from collect_nodes_done [OF collect this] assms(2) obtain keys where keys: "asm_done g keys 0 st0"
    "map nd_id keys = filter (\<lambda>k. device_of (the (find_node g k)) = None) (gr_nodes g)"
    by (auto simp: graph_ok_def empty_asm_def)
  from visit_nodes_done [OF keys(1) visit] obtain new where "asm_done g (keys @ new) (length (keys @ new)) st" ..
  then show ?thesis by (intro exI [of _ "keys @ new"]) (simp add: keys(2) [symmetric])
qed

end
