(* ===== verification/Assembler_Image.thy ===== *)
theory Assembler_Image
  imports Assembler_Work
begin

text \<open>
  What the assembler writes is the image of sephi.h with the entries of its tables: the inverse of the
  loader's reading.
\<close>

section \<open>Numbers and bytes\<close>

lemma create_destination_word:
  "(word_of_int (create_destination a i m) :: u32) = CREATE_DESTINATION (word_of_int a) (of_nat i) (of_nat m)"
proof -
  have "(word_of_int (take_bit 32 k) :: u32) = word_of_int k" for k
    by (rule bit_word_eqI) (simp add: bit_simps)
  moreover have "(word_of_int (x XOR y) :: u32) = word_of_int x XOR word_of_int y" for x y
    by (rule bit_word_eqI) (simp add: bit_simps)
  moreover have "(word_of_int (push_bit n x) :: u32) = push_bit n (word_of_int x)" for n x
    by (rule bit_word_eqI) (auto simp: bit_simps)
  ultimately show ?thesis by (simp add: create_destination_def CREATE_DESTINATION_def)
qed

lemma create_destination_bound: "0 \<le> create_destination a i m" "create_destination a i m < 2 ^ 32"
  by (simp_all only: create_destination_def take_bit_nonnegative take_bit_int_less_exp)

lemma destination_parts:
  assumes "a < 2 ^ 28" and "i \<le> 1" and "m \<le> 2"
  shows "DESTINATION_TO_ADDRESS (word_of_int (create_destination (int a) i m)) = of_nat a"
    and "DESTINATION_TO_INPUT (word_of_int (create_destination (int a) i m)) = of_nat i"
    and "DESTINATION_TO_MATCHING_FUNCTION (word_of_int (create_destination (int a) i m)) = of_nat m"
proof -
  have "(of_nat a :: u32) < 2 ^ 28" "(of_nat i :: u32) < 2" "(of_nat m :: u32) < 4"
    using assms by (simp_all add: word_less_nat_alt unat_of_nat)
  from destination_roundtrip [OF this]
  show "DESTINATION_TO_ADDRESS (word_of_int (create_destination (int a) i m)) = of_nat a"
    "DESTINATION_TO_INPUT (word_of_int (create_destination (int a) i m)) = of_nat i"
    "DESTINATION_TO_MATCHING_FUNCTION (word_of_int (create_destination (int a) i m)) = of_nat m"
    by (simp_all add: create_destination_word)
qed

lemma le_bytes_of_int: "n \<le> 4 \<Longrightarrow> le_bytes n (word_of_int v :: u64) = le_bytes n (word_of_int v :: u32)"
  by (rule nth_equalityI) (auto simp: bit_simps intro!: bit_word_eqI)

lemma le_bytes_of_int_16: "n \<le> 2 \<Longrightarrow> le_bytes n (word_of_int v :: u64) = le_bytes n (word_of_int v :: u16)"
  by (rule nth_equalityI) (auto simp: bit_simps intro!: bit_word_eqI)

section \<open>The file is an image\<close>

definition update_of :: "DestinationToUpdate \<Rightarrow> destination_to_update" where
  "update_of u = \<lparr>dtu_instruction_number = of_nat (up_instruction_num u), dtu_flags = combine_flags u\<rparr>"

text \<open>The number of literals, and an operand as a word.\<close>

definition literal_count :: "operand option \<Rightarrow> operand option \<Rightarrow> u32" where
  "literal_count a b = (if a \<noteq> None \<and> b \<noteq> None then 2 else if a \<noteq> None \<or> b \<noteq> None then 1 else 0)"

definition operand_word :: "operand option \<Rightarrow> u64" where
  "operand_word input = word_of_int (the (literal_value input))"

definition destination_word :: "int option \<Rightarrow> u32" where
  "destination_word d = word_of_int (case d of None \<Rightarrow> asm_DEV_NULL | Some v \<Rightarrow> v)"

definition instruction_of :: "asm_instruction \<Rightarrow> instruction" where
  "instruction_of inst = \<lparr>inst_opcode = word_of_int (opc_opcode (ai_opcode inst)),
     inst_destination_1 = destination_word (ai_destination_1 inst),
     inst_destination_2 = destination_word (ai_destination_2 inst),
     inst_marker = (case ai_destination_2 inst of None \<Rightarrow> 0 | Some v \<Rightarrow> if v = 0 then 0 else 1),
     inst_literal_1 = operand_word (ai_literal_1 inst), inst_literal_2 = operand_word (ai_literal_2 inst),
     inst_instruction_literal = literal_count (ai_literal_1 inst) (ai_literal_2 inst)\<rparr>"

definition image_of :: "asm_state \<Rightarrow> (int \<times> byte list) list \<Rightarrow> sephi_image" where
  "image_of st exports = \<lparr>img_constants = map update_of (as_constants st),
     img_to_fix = map update_of (as_labels st),
     img_references = map (\<lambda>(u, name). \<lparr>ext_destination = update_of u, ext_name = pack_name name\<rparr>)
       (as_external_references st),
     img_exports = map (\<lambda>(d, name). \<lparr>exp_local_destination = word_of_int d, exp_name = pack_name name\<rparr>) exports,
     img_instructions = map instruction_of (as_instructions st)\<rparr>"

lemma pack_unsigned_4: "pack_unsigned 4 v = Some bs \<longleftrightarrow> 0 \<le> v \<and> v < 2 ^ 32 \<and> bs = le_bytes 4 (word_of_int v :: u32)"
  by (auto simp: pack_unsigned_def le_bytes_of_int)

lemma pack_unsigned_2: "pack_unsigned 2 v = Some bs \<longleftrightarrow> 0 \<le> v \<and> v < 2 ^ 16 \<and> bs = le_bytes 2 (word_of_int v :: u16)"
  by (auto simp: pack_unsigned_def le_bytes_of_int_16)

lemma length_pack_name: "length (pack_name name) = 256"
  by (simp add: pack_name_def)

lemma replicate_zeros: "replicate 3 (0 :: byte) = [0, 0, 0]" "replicate 4 (0 :: byte) = [0, 0, 0, 0]"
  by (simp_all add: numeral_eq_Suc)

lemma serialize_instruction_bytes:
  assumes "serialize_instruction inst = Some bs"
  shows "bs = instruction_bytes 0 (instruction_of inst)"
  using assms
  by (auto simp: serialize_instruction_def bind_eq_Some_conv pack_unsigned_4 pack_signed_def Let_def
      instruction_bytes_def instruction_of_def operand_word_def destination_word_def literal_count_def
      replicate_zeros split: if_splits)

lemma concat_options_map:
  assumes "concat_options f xs = Some bs" and "\<And>x b. f x = Some b \<Longrightarrow> b = g x"
  shows "bs = concat (map g xs)"
  using assms(1)
proof (induction xs arbitrary: bs)
  case (Cons x xs)
  then obtain a b where "f x = Some a" "concat_options f xs = Some b" "bs = a @ b"
    by (auto simp: bind_eq_Some_conv)
  with Cons.IH assms(2) show ?case by simp
qed simp

lemma update_to_binary_bytes: "update_to_binary u = Some bs \<Longrightarrow> bs = update_bytes (update_of u)"
  by (auto simp: update_to_binary_def bind_eq_Some_conv pack_unsigned_4 update_bytes_def update_of_def
      replicate_zeros)

lemma generate_header_bytes:
  assumes "generate_header (as_constants st) (as_labels st) (as_external_references st) exports = Some bs"
  shows "bs @ concat (map (instruction_bytes 0) (map instruction_of (as_instructions st))) = image_bytes (image_of st exports)
     \<and> image_fits (image_of st exports)"
proof -
  let ?r = "\<lambda>(u, name). reference_bytes \<lparr>ext_destination = update_of u, ext_name = pack_name name\<rparr>"
  let ?e = "\<lambda>(d, name). export_bytes \<lparr>exp_local_destination = word_of_int d, exp_name = pack_name name\<rparr>"
  have external: "external_to_binary x = Some b \<Longrightarrow> b = ?r x" for x b
    by (auto simp: external_to_binary_def bind_eq_Some_conv reference_bytes_def dest!: update_to_binary_bytes
        split: prod.splits)
  have export: "export_to_binary x = Some b \<Longrightarrow> b = ?e x" for x b
    by (auto simp: export_to_binary_def bind_eq_Some_conv export_bytes_def pack_unsigned_4
        split: prod.splits)
  from assms obtain n1 n2 n3 n4 a b c d where
    n: "pack_unsigned 2 (int (length (as_constants st))) = Some n1"
      "pack_unsigned 2 (int (length (as_labels st))) = Some n2"
      "pack_unsigned 2 (int (length (as_external_references st))) = Some n3"
      "pack_unsigned 2 (int (length exports)) = Some n4"
    and tables: "concat_options update_to_binary (as_constants st) = Some a"
      "concat_options update_to_binary (as_labels st) = Some b"
      "concat_options external_to_binary (as_external_references st) = Some c"
      "concat_options export_to_binary exports = Some d"
    and bs: "bs = map of_char ''sephiALD'' @ n1 @ n2 @ n3 @ n4 @ a @ b @ c @ d"
    by (auto simp: generate_header_def bind_eq_Some_conv)
  have abcd: "a = concat (map (\<lambda>u. update_bytes (update_of u)) (as_constants st))"
    "b = concat (map (\<lambda>u. update_bytes (update_of u)) (as_labels st))"
    "c = concat (map ?r (as_external_references st))" "d = concat (map ?e exports)"
    by (rule concat_options_map [OF tables(1)], rule update_to_binary_bytes, assumption)
      (rule concat_options_map [OF tables(2)], rule update_to_binary_bytes, assumption,
        rule concat_options_map [OF tables(3)], rule external, assumption,
        rule concat_options_map [OF tables(4)], rule export, assumption)
  have magic: "map of_char ''sephiALD'' = MAGIC_BYTES" by (simp add: MAGIC_BYTES_def)
  show ?thesis
    using n unfolding bs abcd magic pack_unsigned_2
    by (auto simp: image_bytes_def header_bytes_def image_of_def image_fits_def length_pack_name comp_def
        split_def)
qed

lemma assemble_image:
  assumes "assemble g = Some content"
  shows "\<exists>st exports. graph_to_instructions g = Some (st, exports) \<and> content = image_bytes (image_of st exports)
     \<and> image_fits (image_of st exports)"
proof -
  from assms obtain st exports body header where gi: "graph_to_instructions g = Some (st, exports)"
    and body: "concat_options serialize_instruction (as_instructions st) = Some body"
    and header: "generate_header (as_constants st) (as_labels st) (as_external_references st) exports = Some header"
    and content: "content = header @ body"
    by (auto simp: assemble_def bind_eq_Some_conv)
  from concat_options_map [OF body serialize_instruction_bytes]
  have "body = concat (map (instruction_bytes 0) (map instruction_of (as_instructions st)))"
    by (simp add: comp_def)
  with generate_header_bytes [OF header] gi content show ?thesis by auto
qed

end
