(* ===== verification/Assembler_Optimisation.thy ===== *)
theory Assembler_Optimisation
  imports Assembler_Image
begin

text \<open>
  The opcode table of the assembler against those of types.c, and what optimize_graph does to a graph.
\<close>

section \<open>Opcode tables\<close>

text \<open>opcode_to_name of types.c.\<close>

definition opcode_to_name :: "string list" where
  "opcode_to_name = [''ADD'', ''SUB'', ''BRR'', ''LT'', ''EQ'', ''DUP'', ''NEG'', ''MER'', ''NTG'', ''ITG'', ''GT'',
     ''SIL'', ''CTG'', ''RTD'', ''ETG'', ''MUL'', ''XOR'', ''AND'', ''OR'', ''SHL'', ''SHR'', ''NEQ'', ''OPN'',
     ''RED'', ''WRT'', ''CLS'', ''GTE'', ''LTE'', ''HLT'', ''LOD'', ''LS'', ''SDF'', ''ULK'', ''LSK'', ''RND'']"

text \<open>
  Behind the two output devices the list of the assembler has one entry for each opcode of the machine,
  in the order of the numbers, with the name the machine prints and the number of inputs the machine
  has for it; only for MER the assembler has two inputs and the machine one. No two entries have the
  same name.
\<close>

lemma opcode_table:
  "map (\<lambda>e. (word_of_int (opc_opcode e), opc_repr e, of_nat (opc_num_inputs e))) (drop 2 OPCODE_LIST)
     = zip (map opcode_val all_opcodes) (zip opcode_to_name (opcode_to_num_inputs[7 := 2]))"
  by code_simp

lemma opcode_tables_agree:
  fixes op :: opcode_type
  defines "i \<equiv> unat (opcode_val op)" and "e \<equiv> OPCODE_LIST ! (unat (opcode_val op) + 2)"
  shows "length OPCODE_LIST = 37 \<and> distinct (map opc_repr OPCODE_LIST) \<and> word_of_int (opc_opcode e) = opcode_val op
     \<and> opc_repr e = opcode_to_name ! i
     \<and> (if op = MER then opc_num_inputs e = 2 \<and> opcode_to_num_inputs ! i = 1
        else of_nat (opc_num_inputs e) = opcode_to_num_inputs ! i)"
proof -
  have "length OPCODE_LIST = 37" by code_simp
  moreover have "distinct (map opc_repr OPCODE_LIST)" by code_simp
  moreover have "word_of_int (opc_opcode e) = opcode_val op \<and> opc_repr e = opcode_to_name ! i
     \<and> (if op = MER then opc_num_inputs e = 2 \<and> opcode_to_num_inputs ! i = 1
        else of_nat (opc_num_inputs e) = opcode_to_num_inputs ! i)"
    unfolding e_def i_def
    by (cases op) (simp_all add: OPCODE_LIST_def opcode_to_name_def opcode_to_num_inputs_def)
  ultimately show ?thesis by blast
qed

section \<open>Optimisation\<close>

text \<open>
  What a destination is after the optimisation: the same, or the first destination of a redundant DUP
  that it led to, one with no second destination, and so on.
\<close>

inductive skips :: "graph \<Rightarrow> node_destination option \<Rightarrow> node_destination option \<Rightarrow> bool" for g where
  same: "skips g d d"
| skip: "find_node g (dst_node d) = Some n \<Longrightarrow> nd_opcode n = DUP_OPCODE \<Longrightarrow> nd_optimizable n
    \<Longrightarrow> skips g (nd_destination_2 n) None \<Longrightarrow> skips g (nd_destination_1 n) e \<Longrightarrow> skips g (Some d) e"

lemma skips_trans: "skips g a b \<Longrightarrow> skips g b c \<Longrightarrow> skips g a c"
  by (induction arbitrary: c rule: skips.induct) (auto intro: skips.intros)

text \<open>How a node may differ from what it was.\<close>

definition shortened :: "graph \<Rightarrow> node \<Rightarrow> node \<Rightarrow> bool" where
  "shortened g n n' \<longleftrightarrow> nd_opcode n' = nd_opcode n \<and> nd_id n' = nd_id n \<and> nd_input_1 n' = nd_input_1 n
     \<and> nd_input_2 n' = nd_input_2 n \<and> nd_optimizable n' = nd_optimizable n
     \<and> skips g (nd_destination_1 n) (nd_destination_1 n') \<and> skips g (nd_destination_2 n) (nd_destination_2 n')"

definition optimized :: "graph \<Rightarrow> graph \<Rightarrow> bool" where
  "optimized g g' \<longleftrightarrow> list_all2 (shortened g) (gr_objects g) (gr_objects g')
     \<and> gr_labels g' = gr_labels g \<and> gr_external_references g' = gr_external_references g
     \<and> gr_exports g' = gr_exports g"

text \<open>A node that is gone was a redundant DUP.\<close>

definition redundant :: "graph \<Rightarrow> nat \<Rightarrow> bool" where
  "redundant g k \<longleftrightarrow> (\<exists>n. find_node g k = Some n \<and> nd_opcode n = DUP_OPCODE \<and> nd_optimizable n
     \<and> skips g (nd_destination_2 n) None)"

lemma find_node_shortened:
  assumes "list_all2 (shortened g) ns ns'"
  shows "rel_option (shortened g) (List.find (\<lambda>n. nd_id n = k) ns) (List.find (\<lambda>n. nd_id n = k) ns')"
  using assms by (induction rule: list_all2_induct) (auto simp: shortened_def)

lemma redirect_shortened:
  assumes "shortened g n n'" and "goes_to f n' k" and "find_node g k = Some m" and "shortened g m m'"
    and "nd_opcode m' = DUP_OPCODE" and "nd_optimizable m'" and "nd_destination_2 m' = None"
  shows "shortened g n (redirect f (nd_destination_1 m') n')"
proof -
  from assms(2) obtain d where d: "destination_at f n' = Some d" "dst_node d = k" by (auto simp: goes_to_def)
  have "skips g (Some d) (nd_destination_1 m')"
    by (rule skips.skip [of _ _ m]) (use assms d in \<open>simp_all add: shortened_def\<close>)
  with assms(1) d skips_trans show ?thesis by (cases f) (auto simp: shortened_def)
qed

lemma update_node_shortened:
  assumes "list_all2 (shortened g) ns ns'" and "List.find (\<lambda>n. nd_id n = k) ns' = Some p'"
    and "distinct (map nd_id ns)"
    and "\<And>p. shortened g p p' \<Longrightarrow> shortened g p (f p')"
  shows "list_all2 (shortened g) ns (map (\<lambda>n. if nd_id n = k then f n else n) ns')"
proof -
  have "map nd_id ns' = map nd_id ns"
    using assms(1) by (induction rule: list_all2_induct) (auto simp: shortened_def)
  then have inj: "inj_on nd_id (set ns')" using assms(3) by (metis distinct_map)
  have p': "p' \<in> set ns'" "nd_id p' = k" using assms(2) by (auto simp: find_Some_iff)
  then have one: "n = p'" if "n \<in> set ns'" "nd_id n = k" for n
    using that inj by (auto dest: inj_onD)
  show ?thesis
    unfolding list_all2_conv_all_nth length_map
  proof (intro conjI allI impI)
    show "length ns = length ns'" using assms(1) by (rule list_all2_lengthD)
    fix i
    assume i: "i < length ns"
    with assms(1) have "shortened g (ns ! i) (ns' ! i)" "i < length ns'" by (simp_all add: list_all2_conv_all_nth)
    moreover have "ns' ! i = p'" if "nd_id (ns' ! i) = k" using one that \<open>i < length ns'\<close> by simp
    ultimately show "shortened g (ns ! i) (map (\<lambda>n. if nd_id n = k then f n else n) ns' ! i)"
      using assms(4) by auto
  qed
qed

lemma optimize_node_spec:
  assumes step: "optimize_node parents k g1 = Some g2" and opt: "optimized g g1"
    and ids: "distinct (map nd_id (gr_objects g))"
  shows "optimized g g2 \<and> (gr_nodes g2 = gr_nodes g1 \<or> redundant g k \<and> gr_nodes g2 = remove1 k (gr_nodes g1))"
proof -
  have same: "list_all2 (shortened g) (gr_objects g) (gr_objects g1)" using opt by (simp add: optimized_def)
  from step obtain n' ps where n': "find_node g1 k = Some n'" and "parents k = Some ps"
    by (auto simp: optimize_node_def bind_eq_Some_conv)
  from find_node_shortened [OF same, of k] n' obtain n where
    n: "find_node g k = Some n" and short: "shortened g n n'"
    by (auto simp: find_node_def elim: option.rel_cases)
  show ?thesis
  proof (cases "nd_opcode n' = DUP_OPCODE \<and> length ps = 1 \<and> nd_destination_2 n' = None \<and> nd_optimizable n'")
    case False
    with step n' \<open>parents k = Some ps\<close> opt show ?thesis
      by (simp only: optimize_node_def bind.bind_lunit if_False option.inject simp_thms)
  next
    case True
    with step n' \<open>parents k = Some ps\<close> obtain parent f where
      parent: "find_node g1 (ps ! 0) = Some parent" and f: "goes_to f parent k"
      and g2: "g2 = (update_node (ps ! 0) (redirect f (nd_destination_1 n')) g1)
        \<lparr>gr_nodes := remove1 k (gr_nodes (update_node (ps ! 0) (redirect f (nd_destination_1 n')) g1))\<rparr>"
      by (auto simp: optimize_node_def bind_eq_Some_conv split: if_splits)
    have "list_all2 (shortened g) (gr_objects g)
        (map (\<lambda>m. if nd_id m = ps ! 0 then redirect f (nd_destination_1 n') m else m) (gr_objects g1))"
      by (rule update_node_shortened [OF same parent [unfolded find_node_def] ids])
        (use redirect_shortened [OF _ f n short] True in simp)
    with opt have "optimized g g2" by (simp add: optimized_def g2 update_node_def)
    moreover have "redundant g k"
      using n short True by (auto simp: redundant_def shortened_def)
    ultimately show ?thesis by (simp add: g2 update_node_def)
  qed
qed

lemma optimize_nodes_spec:
  assumes "optimize_nodes parents ks g1 = Some g2" and "optimized g g1"
    and "distinct (map nd_id (gr_objects g))" and "distinct (gr_nodes g1)"
  shows "optimized g g2 \<and> distinct (gr_nodes g2)
     \<and> set (gr_nodes g2) \<subseteq> set (gr_nodes g1) \<and> (\<forall>k\<in>set (gr_nodes g1) - set (gr_nodes g2). redundant g k)"
  using assms
proof (induction parents ks g1 rule: optimize_nodes.induct)
  case (2 parents k ks g1)
  then obtain g' where g': "optimize_node parents k g1 = Some g'" and rest: "optimize_nodes parents ks g' = Some g2"
    by (auto simp: bind_eq_Some_conv)
  note one = optimize_node_spec [OF g' "2.prems"(2,3)]
  then have "distinct (gr_nodes g')" using "2.prems"(4) by auto
  with "2.IH" [OF g' rest _ "2.prems"(3)] one "2.prems"(4) show ?case by auto
qed simp

lemma skips_input:
  assumes "skips g a b" and "graph_ok g" and "case a of None \<Rightarrow> True | Some d \<Rightarrow> dst_input d \<le> 1"
  shows "case b of None \<Rightarrow> True | Some d \<Rightarrow> dst_input d \<le> 1"
  using assms
proof (induction rule: skips.induct)
  case (skip d n e)
  then have "n \<in> set (gr_objects g)" using find_node_Some(1) by blast
  with skip.prems(1) have "case destination_at Destination_1 n of None \<Rightarrow> True | Some d \<Rightarrow> dst_input d \<le> 1"
    by (simp only: graph_ok_def) blast
  with skip show ?case by simp
qed

lemma optimized_ok:
  assumes "optimized g g'" and "graph_ok g" and "distinct (gr_nodes g')"
  shows "graph_ok g'"
proof -
  have objects: "list_all2 (shortened g) (gr_objects g) (gr_objects g')" using assms(1) by (simp add: optimized_def)
  then have "map nd_id (gr_objects g') = map nd_id (gr_objects g)"
    by (induction rule: list_all2_induct) (auto simp: shortened_def)
  moreover have "case destination_at f n' of None \<Rightarrow> True | Some d \<Rightarrow> dst_input d \<le> 1"
    if "n' \<in> set (gr_objects g')" for n' f
  proof -
    from that objects obtain n where n: "n \<in> set (gr_objects g)" and short: "shortened g n n'"
      by (auto simp: list_all2_conv_all_nth in_set_conv_nth) blast
    have "case destination_at f n of None \<Rightarrow> True | Some d \<Rightarrow> dst_input d \<le> 1"
      using assms(2) n by (cases f) (simp_all add: graph_ok_def)
    then show ?thesis
      by (rule skips_input [OF _ assms(2), rotated]) (use short in \<open>cases f; simp add: shortened_def\<close>)
  qed
  moreover have "find_node g' k \<noteq> None" if "find_node g k \<noteq> None" for k
    using find_node_shortened [OF objects, of k] that by (auto simp: find_node_def rel_option_iff split: option.splits)
  ultimately show ?thesis
    using assms by (auto simp: graph_ok_def optimized_def)
qed

lemma optimize_graph_optimized:
  assumes "optimize_graph g = Some g'" and "graph_ok g"
  shows "optimized g g' \<and> set (gr_nodes g') \<subseteq> set (gr_nodes g)
     \<and> (\<forall>k\<in>set (gr_nodes g) - set (gr_nodes g'). redundant g k) \<and> graph_ok g'"
proof -
  have "optimized g g"
    by (simp add: optimized_def) (rule list.rel_refl, simp add: shortened_def skips.same)
  with optimize_nodes_spec [OF assms(1) [unfolded optimize_graph_def], of g] assms(2)
  have opt: "optimized g g'" "distinct (gr_nodes g')" "set (gr_nodes g') \<subseteq> set (gr_nodes g)"
    "\<forall>k\<in>set (gr_nodes g) - set (gr_nodes g'). redundant g k" by (auto simp: graph_ok_def)
  with optimized_ok [OF opt(1) assms(2)] show ?thesis by blast
qed

text \<open>
  C36: the optimisation keeps every node object but for its destinations, each of which is the same or
  the first destination of a redundant DUP it led to, and so on; every node it takes off the list is a
  redundant DUP; labels, exports and external references stay as they were, those of removed nodes too.
\<close>

theorem optimisation_shortens:
  assumes "optimize_graph g = Some g'" and "graph_ok g"
  shows "list_all2 (shortened g) (gr_objects g) (gr_objects g')
     \<and> gr_labels g' = gr_labels g \<and> gr_external_references g' = gr_external_references g
     \<and> gr_exports g' = gr_exports g \<and> set (gr_nodes g') \<subseteq> set (gr_nodes g)
     \<and> (\<forall>k\<in>set (gr_nodes g) - set (gr_nodes g'). redundant g k) \<and> graph_ok g'"
  using optimize_graph_optimized [OF assms] by (simp add: optimized_def)

text \<open>Nodes for examples.\<close>

abbreviation plain_node :: "asm_opcode \<Rightarrow> nat \<Rightarrow> operand option \<Rightarrow> (nat \<times> nat) option \<Rightarrow> (nat \<times> nat) option \<Rightarrow> bool \<Rightarrow> node" where
  "plain_node opcode k input_1 d1 d2 optimizable \<equiv> \<lparr>nd_opcode = opcode, nd_id = k, nd_input_1 = input_1,
     nd_input_2 = None,
     nd_destination_1 = map_option (\<lambda>(j, i). \<lparr>dst_node = j, dst_input = i\<rparr>) d1,
     nd_destination_2 = map_option (\<lambda>(j, i). \<lparr>dst_node = j, dst_input = i\<rparr>) d2,
     nd_optimizable = optimizable\<rparr>"

text \<open>
  \<open>f, x = BRR a b\<close> with f external: the DUP that holds the external reference is removed, and
  with it the reference.
\<close>

definition branch_graph :: graph where
  "branch_graph = \<lparr>gr_objects = [plain_node DUP_OPCODE 0 None None None True,
       plain_node DUP_OPCODE 1 None None None True,
       plain_node (OPCODE_LIST ! 4) 2 None (Some (0, 0)) (Some (1, 0)) False],
     gr_nodes = [0, 1, 2], gr_labels = [], gr_external_references = [([102], [0])], gr_exports = []\<rparr>"

lemma branch_graph_references:
  "\<exists>content img. output_graph branch_graph = Some content \<and> image_of_bytes content = Some img \<and> img_references img = []"
proof -
  have "map_option length (output_graph branch_graph) = Some 56" by code_simp
  then obtain content where content: "output_graph branch_graph = Some content" by auto
  then obtain g' where g': "optimize_graph branch_graph = Some g'" "assemble g' = Some content"
    by (auto simp: output_graph_def bind_eq_Some_conv)
  from assemble_image [OF g'(2)] obtain st exports where gi: "graph_to_instructions g' = Some (st, exports)"
    and img: "content = image_bytes (image_of st exports)" "image_fits (image_of st exports)" by blast
  have "map_option (\<lambda>(st, exports). as_external_references st)
      (optimize_graph branch_graph \<bind> graph_to_instructions) = Some []" by code_simp
  then have "img_references (image_of st exports) = []" by (simp add: g'(1) gi image_of_def)
  with content image_roundtrip_bytes [OF img(2)] img(1) show ?thesis by blast
qed

theorem optimisation_shortens_witness:
  "\<exists>g' content img. optimize_graph branch_graph = Some g' \<and> gr_nodes g' = [2] \<and> redundant branch_graph 0
     \<and> gr_external_references g' = [([102], [0])]
     \<and> output_graph branch_graph = Some content \<and> image_of_bytes content = Some img \<and> img_references img = []"
proof -
  have nodes: "map_option gr_nodes (optimize_graph branch_graph) = Some [2]" by code_simp
  then obtain g' where g': "optimize_graph branch_graph = Some g'" "gr_nodes g' = [2]" by auto
  have "graph_ok branch_graph" by code_simp
  note short = optimisation_shortens [OF g'(1) this]
  moreover have "gr_nodes branch_graph = [0, 1, 2]" "gr_external_references branch_graph = [([102], [0])]"
    by (simp_all add: branch_graph_def)
  ultimately show ?thesis using g' branch_graph_references by auto
qed

end
