(* ===== verification/Assembled_Programs.thy ===== *)
theory Assembled_Programs
  imports Assembler_Optimisation
begin

text \<open>
  The assembler and the loader together: the instructions load_file puts into the store are the nodes of
  the graph, with the destinations leading to where the nodes are.
\<close>

section \<open>Tables the loader reads\<close>

lemma is_in_list_iff:
  "is_in_list cs cur which \<longleftrightarrow> (\<exists>c\<in>set cs. dtu_instruction_number c = cur
     \<and> (which = FIRST_DESTINATION \<and> is_first_destination (dtu_flags c)
        \<or> which = SECOND_DESTINATION \<and> is_second_destination (dtu_flags c)
        \<or> which = FIRST_LITERAL \<and> is_first_literal (dtu_flags c)
        \<or> which = SECOND_LITERAL \<and> is_second_literal (dtu_flags c)))"
proof (induction cs)
  case (Cons c cs)
  show ?case by (simp only: is_in_list.simps list.set bex_simps(5) Cons.IH) argo
qed simp

lemma combine_flags_bits:
  "is_first_destination (combine_flags u) = up_is_first_destination u"
  "is_second_destination (combine_flags u) = up_is_second_destination u"
  "is_first_literal (combine_flags u) = up_is_first_literal u"
  "is_second_literal (combine_flags u) = up_is_second_literal u"
  "bit (combine_flags u) 7 = False"
  by (auto simp: combine_flags_def is_first_destination_def is_second_destination_def is_first_literal_def
      is_second_literal_def bit_simps)

lemma set_concat_upt: "x \<in> set (concat (map f [0..<n])) \<longleftrightarrow> (\<exists>i<n. x \<in> set (f i))"
  by auto

lemma number_eq:
  assumes "i < n" and "j < n" and "n \<le> 2 ^ 28"
  shows "(of_nat i :: u32) = of_nat j \<longleftrightarrow> i = j"
  using assms by (simp add: word_unat_eq_iff unat_of_nat)

lemma constants_in_list:
  assumes "asm_done g keys (length keys) st" and "length keys \<le> 2 ^ 28" and "i < length keys"
  shows "is_in_list (map update_of (as_constants st)) (of_nat i) FIRST_DESTINATION
      \<longleftrightarrow> is_device g (keys ! i) Destination_1"
    and "is_in_list (map update_of (as_constants st)) (of_nat i) SECOND_DESTINATION
      \<longleftrightarrow> is_device g (keys ! i) Destination_2"
proof -
  have c: "as_constants st = concat (map (\<lambda>i. constants_of g (keys ! i) i) [0..<length keys])"
    using assms(1) by (simp add: asm_done_def)
  note defs = is_in_list_iff c set_concat_upt constants_of_def update_of_def combine_flags_bits
    constant_update_def blank_update_def FIRST_DESTINATION_def SECOND_DESTINATION_def FIRST_LITERAL_def
    SECOND_LITERAL_def
  show "is_in_list (map update_of (as_constants st)) (of_nat i) FIRST_DESTINATION
      \<longleftrightarrow> is_device g (keys ! i) Destination_1"
    "is_in_list (map update_of (as_constants st)) (of_nat i) SECOND_DESTINATION
      \<longleftrightarrow> is_device g (keys ! i) Destination_2"
    using assms(3) number_eq [OF _ assms(3,2)]
    by (auto simp: defs split: if_splits intro!: bexI [of _ i])
qed

lemma labels_in_list:
  assumes "asm_done g keys (length keys) st" and "length keys \<le> 2 ^ 28" and "i < length keys"
  shows "is_in_list (map update_of (as_labels st)) (of_nat i) FIRST_LITERAL
      \<longleftrightarrow> label_of g (nd_input_1 (keys ! i)) \<noteq> None"
    and "\<not> is_in_list (map update_of (as_labels st)) k SECOND_LITERAL"
proof -
  have l: "as_labels st = concat (map (\<lambda>i. labels_of g (keys ! i) i) [0..<length keys])"
    using assms(1) by (simp add: asm_done_def)
  note defs = is_in_list_iff l set_concat_upt labels_of_def update_of_def combine_flags_bits
    blank_update_def FIRST_DESTINATION_def SECOND_DESTINATION_def FIRST_LITERAL_def SECOND_LITERAL_def
  show "is_in_list (map update_of (as_labels st)) (of_nat i) FIRST_LITERAL
      \<longleftrightarrow> label_of g (nd_input_1 (keys ! i)) \<noteq> None"
    using assms(3) number_eq [OF _ assms(3,2)] by (auto simp: defs split: if_splits)
  show "\<not> is_in_list (map update_of (as_labels st)) k SECOND_LITERAL"
    by (auto simp: defs split: if_splits)
qed

text \<open>The external references to an instruction are those of its node.\<close>

lemma filter_concat_upt:
  assumes "\<And>j x. j < n \<Longrightarrow> x \<in> set (f j) \<Longrightarrow> num x = j" and "i < n"
  shows "filter (\<lambda>x. num x = i) (concat (map f [0..<n])) = f i"
  using assms
proof (induction n)
  case 0
  then show ?case by simp
next
  case (Suc n)
  have here: "filter (\<lambda>x. num x = i) (f n) = (if i = n then f n else [])"
    using Suc.prems(1) [of n] by (auto intro: filter_True filter_False)
  show ?case
  proof (cases "i = n")
    case True
    have "num x \<noteq> n" if x: "x \<in> set (concat (map f [0..<n]))" for x
    proof -
      from x obtain j where "j < n" "x \<in> set (f j)" by auto
      with Suc.prems(1) [of j x] show ?thesis by simp
    qed
    then have "filter (\<lambda>x. num x = i) (concat (map f [0..<n])) = []"
      unfolding filter_empty_conv True by blast
    with here True show ?thesis by simp
  next
    case False
    with Suc here show ?thesis by simp
  qed
qed

lemma patches_of_node:
  assumes "asm_done g keys (length keys) st" and "length keys \<le> 2 ^ 28" and "i < length keys"
  shows "patches_of exports (img_references (image_of st symbols)) i = (case extern_of g (nd_id (keys ! i)) of
      None \<Rightarrow> []
    | Some extern \<Rightarrow> [(1, node_current_destination (the (find_export (name_string (pack_name extern)) exports)))])"
proof -
  have x: "as_external_references st = concat (map (\<lambda>i. externals_of g (keys ! i) i) [0..<length keys])"
    using assms(1) by (simp add: asm_done_def)
  have num: "unat (of_nat (up_instruction_num (fst y)) :: u32) = j"
    if "j < length keys" "y \<in> set (externals_of g (keys ! j) j)" for j y
    using that assms(2) by (auto simp: externals_of_def blank_update_def unat_of_nat split: option.splits)
  have "filter (\<lambda>y. unat (of_nat (up_instruction_num (fst y)) :: u32) = i) (as_external_references st)
      = externals_of g (keys ! i) i"
    unfolding x by (rule filter_concat_upt [OF num assms(3)])
  then show ?thesis
    by (simp add: patches_of_def image_of_def filter_map comp_def split_def update_of_def externals_of_def
        combine_flags_def blank_update_def split: option.splits)
qed

lemma references_inside:
  assumes "asm_done g keys (length keys) st" and "length keys \<le> 2 ^ 28"
    and "r \<in> set (img_references (image_of st symbols))"
  shows "unat (dtu_instruction_number (ext_destination r)) < length keys"
    and "\<exists>i<length keys. \<exists>extern. extern_of g (nd_id (keys ! i)) = Some extern \<and> ext_name r = pack_name extern"
proof -
  have x: "as_external_references st = concat (map (\<lambda>i. externals_of g (keys ! i) i) [0..<length keys])"
    using assms(1) by (simp add: asm_done_def)
  from assms(3) obtain j y where j: "j < length keys" "y \<in> set (externals_of g (keys ! j) j)"
    and r: "r = \<lparr>ext_destination = update_of (fst y), ext_name = pack_name (snd y)\<rparr>"
    by (auto simp: image_of_def x)
  show "unat (dtu_instruction_number (ext_destination r)) < length keys"
    using j assms(2)
    by (auto simp: r update_of_def externals_of_def blank_update_def unat_of_nat split: option.splits)
  show "\<exists>i<length keys. \<exists>extern. extern_of g (nd_id (keys ! i)) = Some extern \<and> ext_name r = pack_name extern"
  proof (cases "extern_of g (nd_id (keys ! j))")
    case (Some extern)
    with j show ?thesis by (intro exI [of _ j]) (simp add: r externals_of_def)
  qed (use j in \<open>simp add: externals_of_def\<close>)
qed

section \<open>The loaded graph\<close>

text \<open>
  A destination that leads to a node: the address of the node's instruction, counted from where the
  program was loaded, with an input and a matching function.
\<close>

definition points_to :: "node list \<Rightarrow> nat \<Rightarrow> node \<Rightarrow> nat \<Rightarrow> nat \<Rightarrow> destination_type \<Rightarrow> bool" where
  "points_to keys start target input matching d \<longleftrightarrow> (\<exists>j<length keys. keys ! j = target
     \<and> unat (DESTINATION_TO_ADDRESS d) = start + j \<and> DESTINATION_TO_INPUT d = of_nat input
     \<and> DESTINATION_TO_MATCHING_FUNCTION d = of_nat matching)"

definition loaded_destination :: "graph \<Rightarrow> node list \<Rightarrow> nat \<Rightarrow> node \<Rightarrow> dest_field \<Rightarrow> destination_type \<Rightarrow> bool" where
  "loaded_destination g keys start n f d \<longleftrightarrow> (case destination_at f n of
       None \<Rightarrow> d = DEV_NULL_DESTINATION
     | Some nd \<Rightarrow> (\<exists>target. find_node g (dst_node nd) = Some target
         \<and> (if nd_opcode target = OUTD_OPCODE then d = OUTPUTD_DESTINATION
            else if nd_opcode target = OUTS_OPCODE then d = OUTPUTS_DESTINATION
            else \<exists>m. matching_of target = Some m \<and> points_to keys start target (dst_input nd) m d)))"

text \<open>The second destination is input one of the first instruction, with matching function ONE.\<close>

definition lost_destination :: "graph \<Rightarrow> node list \<Rightarrow> node \<Rightarrow> bool" where
  "lost_destination g keys n \<longleftrightarrow> (case nd_destination_2 n of None \<Rightarrow> False
     | Some nd \<Rightarrow> (\<exists>target. find_node g (dst_node nd) = Some target \<and> device_of target = None
         \<and> target = keys ! 0 \<and> dst_input nd = 0 \<and> matching_of target = Some 0))"

lemma device_words:
  "(word_of_int asm_OUTPUTD :: u32) = OUTPUTD_DESTINATION" "(word_of_int asm_OUTPUTS :: u32) = OUTPUTS_DESTINATION"
  "(word_of_int asm_DEV_NULL :: u32) = DEV_NULL_DESTINATION"
  by (simp_all add: asm_OUTPUTD_def asm_OUTPUTS_def asm_DEV_NULL_def create_destination_word
      OUTPUTD_DESTINATION_def OUTPUTS_DESTINATION_def DEV_NULL_DESTINATION_def MATCHING_ONE_def)

lemma matching_bound: "matching_of n = Some m \<Longrightarrow> m \<le> 2"
  by (auto simp: matching_of_def split: if_splits)

lemma address_not_null: "a < 2 ^ 28 - 8 \<Longrightarrow> i \<le> 1 \<Longrightarrow> m \<le> 2 \<Longrightarrow>
  (word_of_int (create_destination (int a) i m) :: u32) \<noteq> DEV_NULL_DESTINATION"
proof
  assume a: "a < 2 ^ 28 - 8" "i \<le> 1" "m \<le> 2" and eq: "(word_of_int (create_destination (int a) i m) :: u32) = DEV_NULL_DESTINATION"
  have "DESTINATION_TO_ADDRESS DEV_NULL_DESTINATION = 268435451"
    by (simp add: DEV_NULL_DESTINATION_def MATCHING_ONE_def CREATE_DESTINATION_def DESTINATION_TO_ADDRESS_def)
  moreover have "DESTINATION_TO_ADDRESS (word_of_int (create_destination (int a) i m)) = of_nat a"
    using destination_parts [of a i m] a by simp
  ultimately have "(of_nat a :: u32) = 268435451" using eq by simp
  then have "unat (of_nat a :: u32) = 268435451" by simp
  then show False using a(1) by (simp add: unat_of_nat)
qed

text \<open>A node's number, and a destination moved to where the program is.\<close>

lemma points_to_moved:
  assumes "j < length keys" and "keys ! j = target" and "start + length keys \<le> 2 ^ 28"
    and "i \<le> 1" and "m \<le> 2"
    and "moved_destination (of_nat start) (word_of_int (create_destination (int j) i m)) d"
  shows "points_to keys start target i m d"
proof -
  have j: "j < 2 ^ 28" using assms(1,3) by simp
  note parts = destination_parts [OF j assms(4,5)]
  have "unat (of_nat j :: u32) = j" "unat (of_nat start :: u32) = start"
    using j assms(1,3) by (simp_all add: unat_of_nat)
  with assms(6) have "unat (DESTINATION_TO_ADDRESS d) = (j + start) mod 2 ^ 28"
    by (simp add: moved_destination_def parts)
  then have "unat (DESTINATION_TO_ADDRESS d) = start + j" using assms(1,3) by simp
  then show ?thesis using assms(1,2,6) by (auto simp: points_to_def moved_destination_def parts)
qed

lemma numbered_node:
  assumes "asm_done g keys (length keys) st" and "as_idx st k = Some j" and "find_node g k = Some target"
  shows "j < length keys \<and> keys ! j = target"
proof -
  have "k \<in> dom (as_idx st)" using assms(2) by auto
  then have "k \<in> nd_id ` set keys" using assms(1) by (simp add: asm_done_def asm_ok_def)
  then obtain i where i: "i < length keys" "nd_id (keys ! i) = k" by (auto simp: in_set_conv_nth)
  with assms(1) have "as_idx st k = Some i" "find_node g k = Some (keys ! i)"
    by (auto simp: asm_done_def asm_ok_def)
  with assms i show ?thesis by simp
qed

lemma destination_loaded:
  assumes fin: "asm_done g keys (length keys) st" and fits: "start + length keys \<le> 2 ^ 28 - 8"
    and ok: "graph_ok g" and n: "n \<in> set (gr_objects g)" and settled: "settled g (as_idx st) n"
    and d0: "d0 = destination_word (wired g (as_idx st) n f)"
    and d: "d = (if \<not> is_device g n f \<and> d0 \<noteq> DEV_NULL_DESTINATION
      then increment_destination_address d0 (of_nat start) else d0)"
  shows "loaded_destination g keys start n f d"
proof (cases "destination_at f n")
  case None
  then show ?thesis
    by (simp add: loaded_destination_def d d0 wired_def destination_word_def device_words)
next
  case (Some nd)
  have input: "dst_input nd \<le> 1" using ok n Some by (cases f) (auto simp: graph_ok_def)
  from settled Some obtain v where v: "wired g (as_idx st) n f = Some v" by (auto simp: settled_def)
  with Some obtain target where target: "find_node g (dst_node nd) = Some target"
    by (auto simp: wired_def bind_eq_Some_conv)
  show ?thesis
  proof (cases "device_of target")
    case (Some w)
    with v target \<open>destination_at f n = Some nd\<close> have "v = w" "is_device g n f"
      by (auto simp: wired_def is_device_def)
    with v Some show ?thesis
      by (auto simp: loaded_destination_def \<open>destination_at f n = Some nd\<close> target d d0 destination_word_def
          device_of_def device_words split: if_splits)
  next
    case None
    with v target Some obtain j m where j: "as_idx st (dst_node nd) = Some j" and m: "matching_of target = Some m"
      and v': "v = create_destination (int j) (dst_input nd) m"
      by (auto simp: wired_def bind_eq_Some_conv)
    have key: "j < length keys" "keys ! j = target" using numbered_node [OF fin j target] by simp_all
    have "d0 = word_of_int v" by (simp add: d0 v destination_word_def)
    moreover have "\<not> is_device g n f" using None target Some by (simp add: is_device_def)
    moreover have "(word_of_int v :: u32) \<noteq> DEV_NULL_DESTINATION"
      unfolding v' using address_not_null [of j] key(1) fits input matching_bound [OF m] by simp
    ultimately have "d = increment_destination_address (word_of_int v) (of_nat start)" by (simp add: d)
    with increment_moves have "moved_destination (of_nat start) (word_of_int v) d" by simp
    from points_to_moved [OF key _ input matching_bound [OF m] this [unfolded v']] fits
    have "points_to keys start target (dst_input nd) m d" by simp
    with None m show ?thesis
      by (auto simp: loaded_destination_def Some target device_of_def split: if_splits)
  qed
qed

lemma second_destination_marker:
  assumes fin: "asm_done g keys (length keys) st" and fits: "length keys \<le> 2 ^ 28"
    and ok: "graph_ok g" and n: "n \<in> set (gr_objects g)" and settled: "settled g (as_idx st) n"
  shows "(case wired g (as_idx st) n Destination_2 of None \<Rightarrow> 0 | Some v \<Rightarrow> if v = 0 then 0 else 1)
    = (if nd_destination_2 n = None \<or> lost_destination g keys n then ONE_OUTPUT_MARKER else BOTH_OUTPUT_MARKER)"
proof (cases "nd_destination_2 n")
  case None
  then show ?thesis by (simp add: wired_def ONE_OUTPUT_MARKER_def)
next
  case (Some nd)
  have input: "dst_input nd \<le> 1" using ok n Some by (fastforce simp: graph_ok_def)
  from settled Some obtain v where v: "wired g (as_idx st) n Destination_2 = Some v"
    by (metis destination_at.simps(2) option.distinct(1) option.exhaust settled_def)
  with Some obtain target where target: "find_node g (dst_node nd) = Some target"
    by (auto simp: wired_def bind_eq_Some_conv)
  have "v = 0 \<longleftrightarrow> lost_destination g keys n"
  proof (cases "device_of target")
    case (Some w)
    have "(word_of_int w :: u32) \<noteq> 0"
      using Some by (auto simp: device_of_def device_words OUTPUTD_DESTINATION_def OUTPUTS_DESTINATION_def
          CREATE_DESTINATION_def MATCHING_ONE_def split: if_splits)
    moreover have "v = w" using v target Some \<open>nd_destination_2 n = Some nd\<close> by (simp add: wired_def)
    ultimately have "v \<noteq> 0" by (cases "v = 0") simp_all
    with Some \<open>nd_destination_2 n = Some nd\<close> target show ?thesis by (simp add: lost_destination_def)
  next
    case None
    with v target Some obtain j m where j: "as_idx st (dst_node nd) = Some j" and m: "matching_of target = Some m"
      and v': "v = create_destination (int j) (dst_input nd) m"
      by (auto simp: wired_def bind_eq_Some_conv)
    have key: "j < length keys" "keys ! j = target" using numbered_node [OF fin j target] by simp_all
    then have small: "j < 2 ^ 28" using fits by simp
    have distinct: "distinct keys" using fin by (auto simp: asm_done_def asm_ok_def distinct_map)
    have "uint (word_of_int v :: u32) = v"
      using create_destination_bound [of "int j" "dst_input nd" m] by (simp add: v' uint_word_of_int)
    then have "v = 0 \<longleftrightarrow> (word_of_int v :: u32) = 0" by (metis uint_0_iff)
    also have "\<dots> \<longleftrightarrow> j = 0 \<and> dst_input nd = 0 \<and> m = 0"
    proof
      assume zero: "(word_of_int v :: u32) = 0"
      have "DESTINATION_TO_ADDRESS 0 = 0" "DESTINATION_TO_INPUT 0 = 0" "DESTINATION_TO_MATCHING_FUNCTION 0 = 0"
        by (simp_all add: DESTINATION_TO_ADDRESS_def DESTINATION_TO_INPUT_def DESTINATION_TO_MATCHING_FUNCTION_def)
      with destination_parts [OF small input matching_bound [OF m]] zero
      have "(of_nat j :: u32) = 0" "(of_nat (dst_input nd) :: u32) = 0" "(of_nat m :: u32) = 0"
        by (simp_all add: v')
      then have "unat (of_nat j :: u32) = 0" "unat (of_nat (dst_input nd) :: u32) = 0" "unat (of_nat m :: u32) = 0"
        by simp_all
      then show "j = 0 \<and> dst_input nd = 0 \<and> m = 0"
        using small input matching_bound [OF m] by (simp add: unat_of_nat)
    qed (simp add: v' create_destination_def)
    also have "\<dots> \<longleftrightarrow> lost_destination g keys n"
    proof -
      have "j = 0 \<longleftrightarrow> target = keys ! 0"
        using key distinct nth_eq_iff_index_eq [of keys j 0] by (cases keys) auto
      then show ?thesis using None m target Some by (auto simp: lost_destination_def)
    qed
    finally show ?thesis .
  qed
  with v Some show ?thesis by (simp add: ONE_OUTPUT_MARKER_def BOTH_OUTPUT_MARKER_def)
qed

text \<open>A label in the first input, or else the literal.\<close>

definition loaded_operand :: "graph \<Rightarrow> node list \<Rightarrow> nat \<Rightarrow> node \<Rightarrow> u64 \<Rightarrow> bool" where
  "loaded_operand g keys start n w \<longleftrightarrow> (case label_of g (nd_input_1 n) of
       None \<Rightarrow> w = operand_word (nd_input_1 n)
     | Some k \<Rightarrow> \<exists>target d. find_node g k = Some target \<and> points_to keys start target 0 0 d \<and> w = ucast d)"

definition loaded_node :: "graph \<Rightarrow> node list \<Rightarrow> nat \<Rightarrow> bool \<Rightarrow> export_node list \<Rightarrow> node \<Rightarrow> instruction \<Rightarrow> bool" where
  "loaded_node g keys start is_privileged exports n inst \<longleftrightarrow>
     (let opcode = word_of_int (opc_opcode (nd_opcode n))
      in inst_opcode inst = (if \<not> is_privileged \<and> privileged opcode then opcode_val DUP else opcode))
     \<and> (case extern_of g (nd_id n) of
          None \<Rightarrow> loaded_destination g keys start n Destination_1 (inst_destination_1 inst)
        | Some extern \<Rightarrow> \<exists>node. find_export (name_string (pack_name extern)) exports = Some node
            \<and> inst_destination_1 inst = node_current_destination node)
     \<and> loaded_destination g keys start n Destination_2 (inst_destination_2 inst)
     \<and> inst_marker inst = (if nd_destination_2 n = None \<or> lost_destination g keys n
          then ONE_OUTPUT_MARKER else BOTH_OUTPUT_MARKER)
     \<and> loaded_operand g keys start n (inst_literal_1 inst)
     \<and> inst_literal_2 inst = operand_word (nd_input_2 n)
     \<and> inst_instruction_literal inst = literal_count (nd_input_1 n) (nd_input_2 n)"

lemma operand_loaded:
  assumes fin: "asm_done g keys (length keys) st" and fits: "start + length keys \<le> 2 ^ 28 - 8"
    and ok: "graph_ok g" and settled: "settled g (as_idx st) n"
    and w0: "w0 = operand_word (ai_literal_1 (finished_instruction g (as_idx st) n))"
    and w: "w = (if label_of g (nd_input_1 n) \<noteq> None
      then ucast (increment_destination_address (ucast w0) (of_nat start)) else w0)"
  shows "loaded_operand g keys start n w"
proof (cases "label_of g (nd_input_1 n)")
  case None
  then show ?thesis by (simp add: loaded_operand_def w w0 finished_instruction_def)
next
  case (Some k)
  then have "k \<in> snd ` set (gr_labels g)"
    by (auto simp: label_of_def dest!: map_of_SomeD split: option.splits operand.splits intro: rev_image_eqI)
  with ok obtain target where target: "find_node g k = Some target" by (fastforce simp: graph_ok_def)
  from settled Some obtain j where j: "as_idx st k = Some j" by (auto simp: settled_def)
  have key: "j < length keys" "keys ! j = target" using numbered_node [OF fin j target] by simp_all
  let ?d = "increment_destination_address (word_of_int (create_destination (int j) 0 0)) (of_nat start)"
  have "(ucast (word_of_int v :: u64) :: u32) = word_of_int v" for v
    by (rule bit_word_eqI) (simp add: bit_simps)
  then have "w = ucast ?d"
    by (simp add: w w0 Some finished_instruction_def j operand_word_def)
  moreover have "points_to keys start target 0 0 ?d"
    using points_to_moved [OF key _ _ _ increment_moves, of start 0 0] fits by simp
  ultimately show ?thesis using Some target by (auto simp: loaded_operand_def)
qed

lemma node_loaded:
  assumes fin: "asm_done g keys (length keys) st" and fits: "start + length keys \<le> 2 ^ 28 - 8"
    and ok: "graph_ok g" and i: "i < length keys"
    and img: "img = image_of st symbols"
    and moved: "moved = relocate_instruction (img_constants img) (img_to_fix img) (of_nat start) is_privileged
      (of_nat i) (img_instructions img ! i)"
    and ps: "ps = patches_of exports (img_references img) i"
    and found: "\<forall>r\<in>set (img_references img). find_export (name_string (ext_name r)) exports \<noteq> None"
    and inst: "inst_destination_1 inst = patched 0 ps (inst_destination_1 moved)"
      "inst_destination_2 inst = patched 1 ps (inst_destination_2 moved)"
      "inst_literal_1 inst = patched 2 ps (inst_literal_1 moved)"
      "inst_literal_2 inst = patched 3 ps (inst_literal_2 moved)"
      "inst_opcode inst = patched 7 ps (inst_opcode moved)"
      "inst_marker inst = inst_marker (img_instructions img ! i)"
      "inst_instruction_literal inst = inst_instruction_literal (img_instructions img ! i)"
  shows "loaded_node g keys start is_privileged exports (keys ! i) inst"
proof -
  let ?n = "keys ! i" and ?f = "finished_instruction g (as_idx st) (keys ! i)"
  have small: "length keys \<le> 2 ^ 28" using fits by simp
  have len: "length (as_instructions st) = length keys" using fin by (simp add: asm_done_def asm_ok_def)
  have f: "as_instructions st ! i = ?f" and settled: "settled g (as_idx st) ?n"
    using fin i by (simp_all add: asm_done_def)
  have "find_node g (nd_id ?n) = Some ?n" using fin i by (simp add: asm_done_def asm_ok_def)
  then have n: "?n \<in> set (gr_objects g)" using find_node_Some by simp
  have img_i: "img_instructions img ! i = instruction_of ?f" using i len f by (simp add: img image_of_def)
  note c = constants_in_list [OF fin small i] and l = labels_in_list [OF fin small i]
  have tables: "img_constants img = map update_of (as_constants st)" "img_to_fix img = map update_of (as_labels st)"
    by (simp_all add: img image_of_def)
  note fields = relocate_fields [of "img_constants img" "img_to_fix img" "of_nat start" is_privileged "of_nat i"
      "img_instructions img ! i", folded moved, unfolded img_i tables c l if_not_P [OF l(2)]]
  have ps': "ps = (case extern_of g (nd_id ?n) of None \<Rightarrow> []
      | Some extern \<Rightarrow> [(1, node_current_destination (the (find_export (name_string (pack_name extern)) exports)))])"
    unfolding ps img by (rule patches_of_node [OF fin small i])
  have bits: "bit (1 :: byte) 0" "\<not> bit (1 :: byte) 1" "\<not> bit (1 :: byte) 2" "\<not> bit (1 :: byte) 3" "\<not> bit (1 :: byte) 7"
    by simp_all
  have other: "patched k ps v = v" if "k \<in> {1, 2, 3, 7}" for k and v :: "'a::len word"
    using that bits by (auto simp: ps' patched_def split: option.splits)
  have one: "loaded_destination g keys start ?n Destination_1 (inst_destination_1 moved)"
    by (rule destination_loaded [OF fin fits ok n settled refl])
      (simp add: fields(1) instruction_of_def finished_instruction_def)
  have two: "loaded_destination g keys start ?n Destination_2 (inst_destination_2 moved)"
    by (rule destination_loaded [OF fin fits ok n settled refl])
      (simp add: fields(2) instruction_of_def finished_instruction_def)
  have operand: "loaded_operand g keys start ?n (inst_literal_1 moved)"
    by (rule operand_loaded [OF fin fits ok settled refl])
      (simp add: fields(3) instruction_of_def)
  have first: "case extern_of g (nd_id ?n) of
      None \<Rightarrow> loaded_destination g keys start ?n Destination_1 (inst_destination_1 inst)
    | Some extern \<Rightarrow> \<exists>node. find_export (name_string (pack_name extern)) exports = Some node
        \<and> inst_destination_1 inst = node_current_destination node"
  proof (cases "extern_of g (nd_id ?n)")
    case None
    with one inst(1) show ?thesis by (simp add: ps' patched_def)
  next
    case (Some extern)
    have "as_external_references st = concat (map (\<lambda>i. externals_of g (keys ! i) i) [0..<length keys])"
      using fin by (simp add: asm_done_def)
    with Some i have "((blank_update i)\<lparr>up_is_first_destination := True\<rparr>, extern) \<in> set (as_external_references st)"
      by (auto simp: externals_of_def intro!: bexI [of _ i])
    then have "\<exists>r\<in>set (img_references img). ext_name r = pack_name extern"
      by (force simp: img image_of_def)
    with found obtain node where "find_export (name_string (pack_name extern)) exports = Some node" by fastforce
    moreover from this have "inst_destination_1 inst = node_current_destination node"
      using Some by (simp add: inst(1) ps' patched_def)
    ultimately show ?thesis using Some by simp
  qed
  have marker: "inst_marker inst = (if nd_destination_2 ?n = None \<or> lost_destination g keys ?n
      then ONE_OUTPUT_MARKER else BOTH_OUTPUT_MARKER)"
    using second_destination_marker [OF fin small ok n settled]
    by (simp add: inst(6) img_i instruction_of_def finished_instruction_def)
  have literals: "inst_literal_2 inst = operand_word (nd_input_2 ?n)"
    "inst_instruction_literal inst = literal_count (nd_input_1 ?n) (nd_input_2 ?n)"
  proof -
    show "inst_literal_2 inst = operand_word (nd_input_2 ?n)"
      using other [of 3 "inst_literal_2 moved"]
      by (simp add: inst(4) fields(4) instruction_of_def finished_instruction_def)
    have "(ai_literal_1 ?f \<noteq> None) = (nd_input_1 ?n \<noteq> None)"
      using settled by (auto simp: finished_instruction_def settled_def label_of_def split: option.splits)
    then show "inst_instruction_literal inst = literal_count (nd_input_1 ?n) (nd_input_2 ?n)"
      by (simp add: inst(7) img_i instruction_of_def literal_count_def) (simp add: finished_instruction_def)
  qed
  have opcode: "inst_opcode inst = (if \<not> is_privileged \<and> privileged (word_of_int (opc_opcode (nd_opcode ?n)))
      then opcode_val DUP else word_of_int (opc_opcode (nd_opcode ?n)))"
    using other [of 7 "inst_opcode moved"]
    by (simp add: inst(5) fields(5) instruction_of_def finished_instruction_def del: opcode_val.simps)
  show ?thesis
    unfolding loaded_node_def Let_def
    using opcode first marker literals two operand other [of 1 "inst_destination_2 moved"]
      other [of 2 "inst_literal_1 moved"] by (simp add: inst(2,3) del: opcode_val.simps)
qed

section \<open>Exports\<close>

definition loaded_export :: "graph \<Rightarrow> node list \<Rightarrow> nat \<Rightarrow> byte list \<Rightarrow> export_node \<Rightarrow> bool" where
  "loaded_export g keys start export e \<longleftrightarrow> (\<exists>k target. map_of (gr_labels g) export = Some k
     \<and> find_node g k = Some target \<and> points_to keys start target 0 0 (node_current_destination e)
     \<and> node_name e = name_string (pack_name export))"

lemma export_symbols_spec:
  assumes "export_symbols g st exports = Some symbols"
  shows "list_all2 (\<lambda>export (d, name). name = export \<and> (\<exists>k j. map_of (gr_labels g) export = Some k
     \<and> as_idx st k = Some j \<and> d = create_destination (int j) 0 0)) exports symbols"
  using assms by (induction exports arbitrary: symbols) (auto simp: bind_eq_Some_conv)

lemma exports_loaded:
  assumes fin: "asm_done g keys (length keys) st" and fits: "start + length keys \<le> 2 ^ 28 - 8"
    and ok: "graph_ok g" and symbols: "export_symbols g st (gr_exports g) = Some symbols"
    and nodes: "list_all2 (\<lambda>e node. moved_destination (of_nat start) (exp_local_destination e)
        (node_current_destination node) \<and> node_name node = name_string (exp_name e))
      (img_exports (image_of st symbols)) nodes"
  shows "list_all2 (loaded_export g keys start) (gr_exports g) nodes"
proof -
  have one: "loaded_export g keys start export node"
    if k: "map_of (gr_labels g) export = Some k" and j: "as_idx st k = Some j"
      and moved: "moved_destination (of_nat start) (word_of_int (create_destination (int j) 0 0)) (node_current_destination node)"
      and name: "node_name node = name_string (pack_name export)" for export k j node
  proof -
    from ok k obtain target where target: "find_node g k = Some target"
      by (fastforce simp: graph_ok_def dest!: map_of_SomeD)
    have key: "j < length keys" "keys ! j = target" using numbered_node [OF fin j target] by simp_all
    from points_to_moved [OF key _ _ _ moved] fits k target name show ?thesis
      by (auto simp: loaded_export_def)
  qed
  have "list_all2 (\<lambda>(d, name) node. moved_destination (of_nat start) (word_of_int d) (node_current_destination node)
      \<and> node_name node = name_string (pack_name name)) symbols nodes"
    using nodes by (simp add: image_of_def list_all2_map1 split_def)
  with export_symbols_spec [OF symbols] show ?thesis
    by (rule list_all2_trans [rotated 1]) (use one in auto)
qed

lemma extern_of_name: "extern_of g k = Some extern \<Longrightarrow> extern \<in> fst ` set (gr_external_references g)"
proof -
  let ?f = "\<lambda>(extern, nodes) found. if k \<in> set nodes then Some extern else found"
  have "fold ?f xs acc = Some extern \<Longrightarrow> acc = Some extern \<or> extern \<in> fst ` set xs" for acc
    and xs :: "(byte list \<times> nat list) list"
  proof (induction xs arbitrary: acc)
    case (Cons x xs)
    from Cons.IH [of "?f x acc"] Cons.prems show ?case by (cases x) (simp split: if_splits; blast)
  qed simp
  from this [of "gr_external_references g" None]
  show "extern_of g k = Some extern \<Longrightarrow> extern \<in> fst ` set (gr_external_references g)"
    by (simp add: extern_of_def)
qed

lemma assembled_graph_loads:
  assumes "assemble g = Some content" and ok: "graph_ok g"
    and found: "\<forall>(name, nodes)\<in>set (gr_external_references g).
      find_export (name_string (pack_name name)) (cs_exports cs) \<noteq> None"
    and start: "start = length (cs_instructions cs)"
    and fits: "start + min (length content div 40) (length (gr_objects g)) \<le> 2 ^ 28 - 8"
  shows "\<exists>keys cs' info. load_image content is_privileged cs = Ok (cs', Some info)
    \<and> distinct (map nd_id keys)
    \<and> prefix (filter (\<lambda>k. device_of (the (find_node g k)) = None) (gr_nodes g)) (map nd_id keys)
    \<and> (\<forall>n\<in>set keys. find_node g (nd_id n) = Some n \<and> device_of n = None)
    \<and> lci_instructions info = start \<and> lci_current_num_instructions info = length keys
    \<and> length (cs_instructions cs') = start + length keys
    \<and> (\<forall>i<length keys. loaded_node g keys start is_privileged (cs_exports cs) (keys ! i)
         (cs_instructions cs' ! (start + i)))
    \<and> list_all2 (loaded_export g keys start) (gr_exports g) (lci_exports info)"
proof -
  from assemble_image [OF assms(1)] obtain st symbols where
    gi: "graph_to_instructions g = Some (st, symbols)" and content: "content = image_bytes (image_of st symbols)"
    and image: "image_fits (image_of st symbols)" by blast
  from graph_to_instructions_spec [OF gi ok] obtain keys where fin: "asm_done g keys (length keys) st"
    and all: "prefix (filter (\<lambda>k. device_of (the (find_node g k)) = None) (gr_nodes g)) (map nd_id keys)" by blast
  from gi have symbols: "export_symbols g st (gr_exports g) = Some symbols"
    by (auto simp: graph_to_instructions_def bind_eq_Some_conv)
  let ?img = "image_of st symbols"
  have n: "length (img_instructions ?img) = length keys" using fin by (simp add: image_of_def asm_done_def asm_ok_def)
  have "length (concat (map (instruction_bytes 0) (img_instructions ?img))) = 40 * length keys"
    using length_concat_map [of "img_instructions ?img" "instruction_bytes 0" 40]
    by (simp add: n instruction_codec.length_enc)
  then have "40 * length keys \<le> length content" by (simp add: content image_bytes_def)
  then have "length keys \<le> length content div 40" by simp
  moreover have "length keys \<le> length (gr_objects g)"
  proof -
    have "distinct keys" "set keys \<subseteq> set (gr_objects g)"
      using fin find_node_Some(1) by (fastforce simp: asm_done_def asm_ok_def distinct_map)+
    then show ?thesis
      by (metis card_length card_mono distinct_card finite_set le_trans)
  qed
  ultimately have "start + length keys \<le> start + min (length content div 40) (length (gr_objects g))" by simp
  from this fits have fits': "start + length keys \<le> 2 ^ 28 - 8" by (rule le_trans)
  then have small: "length keys \<le> 2 ^ 28" by simp
  have img: "image_of_bytes content = Some ?img" unfolding content by (rule image_roundtrip_bytes [OF image])
  have refs: "find_export (name_string (ext_name r)) (cs_exports cs) \<noteq> None"
    "\<not> reference_overruns (length keys) r" "unat (dtu_instruction_number (ext_destination r)) \<le> length keys"
    if r: "r \<in> set (img_references ?img)" for r
  proof -
    from references_inside(2) [OF fin small r] obtain k extern where
      e: "extern_of g k = Some extern" "ext_name r = pack_name extern" by blast
    then have "extern \<in> fst ` set (gr_external_references g)" using extern_of_name by blast
    with found e show "find_export (name_string (ext_name r)) (cs_exports cs) \<noteq> None" by fastforce
    show "\<not> reference_overruns (length keys) r" "unat (dtu_instruction_number (ext_destination r)) \<le> length keys"
      using references_inside(1) [OF fin small r] by (simp_all add: reference_overruns_def)
  qed
  have len: "length (cs_instructions cs @ relocate_all ?img start is_privileged) = start + length keys"
    by (simp add: start relocate_all_def n)
  have no_overrun: "\<not> (\<exists>r\<in>set (takeWhile (\<lambda>r. unat (dtu_instruction_number (ext_destination r)) \<le> length keys)
      (img_references ?img)). reference_overruns (length keys) r)"
    using refs(2) by (auto dest: set_takeWhileD)
  have all_in: "(\<forall>r\<in>set (img_references ?img). unat (dtu_instruction_number (ext_destination r)) \<le> length keys) = True"
    using refs(3) by blast
  have named: "\<forall>r\<in>set (img_references ?img). find_export (name_string (ext_name r)) (cs_exports cs) \<noteq> None"
    using refs(1) by blast
  from resolve_references_outcome [OF named len, unfolded if_not_P [OF no_overrun] all_in]
  obtain insts' where run: "resolve_references start (length keys) (cs_exports cs) (img_references ?img)
      (cs_instructions cs @ relocate_all ?img start is_privileged) = Ok (insts', True)" ..
  have not_missing: "\<not> (\<exists>r\<in>set (img_references ?img). find_export (name_string (ext_name r)) (cs_exports cs) = None)"
    using named by blast
  obtain cs' info where load: "load_image content is_privileged cs = Ok (cs', Some info)"
    unfolding load_image_def img option.case if_not_P [OF not_missing] start [symmetric] n Let_def run
    by simp
  note accepted = load_image_accepted [OF load img start]
  have nodes: "loaded_node g keys start is_privileged (cs_exports cs) (keys ! i) (cs_instructions cs' ! (start + i))"
    if i: "i < length keys" for i
  proof -
    have "i < length (img_instructions ?img)" using i n by simp
    note fields = accepted [THEN conjunct2, THEN conjunct2, THEN conjunct2, THEN conjunct2, THEN conjunct1,
        rule_format, OF this, unfolded Let_def]
    show ?thesis
      by (rule node_loaded [OF fin fits' ok i refl refl refl named])
        (rule fields [THEN conjunct1] fields [THEN conjunct2, THEN conjunct1]
          fields [THEN conjunct2, THEN conjunct2, THEN conjunct1]
          fields [THEN conjunct2, THEN conjunct2, THEN conjunct2, THEN conjunct1]
          fields [THEN conjunct2, THEN conjunct2, THEN conjunct2, THEN conjunct2, THEN conjunct1]
          fields [THEN conjunct2, THEN conjunct2, THEN conjunct2, THEN conjunct2, THEN conjunct2, THEN conjunct1]
          fields [THEN conjunct2, THEN conjunct2, THEN conjunct2, THEN conjunct2, THEN conjunct2, THEN conjunct2])+
  qed
  have "list_all2 (loaded_export g keys start) (gr_exports g) (lci_exports info)"
    by (rule exports_loaded [OF fin fits' ok symbols]) (rule accepted [THEN conjunct2, THEN conjunct2, THEN conjunct2,
        THEN conjunct2, THEN conjunct2, THEN conjunct1])
  moreover have "distinct (map nd_id keys)" "\<forall>n\<in>set keys. find_node g (nd_id n) = Some n \<and> device_of n = None"
    using fin by (simp_all add: asm_done_def asm_ok_def special_iff)
  moreover have "lci_instructions info = start" "lci_current_num_instructions info = length keys"
    "length (cs_instructions cs') = start + length keys"
    by (rule accepted [THEN conjunct1] accepted [unfolded n, THEN conjunct2, THEN conjunct1]
      accepted [unfolded n, THEN conjunct2, THEN conjunct2, THEN conjunct1])+
  ultimately show ?thesis using load all nodes by blast
qed

section \<open>Assembling and loading\<close>

text \<open>
  C12: a graph the assembler accepts is a program the loader accepts. With every external name exported by
  what was loaded before, the file loads, and its instructions are different nodes of the optimised graph,
  those on its list in their order first, the output devices left out. The instruction of a node has the
  node's opcode (DUP for a privileged one in an unprivileged program), its second literal and number of
  literals; its destinations lead to the instructions of the nodes it points to, counted from where the
  program was loaded, or to the devices, or the first one to the external name; its first literal is the
  destination of the node its label names, or the literal. It sends to both destinations if it has a
  second one, except when that is input one of the first instruction with matching function ONE: then the
  assembler takes its second destination, the number 0, for none. Each export is the destination of the
  node it names.
\<close>

theorem assembled_graph_loaded:
  assumes "output_graph g = Some content" and "graph_ok g"
    and "\<forall>(name, nodes)\<in>set (gr_external_references g).
      find_export (name_string (pack_name name)) (cs_exports cs) \<noteq> None"
    and "start = length (cs_instructions cs)" and "start + length content div 40 \<le> 2 ^ 28 - 8"
  shows "\<exists>g' keys cs' info. optimize_graph g = Some g' \<and> load_image content is_privileged cs = Ok (cs', Some info)
    \<and> distinct (map nd_id keys)
    \<and> prefix (filter (\<lambda>k. device_of (the (find_node g' k)) = None) (gr_nodes g')) (map nd_id keys)
    \<and> (\<forall>n\<in>set keys. find_node g' (nd_id n) = Some n \<and> device_of n = None)
    \<and> lci_instructions info = start \<and> lci_current_num_instructions info = length keys
    \<and> length (cs_instructions cs') = start + length keys
    \<and> (\<forall>i<length keys. loaded_node g' keys start is_privileged (cs_exports cs) (keys ! i)
         (cs_instructions cs' ! (start + i)))
    \<and> list_all2 (loaded_export g' keys start) (gr_exports g') (lci_exports info)"
proof -
  from assms(1) obtain g' where g': "optimize_graph g = Some g'" and "assemble g' = Some content"
    by (auto simp: output_graph_def bind_eq_Some_conv)
  moreover from optimize_graph_optimized [OF g' assms(2)] have "graph_ok g'"
    "gr_external_references g' = gr_external_references g" by (simp_all add: optimized_def)
  ultimately show ?thesis using assembled_graph_loads [of g' content cs start is_privileged] assms(3-5) by simp
qed

text \<open>
  A loop of two nodes, through a redundant DUP, with a label, an external reference and an output. The
  second destination of node 1 is the first instruction.
\<close>

definition loop_graph :: graph where
  "loop_graph = \<lparr>gr_objects = [plain_node DUP_OPCODE 0 None (Some (3, 0)) None False,
       plain_node DUP_OPCODE 1 None (Some (2, 0)) (Some (0, 0)) False,
       plain_node OUTD_OPCODE 2 None None None False,
       plain_node DUP_OPCODE 3 None (Some (1, 0)) None True,
       plain_node DUP_OPCODE 4 (Some (Label [109])) None None False],
     gr_nodes = [0, 1, 2, 3, 4], gr_labels = [([109], 1)], gr_external_references = [([102], [4])],
     gr_exports = [[109]]\<rparr>"

lemma loop_graph_length: "map_option length (output_graph loop_graph) = Some 676"
  by code_simp

theorem assembled_graph_loaded_witness:
  "\<exists>content g' keys cs' info. output_graph loop_graph = Some content \<and> optimize_graph loop_graph = Some g'
     \<and> load_image content True sample_store = Ok (cs', Some info) \<and> distinct (map nd_id keys)
     \<and> length (cs_instructions cs') = 1 + length keys
     \<and> (\<forall>i<length keys. loaded_node g' keys 1 True (cs_exports sample_store) (keys ! i) (cs_instructions cs' ! (1 + i)))
     \<and> list_all2 (loaded_export g' keys 1) (gr_exports g') (lci_exports info)"
proof -
  from loop_graph_length obtain content where c: "output_graph loop_graph = Some content" "length content = 676" by auto
  have "graph_ok loop_graph" by code_simp
  moreover have "\<forall>(name, nodes)\<in>set (gr_external_references loop_graph).
      find_export (name_string (pack_name name)) (cs_exports sample_store) \<noteq> None" by code_simp
  ultimately show ?thesis
    using assembled_graph_loaded [OF c(1), of sample_store 1 True] c by (simp add: sample_store_def) blast
qed

end
