(* ===== verification/Assembler_Texts.thy ===== *)
theory Assembler_Texts
  imports Assembler_Delivery Assembler_Lines Assembled_Programs
begin

text \<open>
  The assembler from the text: which graph a text is, when it is refused after its lines are read, how
  large it can become, and the file that is made of it, up to the store of the machine that loads it.
\<close>

section \<open>External names\<close>

definition extend_all :: "(byte list \<Rightarrow> nat list) \<Rightarrow> (byte list \<times> nat list) list \<Rightarrow> (byte list \<times> nat list) list" where
  "extend_all extra refs = map (\<lambda>(extern, nodes). (extern, nodes @ extra extern)) refs"

lemma extend_all_keys [simp]: "map fst (extend_all extra refs) = map fst refs"
  by (simp add: extend_all_def comp_def split_def)

lemma extend_all_twice: "extend_all f (extend_all g refs) = extend_all (\<lambda>e. g e @ f e) refs"
  by (simp add: extend_all_def comp_def split_def)

lemma extend_one:
  "distinct (map fst refs) \<Longrightarrow> map_of refs extern = Some nodes
    \<Longrightarrow> AList.update extern (nodes @ extra) refs = extend_all (\<lambda>e. if e = extern then extra else []) refs"
  unfolding extend_all_def by (induction refs) (force intro!: map_idI [symmetric])+

definition unused :: "parse_state \<Rightarrow> byte list \<Rightarrow> bool" where
  "unused st extern \<longleftrightarrow> (\<forall>i\<in>set (ps_variables st extern). nd_destination_1 (ps_nodes st ! i) = None)"

definition ids_of :: "parse_state \<Rightarrow> byte list \<Rightarrow> nat list" where
  "ids_of st extern = map (\<lambda>i. nd_id (ps_nodes st ! i)) (ps_variables st extern)"

lemma names_only [simp]: "ids_of (st\<lparr>ps_external_references := refs\<rparr>) = ids_of st"
  "unused (st\<lparr>ps_external_references := refs\<rparr>) = unused st"
  by (simp_all add: ids_of_def [abs_def] unused_def [abs_def])

lemma collect_extern_eq:
  assumes "map_of (ps_external_references st) extern = Some nodes"
  shows "collect_extern extern is st = (if \<forall>i\<in>set is. nd_destination_1 (ps_nodes st ! i) = None
    then Some (st\<lparr>ps_external_references := AList.update extern (nodes @ map (\<lambda>i. nd_id (ps_nodes st ! i)) is)
      (ps_external_references st)\<rparr>) else None)"
  using assms
proof (induction "is" arbitrary: st nodes)
  case Nil
  then show ?case by (simp add: update_triv)
next
  case (Cons i "is")
  let ?st = "st\<lparr>ps_external_references := AList.update extern (nodes @ [nd_id (ps_nodes st ! i)]) (ps_external_references st)\<rparr>"
  have "map_of (ps_external_references ?st) extern = Some (nodes @ [nd_id (ps_nodes st ! i)])"
    by (simp add: update_conv)
  from Cons.IH [OF this] Cons.prems show ?case by simp
qed

lemma collect_externs_eq:
  assumes "distinct externs" and "distinct (map fst (ps_external_references st))"
    and "set externs \<subseteq> set (map fst (ps_external_references st))"
  shows "collect_externs externs st = (if list_all (unused st) externs
    then Some (st\<lparr>ps_external_references := extend_all (\<lambda>e. if e \<in> set externs then ids_of st e else [])
      (ps_external_references st)\<rparr>) else None)"
  using assms
proof (induction externs arbitrary: st)
  case Nil
  then show ?case by (simp add: extend_all_def map_idI split_def)
next
  case (Cons e externs)
  from Cons.prems obtain nodes where e: "map_of (ps_external_references st) e = Some nodes"
    by (cases "map_of (ps_external_references st) e") (auto simp: map_of_eq_None_iff)
  let ?st = "st\<lparr>ps_external_references := extend_all (\<lambda>x. if x = e then ids_of st e else []) (ps_external_references st)\<rparr>"
  have one: "collect_extern e (ps_variables st e) st = (if unused st e then Some ?st else None)"
    unfolding collect_extern_eq [OF e] ids_of_def [symmetric] extend_one [OF Cons.prems(2) e] unused_def ..
  have rest: "collect_externs externs ?st = (if list_all (unused ?st) externs
    then Some (?st\<lparr>ps_external_references := extend_all (\<lambda>e. if e \<in> set externs then ids_of ?st e else [])
      (ps_external_references ?st)\<rparr>) else None)"
    by (rule Cons.IH) (use Cons.prems in \<open>auto simp del: set_map\<close>)
  have "(\<lambda>x. (if x = e then ids_of st e else []) @ (if x \<in> set externs then ids_of st x else []))
      = (\<lambda>x. if x \<in> set (e # externs) then ids_of st x else [])"
    using Cons.prems(1) by auto
  with one rest [unfolded names_only] show ?case by (simp add: extend_all_twice)
qed

section \<open>The graph of a text\<close>

text \<open>
  The end of a chain sends something as soon as there is a use.
\<close>

lemma open_end_free:
  assumes "linked ns (p # P) us"
  shows "nd_destination_1 (ns ! last (p # P)) = None \<longleftrightarrow> us = []"
proof -
  have "length (p # P) = (if length us \<le> 2 then 1 else length us - 1)" by (rule linked_length [OF assms])
  then have "drop (length P) us = [] \<longleftrightarrow> us = []" by (auto split: if_splits)
  with last_sends [OF assms] show ?thesis by (auto simp: sends_def)
qed

lemma unused_iff:
  assumes wired: "wired_to st W P (ps_nodes st')" and feeds: "feeds st U W" and vars: "ps_variables st' = open_ends st U P"
  shows "unused st' s \<longleftrightarrow> ps_variables st s = [] \<or> U s = []"
proof (cases "ps_variables st s = []")
  case False
  let ?ps = "ps_variables st s"
  have chain: "linked (ps_nodes st') (p # P p) (if p = last ?ps then U s else take 3 (U s))" if "p \<in> set ?ps" for p
    using wired feeds that by (auto simp: wired_to_def feeds_def definers_def)
  have free: "nd_destination_1 (ps_nodes st' ! last (p # P p)) = None \<longleftrightarrow> U s = []" if "p \<in> set ?ps" for p
    using open_end_free [OF chain [OF that]] by (simp split: if_splits)
  show ?thesis
  proof (cases "length (U s) \<le> 2")
    case True
    have "P p = []" if "p \<in> set ?ps" for p
      using linked_length [OF chain [OF that]] True by (simp split: if_splits)
    with free have "nd_destination_1 (ps_nodes st' ! p) = None \<longleftrightarrow> U s = []" if "p \<in> set ?ps" for p
      using that by fastforce
    moreover have "ps_variables st' s = ?ps" using True by (simp add: vars open_ends_def Let_def)
    ultimately show ?thesis using False by (auto simp: unused_def neq_Nil_conv)
  next
    case long: False
    then show ?thesis using False free [of "last ?ps"] by (auto simp: unused_def vars open_ends_def Let_def)
  qed
qed (simp add: unused_def vars open_ends_def)

lemma text_wired:
  assumes "parse_lines (text_lines input) empty_parse = Some st" and "st' = wire_nodes 0 st"
  obtains W P where "wired_to st W P (ps_nodes st')" and "feeds st (uses_of st) W"
    and "ps_variables st' = open_ends st (uses_of st) P"
    and "map bare (ps_nodes st') = map (resolved (label_names st) \<circ> bare) (ps_nodes st)
      @ map dup_node [length (ps_nodes st)..<length (ps_nodes st')]"
    and "map nd_id (ps_nodes st') = [0..<length (ps_nodes st')]"
    and "ps_labels st' = ps_labels st" and "ps_external_references st' = ps_external_references st"
    and "ps_exports st' = ps_exports st" and "length (ps_nodes st) \<le> length (ps_nodes st')"
proof -
  note ok = parsed_text(1) [OF assms(1)]
  have before: "wired_before st (length (ps_nodes st)) st'" unfolding assms(2) by (rule wired_nodes [OF ok])
  then have m: "map bare (ps_nodes st') = map (resolved (label_names st) \<circ> bare) (ps_nodes st)
      @ map dup_node [length (ps_nodes st)..<length (ps_nodes st')]" by (simp add: wired_before_def)
  have "nd_id (resolved L n) = nd_id n" for L n
    by (auto simp: resolved_def resolve_def settle_literal_def clear_input_def input_at_def split: option.splits operand.splits)
  then have "map nd_id (map bare (ps_nodes st')) = map nd_id (ps_nodes st) @ [length (ps_nodes st)..<length (ps_nodes st')]"
    unfolding m by (simp add: comp_def bare_def dup_node_def new_node_def)
  moreover have "map nd_id (map bare (ps_nodes st')) = map nd_id (ps_nodes st')" by (simp add: bare_def)
  ultimately have "map nd_id (ps_nodes st') = map nd_id (ps_nodes st) @ [length (ps_nodes st)..<length (ps_nodes st')]"
    by (rule trans [OF sym, rotated])
  moreover have "map nd_id (ps_nodes st) = [0..<length (ps_nodes st)]" using ok by (simp add: parsed_def)
  moreover have le: "length (ps_nodes st) \<le> length (ps_nodes st')" using before by (simp add: wired_before_def)
  ultimately have "map nd_id (ps_nodes st') = [0..<length (ps_nodes st')]"
    using upt_add_eq_append [of 0 "length (ps_nodes st)" "length (ps_nodes st') - length (ps_nodes st)"] by simp
  with before m le that show ?thesis by (auto simp: wired_before_def wiring_def uses_of_def)
qed

text \<open>What is refused, and the graph of what is not.\<close>

definition externs_unused :: "parse_state \<Rightarrow> bool" where
  "externs_unused st \<longleftrightarrow> list_all (\<lambda>(extern, nodes). ps_variables st extern = [] \<or> uses_of st extern = [])
     (ps_external_references st)"

lemma parse_graph_eq:
  assumes "parse_lines (text_lines input) empty_parse = Some st"
  shows "parse_create_ir_graph input = (if externs_unused st
    then Some \<lparr>gr_objects = ps_nodes (wire_nodes 0 st), gr_nodes = [0..<length (ps_nodes (wire_nodes 0 st))],
      gr_labels = ps_labels st,
      gr_external_references = map (\<lambda>(extern, nodes). (extern, ps_variables st extern)) (ps_external_references st),
      gr_exports = ps_exports st\<rparr>
    else None)"
proof -
  let ?st = "wire_nodes 0 st" and ?refs = "ps_external_references st"
  note ok = parsed_text(1) [OF assms]
  from text_wired [OF assms refl] obtain W P where
    wired: "wired_to st W P (ps_nodes ?st)" "feeds st (uses_of st) W" "ps_variables ?st = open_ends st (uses_of st) P"
    and ids: "map nd_id (ps_nodes ?st) = [0..<length (ps_nodes ?st)]"
    and same: "ps_labels ?st = ps_labels st" "ps_external_references ?st = ?refs" "ps_exports ?st = ps_exports st"
    and le: "length (ps_nodes st) \<le> length (ps_nodes ?st)" by metis
  have accepted: "list_all (unused ?st) (map fst ?refs) \<longleftrightarrow> externs_unused st"
    by (simp add: externs_unused_def list_all_iff split_def unused_iff [OF wired])
  have ids_of: "ids_of ?st e = ps_variables st e" if "unused ?st e" for e
  proof -
    have "ps_variables ?st e = ps_variables st e"
      using that by (auto simp: unused_iff [OF wired] wired(3) open_ends_def Let_def)
    moreover have "nd_id (ps_nodes ?st ! i) = i" if "i \<in> set (ps_variables st e)" for i
    proof -
      have "i \<in> definers st" using that by (auto simp: definers_def)
      then have "i < length (ps_nodes ?st)" using definers_inside [OF ok] le by fastforce
      then show ?thesis using ids by (metis add_0 length_map nth_map nth_upt)
    qed
    ultimately show ?thesis by (simp add: ids_of_def map_idI)
  qed
  have "extend_all (\<lambda>e. if e \<in> set (map fst ?refs) then ids_of ?st e else []) ?refs
      = map (\<lambda>(extern, nodes). (extern, ps_variables st extern)) ?refs" if "list_all (unused ?st) (map fst ?refs)"
    unfolding extend_all_def
  proof (rule map_cong [OF refl])
    fix x assume e: "x \<in> set ?refs"
    obtain e nodes where x: "x = (e, nodes)" by (rule prod.exhaust)
    note e = e [unfolded x]
    have "\<forall>(e, nodes)\<in>set ?refs. nodes = []" using ok by (simp add: parsed_def)
    with e have "nodes = []" by blast
    moreover have "e \<in> set (map fst ?refs)" using e by force
    moreover from this have "unused ?st e" using that unfolding list_all_iff by blast
    ultimately show "(case x of (e, nodes) \<Rightarrow> (e, nodes @ (if e \<in> set (map fst ?refs) then ids_of ?st e else [])))
        = (case x of (e, nodes) \<Rightarrow> (e, ps_variables st e))"
      using ids_of by (simp add: x)
  qed
  moreover have "collect_externs (map fst ?refs) ?st = (if list_all (unused ?st) (map fst ?refs)
    then Some (?st\<lparr>ps_external_references := extend_all (\<lambda>e. if e \<in> set (map fst ?refs) then ids_of ?st e else [])
      ?refs\<rparr>) else None)"
    using collect_externs_eq [of "map fst ?refs" ?st] ok by (simp add: same parsed_def)
  ultimately show ?thesis
    by (simp add: parse_create_ir_graph_def assms Let_def same accepted graph_of_def ids)
qed

lemma parsed_graph:
  assumes "parse_create_ir_graph input = Some g"
  shows "\<exists>st. parse_lines (text_lines input) empty_parse = Some st \<and> parsed st \<and> externs_unused st
    \<and> g = \<lparr>gr_objects = ps_nodes (wire_nodes 0 st), gr_nodes = [0..<length (ps_nodes (wire_nodes 0 st))],
      gr_labels = ps_labels st,
      gr_external_references = map (\<lambda>(extern, nodes). (extern, ps_variables st extern)) (ps_external_references st),
      gr_exports = ps_exports st\<rparr>"
proof -
  from assms obtain st where st: "parse_lines (text_lines input) empty_parse = Some st"
    by (auto simp: parse_create_ir_graph_def bind_eq_Some_conv)
  with assms parsed_text(1) [OF st] show ?thesis
    by (intro exI [of _ st]) (simp add: parse_graph_eq [OF st] split: if_splits)
qed

text \<open>
  C13: the graph of an accepted text: its nodes are those of the lines, with variables and placeholders
  cleared from their inputs and a lone second literal moved to the first input, followed by DUP nodes. A
  node that is the last one to define a variable sends its value to all uses of the variable, directly or
  by a chain of DUP nodes of its own; a node that is not the last one reaches only the first three uses.
  The chains are apart and make up all the new nodes, and nodes that define no variable lead where the
  line said. The nodes of an external name are those that define it.
\<close>

theorem variables_are_wired:
  assumes "parse_create_ir_graph input = Some g"
  shows "\<exists>st P. parse_lines (text_lines input) empty_parse = Some st
    \<and> map bare (gr_objects g) = map (resolved (label_names st) \<circ> bare) (ps_nodes st)
         @ map dup_node [length (ps_nodes st)..<length (gr_objects g)]
    \<and> (\<forall>s. \<forall>p\<in>set (ps_variables st s). distinct (P p) \<and> linked (gr_objects g) (p # P p)
         (if p = last (ps_variables st s) then uses_of st s else take 3 (uses_of st s)))
    \<and> disjoint_family_on (\<lambda>p. set (P p)) (definers st)
    \<and> (\<Union>p\<in>definers st. set (P p)) = {length (ps_nodes st)..<length (gr_objects g)}
    \<and> (\<forall>k<length (ps_nodes st). k \<notin> definers st \<longrightarrow> dests (gr_objects g ! k) = dests (ps_nodes st ! k))
    \<and> gr_nodes g = [0..<length (gr_objects g)] \<and> gr_labels g = ps_labels st \<and> gr_exports g = ps_exports st
    \<and> gr_external_references g
        = map (\<lambda>(extern, nodes). (extern, ps_variables st extern)) (ps_external_references st)"
proof -
  from parsed_graph [OF assms] obtain st where st: "parse_lines (text_lines input) empty_parse = Some st"
    and g: "g = \<lparr>gr_objects = ps_nodes (wire_nodes 0 st), gr_nodes = [0..<length (ps_nodes (wire_nodes 0 st))],
      gr_labels = ps_labels st,
      gr_external_references = map (\<lambda>(extern, nodes). (extern, ps_variables st extern)) (ps_external_references st),
      gr_exports = ps_exports st\<rparr>" by blast
  from text_wired [OF st refl] obtain W P where wired: "wired_to st W P (ps_nodes (wire_nodes 0 st))"
    "feeds st (uses_of st) W" and bare: "map bare (ps_nodes (wire_nodes 0 st))
      = map (resolved (label_names st) \<circ> bare) (ps_nodes st)
        @ map dup_node [length (ps_nodes st)..<length (ps_nodes (wire_nodes 0 st))]" by metis
  have chains: "distinct (P p) \<and> linked (gr_objects g) (p # P p)
      (if p = last (ps_variables st s) then uses_of st s else take 3 (uses_of st s))"
    if p: "p \<in> set (ps_variables st s)" for s p
  proof -
    have "p \<in> definers st" using p by (auto simp: definers_def)
    then have "distinct (P p)" "linked (gr_objects g) (p # P p) (W p)"
      using wired(1) by (simp_all add: wired_to_def g)
    then show ?thesis using wired(2) p by (simp add: feeds_def)
  qed
  show ?thesis
    by (intro exI [of _ st] exI [of _ P] conjI allI ballI)
      (use wired(1) chains in \<open>simp_all add: g st bare wired_to_def\<close>)
qed

text \<open>Two definitions and four uses of a variable.\<close>

definition shared_text :: "byte list" where
  "shared_text = concat (map (\<lambda>line. ascii line @ [10])
     [''x = DUP 1'', ''x = DUP 2'', ''OUTD x'', ''OUTD x'', ''OUTD x'', ''OUTD x''])"

lemma shared_text_graph:
  "map_option (map dests \<circ> gr_objects) (parse_create_ir_graph shared_text) = Some (let to = (\<lambda>k. Some \<lparr>dst_node = k, dst_input = 0\<rparr>)
     in [(to 2, to 6), (to 2, to 7), (None, None), (None, None), (None, None), (None, None),
       (to 3, to 4), (to 3, to 8), (to 4, to 5)])"
  by code_simp

theorem variables_are_wired_witness:
  "\<exists>g st P. parse_create_ir_graph shared_text = Some g \<and> parse_lines (text_lines shared_text) empty_parse = Some st
     \<and> ps_variables st (ascii ''x'') = [0, 1] \<and> length (uses_of st (ascii ''x'')) = 4
     \<and> linked (gr_objects g) (0 # P (0::nat)) (take 3 (uses_of st (ascii ''x'')))
     \<and> linked (gr_objects g) (1 # P 1) (uses_of st (ascii ''x'')) \<and> set (P 0) \<inter> set (P 1) = {}"
proof -
  from shared_text_graph obtain g where g: "parse_create_ir_graph shared_text = Some g" by auto
  have "map_option (\<lambda>st. (ps_variables st (ascii ''x''), length (uses_of st (ascii ''x''))))
      (parse_lines (text_lines shared_text) empty_parse) = Some ([0, 1], 4)" by code_simp
  with variables_are_wired [OF g] obtain st P where st: "parse_lines (text_lines shared_text) empty_parse = Some st"
    and x: "ps_variables st (ascii ''x'') = [0, 1]" "length (uses_of st (ascii ''x'')) = 4"
    and chains: "\<forall>s. \<forall>p\<in>set (ps_variables st s). distinct (P p) \<and> linked (gr_objects g) (p # P p)
         (if p = last (ps_variables st s) then uses_of st s else take 3 (uses_of st s))"
    and apart: "disjoint_family_on (\<lambda>p. set (P p)) (definers st)" by auto
  have "0 \<in> definers st" "1 \<in> definers st"
    unfolding definers_def using x(1) by (metis UN_I UNIV_I list.set_intros)+
  then have "set (P 0) \<inter> set (P 1) = {}" using apart by (simp add: disjoint_family_on_def)
  moreover note chains [rule_format, of 0 "ascii ''x''", unfolded x] chains [rule_format, of 1 "ascii ''x''", unfolded x]
  ultimately show ?thesis using g st x by (intro exI [of _ g] exI [of _ st] exI [of _ P] conjI) simp_all
qed

text \<open>
  C39: behind the lines a text is refused only by the assertion on the external names, and exactly when a
  name that is declared external has both a definition and a use.
\<close>

theorem external_names_are_not_used:
  "parse_create_ir_graph input \<noteq> None \<longleftrightarrow> (case parse_lines (text_lines input) empty_parse of
       None \<Rightarrow> False
     | Some st \<Rightarrow> list_all (\<lambda>(extern, nodes). ps_variables st extern = [] \<or> uses_of st extern = [])
         (ps_external_references st))"
proof (cases "parse_lines (text_lines input) empty_parse")
  case None
  then show ?thesis by (simp add: parse_create_ir_graph_def)
next
  case (Some st)
  then show ?thesis by (simp add: parse_graph_eq [OF Some] externs_unused_def)
qed

section \<open>The graph is well formed\<close>

lemma linked_leads:
  assumes "linked ns path us" and "q \<in> set path" and "destination_at f (ns ! q) = Some d"
  shows "d \<in> set us \<or> (dst_node d \<in> set path \<and> dst_input d = 0)"
  using assms
proof (induction ns path us rule: linked.induct)
  case (2 ns p us)
  then show ?case by (cases f) (auto simp: sends_def split: if_splits)
next
  case (3 ns p q qs us)
  then obtain u us' where us: "us = u # us'" by (cases us) auto
  show ?case
  proof (cases "q = p")
    case True
    with 3 us show ?thesis by (cases f) (auto simp: dests_def)
  next
    case False
    with 3 us show ?thesis by (cases f) (auto simp: dests_def)
  qed
qed simp

lemma uses_inside: "u \<in> set (uses_of st s) \<Longrightarrow> dst_node u < length (ps_nodes st) \<and> dst_input u \<le> 1"
  by (auto simp: uses_of_def uses_before_def use_at_def split: if_splits)

lemma destination_at_dests: "dests n = dests m \<Longrightarrow> destination_at f n = destination_at f m"
  by (cases f) (simp_all add: dests_def)

lemma parsed_graph_leads:
  assumes "parse_create_ir_graph input = Some g" and "i < length (gr_objects g)"
    and "destination_at f (gr_objects g ! i) = Some d"
  shows "dst_node d < length (gr_objects g) \<and> dst_input d \<le> 1"
proof -
  from parsed_graph [OF assms(1)] obtain st where st: "parse_lines (text_lines input) empty_parse = Some st"
    and ok: "parsed st" and g: "gr_objects g = ps_nodes (wire_nodes 0 st)" by auto
  from text_wired [OF st refl] obtain W P where wired: "wired_to st W P (gr_objects g)"
    and feeds: "feeds st (uses_of st) W" and le: "length (ps_nodes st) \<le> length (gr_objects g)"
    unfolding g by metis
  show ?thesis
  proof (cases "\<exists>p\<in>definers st. i \<in> set (p # P p)")
    case True
    then obtain p s where p: "p \<in> definers st" "i \<in> set (p # P p)" "p \<in> set (ps_variables st s)"
      by (auto simp: definers_def)
    then have chain: "linked (gr_objects g) (p # P p) (W p)" using wired by (simp add: wired_to_def)
    have "set (W p) \<subseteq> set (uses_of st s)" using feeds p(3) by (auto simp: feeds_def dest: in_set_takeD)
    with linked_leads [OF chain p(2) assms(3)] show ?thesis
      using uses_inside [of d st s] linked_inside [OF chain] le by fastforce
  next
    case False
    have "i < length (ps_nodes st)"
    proof (rule ccontr)
      assume "\<not> i < length (ps_nodes st)"
      then have "i \<in> (\<Union>p\<in>definers st. set (P p))" using wired assms(2) by (simp add: wired_to_def)
      with False show False by auto
    qed
    moreover from this False have "dests (gr_objects g ! i) = dests (ps_nodes st ! i)"
      using wired by (auto simp: wired_to_def)
    ultimately have "ps_nodes st ! i \<in> set (ps_nodes st)" "destination_at f (ps_nodes st ! i) = Some d"
      using assms(3) destination_at_dests [of "gr_objects g ! i" "ps_nodes st ! i" f] by simp_all
    moreover have "\<forall>n\<in>set (ps_nodes st). \<forall>f d. destination_at f n = Some d
        \<longrightarrow> dst_node d < length (ps_nodes st) \<and> dst_input d = 0"
      using ok by (simp add: parsed_def)
    ultimately have "dst_node d < length (ps_nodes st) \<and> dst_input d = 0" by blast
    with le show ?thesis by simp
  qed
qed

lemma parsed_graph_ids:
  assumes "parse_create_ir_graph input = Some g"
  shows "map nd_id (gr_objects g) = [0..<length (gr_objects g)]"
proof -
  from parsed_graph [OF assms] obtain st where st: "parse_lines (text_lines input) empty_parse = Some st"
    and g: "gr_objects g = ps_nodes (wire_nodes 0 st)" by auto
  show ?thesis unfolding g by (rule text_wired [OF st refl])
qed

lemma find_node_place:
  assumes "map nd_id (gr_objects g) = [0..<length (gr_objects g)]" and "k < length (gr_objects g)"
  shows "find_node g k = Some (gr_objects g ! k)"
proof -
  have id: "nd_id (gr_objects g ! i) = i" if "i < length (gr_objects g)" for i
    using assms(1) that by (metis add_0 length_map nth_map nth_upt)
  show ?thesis
    unfolding find_node_def find_Some_iff by (intro exI [of _ k]) (use assms(2) id in auto)
qed

text \<open>Every destination and every label of the graph leads to a node of it.\<close>

lemma parsed_graph_ok:
  assumes "parse_create_ir_graph input = Some g"
  shows "graph_ok g"
proof -
  note ids = parsed_graph_ids [OF assms]
  from parsed_graph [OF assms] obtain st where st: "parse_lines (text_lines input) empty_parse = Some st"
    and ok: "parsed st" and g: "gr_objects g = ps_nodes (wire_nodes 0 st)" "gr_labels g = ps_labels st"
      "gr_nodes g = [0..<length (gr_objects g)]" by auto
  have le: "length (ps_nodes st) \<le> length (gr_objects g)" unfolding g(1) by (rule text_wired [OF st refl])
  have "case destination_at f n of None \<Rightarrow> True | Some d \<Rightarrow> dst_input d \<le> 1" if n: "n \<in> set (gr_objects g)" for n f
  proof -
    from n obtain i where "i < length (gr_objects g)" "n = gr_objects g ! i" by (auto simp: in_set_conv_nth)
    with parsed_graph_leads [OF assms, of i f] show ?thesis by (auto split: option.splits)
  qed
  moreover have "find_node g k \<noteq> None" if "(l, k) \<in> set (gr_labels g)" for l k
  proof -
    have "k < length (ps_nodes st)" using that ok by (auto simp: parsed_def g(2))
    with le find_node_place [OF ids, of k] show ?thesis by simp
  qed
  moreover have "distinct (gr_nodes g)" "distinct (map nd_id (gr_objects g))" by (simp_all add: g(3) ids)
  ultimately show ?thesis unfolding graph_ok_def by blast
qed

section \<open>How large the graph is\<close>

lemma uses_at_most:
  assumes "finite S"
  shows "(\<Sum>s\<in>S. length (use_at L s k n iv)) \<le> (if input_at iv n = None then 0 else 1)"
proof (cases "\<exists>t. input_at iv n = Some (Label t)")
  case True
  then obtain t where t: "input_at iv n = Some (Label t)" ..
  have "(\<Sum>s\<in>S. length (use_at L s k n iv)) \<le> (\<Sum>s\<in>S. if s = t then 1 else 0)"
    by (rule sum_mono) (simp add: use_at_def t)
  also have "\<dots> \<le> 1" using assms by simp
  finally show ?thesis using t by simp
next
  case False
  then have "use_at L s k n iv = []" for s by (auto simp: use_at_def)
  then show ?thesis by simp
qed

lemma uses_count:
  assumes "finite S"
  shows "(\<Sum>s\<in>S. length (uses_of st s)) \<le> sum_list (map input_count (ps_nodes st))"
proof -
  let ?n = "\<lambda>k. ps_nodes st ! k" and ?L = "label_names st" and ?N = "length (ps_nodes st)"
  have "length (uses_of st s) = (\<Sum>k<?N. length (use_at ?L s k (?n k) 0) + length (use_at ?L s k (?n k) 1))" for s
    by (simp add: uses_of_def uses_before_def length_concat comp_def interv_sum_list_conv_sum_set_nat
        atLeast0LessThan)
  then have "(\<Sum>s\<in>S. length (uses_of st s))
      = (\<Sum>k<?N. (\<Sum>s\<in>S. length (use_at ?L s k (?n k) 0)) + (\<Sum>s\<in>S. length (use_at ?L s k (?n k) 1)))"
    by (simp add: sum.swap [of _ S] sum.distrib)
  also have "\<dots> \<le> (\<Sum>k<?N. input_count (?n k))"
  proof (rule sum_mono)
    fix k
    have "input_count (?n k) = (if input_at 0 (?n k) = None then 0 else 1) + (if input_at 1 (?n k) = None then 0 else 1)"
      by (simp add: input_count_def input_at_def)
    then show "(\<Sum>s\<in>S. length (use_at ?L s k (?n k) 0)) + (\<Sum>s\<in>S. length (use_at ?L s k (?n k) 1)) \<le> input_count (?n k)"
      using uses_at_most [OF assms, of ?L k "?n k" 0] uses_at_most [OF assms, of ?L k "?n k" 1] by linarith
  qed
  also have "\<dots> = sum_list (map input_count (ps_nodes st))"
    by (simp add: sum_list_sum_nth atLeast0LessThan)
  finally show ?thesis .
qed

lemma wired_size:
  assumes ok: "parsed st" and wired: "wired_to st W P ns" and feeds: "feeds st (uses_of st) W"
  shows "length ns \<le> lines_size st"
proof -
  let ?D = "definers st" and ?S = "{s. ps_variables st s \<noteq> []}" and ?V = "\<lambda>s. set (ps_variables st s)"
  have "?V s \<subseteq> (\<Union>s\<in>?S. ?V s)" for s by (cases "ps_variables st s = []") auto
  then have D: "?D = (\<Union>s\<in>?S. ?V s)" unfolding definers_def by blast
  have fin: "finite ?D" using definers_inside [OF ok] by (auto intro: finite_subset [of _ "{..<length (ps_nodes st)}"])
  have "inj_on (\<lambda>s. last (ps_variables st s)) ?S"
  proof (rule inj_onI)
    fix s t assume "s \<in> ?S" "t \<in> ?S" and eq: "last (ps_variables st s) = last (ps_variables st t)"
    then have "last (ps_variables st s) \<in> ?V s" "last (ps_variables st t) \<in> ?V t"
      by (metis last_in_set mem_Collect_eq)+
    then show "s = t" unfolding eq by (rule parsed_apart [OF ok])
  qed
  moreover have "(\<lambda>s. last (ps_variables st s)) ` ?S \<subseteq> ?D" using last_in_set by (fastforce simp: definers_def)
  ultimately have finS: "finite ?S" using fin by (rule inj_on_finite)
  have apart: "?V s \<inter> ?V t = {}" if "s \<noteq> t" for s t using parsed_apart [OF ok] that by blast
  have over: "(\<Sum>p\<in>?D. f p) = (\<Sum>s\<in>?S. \<Sum>p\<in>?V s. f p)" for f :: "nat \<Rightarrow> nat"
    unfolding D by (rule sum.UNION_disjoint) (use finS apart in auto)
  have one: "(\<Sum>p\<in>?V s. length (P p)) \<le> card (?V s) + length (uses_of st s)" if s: "s \<in> ?S" for s
  proof -
    have "length (P p) \<le> 1 + (if p = last (ps_variables st s) then length (uses_of st s) else 0)" if p: "p \<in> ?V s" for p
    proof -
      have "linked ns (p # P p) (W p)" using wired p by (auto simp: wired_to_def definers_def)
      from linked_length [OF this] show ?thesis using feeds p by (auto simp: feeds_def split: if_splits)
    qed
    then have "(\<Sum>p\<in>?V s. length (P p))
        \<le> (\<Sum>p\<in>?V s. 1 + (if p = last (ps_variables st s) then length (uses_of st s) else 0))"
      by (rule sum_mono)
    also have "\<dots> = card (?V s) + length (uses_of st s)" unfolding sum.distrib using s by simp
    finally show ?thesis .
  qed
  have "length ns - length (ps_nodes st) = card (\<Union>p\<in>?D. set (P p))" using wired by (simp add: wired_to_def)
  also have "\<dots> \<le> (\<Sum>p\<in>?D. card (set (P p)))" by (rule card_UN_le [OF fin])
  also have "\<dots> \<le> (\<Sum>p\<in>?D. length (P p))" by (rule sum_mono) (rule card_length)
  also have "\<dots> \<le> (\<Sum>s\<in>?S. card (?V s) + length (uses_of st s))" unfolding over by (rule sum_mono) (rule one)
  also have "\<dots> = card ?D + (\<Sum>s\<in>?S. length (uses_of st s))"
    using over [of "\<lambda>_. 1"] by (simp add: sum.distrib)
  also have "\<dots> \<le> card ?D + sum_list (map input_count (ps_nodes st))" using uses_count [OF finS] by simp
  finally show ?thesis by (simp add: lines_size_def)
qed

lemma parsed_graph_size:
  assumes "parse_create_ir_graph input = Some g"
  shows "length (gr_objects g) \<le> 7 * length (text_lines input)"
proof -
  from parsed_graph [OF assms] obtain st where st: "parse_lines (text_lines input) empty_parse = Some st"
    and ok: "parsed st" and g: "gr_objects g = ps_nodes (wire_nodes 0 st)" by auto
  from text_wired [OF st refl] obtain W P where "wired_to st W P (gr_objects g)" "feeds st (uses_of st) W"
    unfolding g by metis
  from wired_size [OF ok this] parsed_text(2) [OF st] show ?thesis by simp
qed

text \<open>
  C40: a text of n lines becomes a graph of at most 7 n nodes, numbered by their places, and every
  destination and label leads to one of them, a destination to one of its two inputs. (An ending
  newline starts one more line, and so does the second character of an end of line of two.)
\<close>

theorem graph_is_bounded:
  assumes "parse_create_ir_graph input = Some g"
  shows "length (gr_objects g) \<le> 7 * length (text_lines input)
    \<and> map nd_id (gr_objects g) = [0..<length (gr_objects g)] \<and> gr_nodes g = [0..<length (gr_objects g)]
    \<and> (\<forall>n\<in>set (gr_objects g). \<forall>f d. destination_at f n = Some d \<longrightarrow> dst_node d < length (gr_objects g) \<and> dst_input d \<le> 1)
    \<and> (\<forall>(l, k)\<in>set (gr_labels g). k < length (gr_objects g))"
proof -
  note ids = parsed_graph_ids [OF assms]
  from parsed_graph [OF assms] have nodes: "gr_nodes g = [0..<length (gr_objects g)]" by auto
  have leads: "dst_node d < length (gr_objects g) \<and> dst_input d \<le> 1"
    if n: "n \<in> set (gr_objects g)" and d: "destination_at f n = Some d" for n f d
  proof -
    from n obtain i where "i < length (gr_objects g)" "n = gr_objects g ! i" by (auto simp: in_set_conv_nth)
    with parsed_graph_leads [OF assms, of i f d] d show ?thesis by simp
  qed
  have labels: "k < length (gr_objects g)" if "(l, k) \<in> set (gr_labels g)" for l k
  proof -
    have "find_node g k \<noteq> None" using parsed_graph_ok [OF assms] that by (auto simp: graph_ok_def)
    then obtain n where "n \<in> set (gr_objects g)" "nd_id n = k" by (metis find_node_Some not_None_eq)
    then have "k \<in> set (map nd_id (gr_objects g))" by auto
    then show ?thesis by (simp add: ids)
  qed
  show ?thesis using parsed_graph_size [OF assms] ids nodes leads labels by blast
qed

theorem graph_is_bounded_witness:
  "\<exists>g. parse_create_ir_graph shared_text = Some g \<and> length (gr_objects g) = 9 \<and> length (text_lines shared_text) = 7
     \<and> length (gr_objects g) \<le> 7 * 7
     \<and> (\<forall>n\<in>set (gr_objects g). \<forall>f d. destination_at f n = Some d \<longrightarrow> dst_node d < length (gr_objects g))"
proof -
  from shared_text_graph obtain g where g: "parse_create_ir_graph shared_text = Some g"
    and "length (map dests (gr_objects g)) = 9" by (auto simp: Let_def)
  moreover have "length (text_lines shared_text) = 7" by code_simp
  ultimately show ?thesis using graph_is_bounded [OF g] by (intro exI [of _ g]) auto
qed

end
