(* ===== verification/Text_Programs.thy ===== *)
theory Text_Programs
  imports Assembler_Texts Io_Switch
begin

text \<open>
  From the text of a program to the store of the machine, and from a number the machine prints back to
  the text.
\<close>

section \<open>The loaded program\<close>

lemma bare_shortened: "shortened g n n' \<Longrightarrow> bare n' = bare n"
  by (cases n; cases n') (simp add: shortened_def bare_def)

text \<open>A node of a line that is neither a device nor made to be optimized away.\<close>

definition kept_node :: "node \<Rightarrow> bool" where
  "kept_node n \<longleftrightarrow> device_of n = None \<and> \<not> nd_optimizable n"

lemma kept_node_bare: "bare n = bare m \<Longrightarrow> kept_node n = kept_node m"
  by (cases n; cases m) (simp add: bare_def kept_node_def device_of_def)

lemma resolved_fields: "nd_opcode (resolved L n) = nd_opcode n" "nd_optimizable (resolved L n) = nd_optimizable n"
proof -
  have "nd_opcode (resolve L iv n) = nd_opcode n \<and> nd_optimizable (resolve L iv n) = nd_optimizable n" for iv n
    by (simp add: resolve_def clear_input_def split: option.split operand.split)
  then show "nd_opcode (resolved L n) = nd_opcode n" "nd_optimizable (resolved L n) = nd_optimizable n"
    by (simp_all add: resolved_def settle_literal_def)
qed

lemma kept_node_resolved: "kept_node (resolved L n) = kept_node n"
  by (simp add: kept_node_def device_of_def resolved_fields)

lemma kept_node_stays:
  assumes "optimize_graph g = Some g'" and "graph_ok g" and "gr_nodes g = [0..<length (gr_objects g)]"
    and ids: "map nd_id (gr_objects g) = [0..<length (gr_objects g)]"
    and k: "k < length (gr_objects g)" "kept_node (gr_objects g ! k)"
  shows "k \<in> set (filter (\<lambda>k. device_of (the (find_node g' k)) = None) (gr_nodes g'))
    \<and> (\<exists>n. find_node g' k = Some n \<and> bare n = bare (gr_objects g ! k))"
proof -
  note opt = optimize_graph_optimized [OF assms(1,2)]
  have here: "find_node g k = Some (gr_objects g ! k)" by (rule find_node_place [OF ids k(1)])
  have "list_all2 (shortened g) (gr_objects g) (gr_objects g')" using opt by (simp add: optimized_def)
  from find_node_shortened [OF this, of k] here obtain n where n: "find_node g' k = Some n" "shortened g (gr_objects g ! k) n"
    by (auto simp: find_node_def rel_option_iff split: option.splits)
  have bare: "bare n = bare (gr_objects g ! k)" by (rule bare_shortened [OF n(2)])
  have "\<not> redundant g k" using k(2) here by (simp add: redundant_def kept_node_def)
  moreover have "k \<in> set (gr_nodes g)" using k(1) assms(3) by simp
  ultimately have "k \<in> set (gr_nodes g')" using opt by blast
  moreover have "device_of n = None" using kept_node_bare [OF bare] k(2) by (simp add: kept_node_def)
  ultimately show ?thesis using n(1) bare by simp
qed

text \<open>What the nodes of the lines are in the graph, and among the instructions.\<close>

lemma text_nodes:
  assumes "parse_lines (text_lines input) empty_parse = Some st" and "gr_objects g = ps_nodes (wire_nodes 0 st)"
    and "k < length (ps_nodes st)"
  shows "k < length (gr_objects g) \<and> bare (gr_objects g ! k) = resolved (label_names st) (bare (ps_nodes st ! k))"
proof -
  have le: "length (ps_nodes st) \<le> length (gr_objects g)"
    unfolding assms(2) by (rule text_wired [OF assms(1) refl])
  have "map bare (gr_objects g) = map (resolved (label_names st) \<circ> bare) (ps_nodes st)
      @ map dup_node [length (ps_nodes st)..<length (gr_objects g)]"
    unfolding assms(2) by (rule text_wired [OF assms(1) refl])
  then have "map bare (gr_objects g) ! k = resolved (label_names st) (bare (ps_nodes st ! k))"
    using assms(3) by (simp add: nth_append)
  then show ?thesis using le assms(3) by simp
qed

lemma text_node_loaded:
  assumes "optimize_graph g = Some g'" and "graph_ok g" and "gr_nodes g = [0..<length (gr_objects g)]"
    and "map nd_id (gr_objects g) = [0..<length (gr_objects g)]"
    and "prefix (filter (\<lambda>k. device_of (the (find_node g' k)) = None) (gr_nodes g')) (map nd_id keys)"
    and "\<forall>n\<in>set keys. find_node g' (nd_id n) = Some n"
    and "k < length (gr_objects g)" and "bare (gr_objects g ! k) = resolved L (bare n)" and "kept_node n"
  shows "\<exists>i<length keys. bare (keys ! i) = resolved L (bare n)"
proof -
  have "kept_node (gr_objects g ! k)"
    using assms(9) kept_node_bare [of "gr_objects g ! k" "resolved L n"] assms(8)
    by (simp add: on_bare_resolved kept_node_resolved)
  from kept_node_stays [OF assms(1-4,7) this] obtain n' where
    n': "k \<in> set (filter (\<lambda>k. device_of (the (find_node g' k)) = None) (gr_nodes g'))"
    "find_node g' k = Some n'" "bare n' = bare (gr_objects g ! k)" by auto
  have "k \<in> set (map nd_id keys)" using n'(1) assms(5) set_mono_prefix by blast
  then obtain i where i: "i < length keys" "nd_id (keys ! i) = k" by (auto simp: in_set_conv_nth)
  then have "find_node g' k = Some (keys ! i)" using assms(6) nth_mem by blast
  with n' i assms(8) show ?thesis by auto
qed

text \<open>
  C11: what the assembler makes of a text, the loader takes, if it knows the text's external names and
  has room for 7 instructions a line. The nodes of the lines that are neither output devices nor the two
  DUP nodes of a branch are all in the store, with their inputs resolved, each as the instruction of its
  opcode (DUP for a privileged one in an unprivileged program), literals and destinations, and the loaded
  program exports what the text does.
\<close>

theorem program_text_loaded:
  assumes "assembler_main input = Some content"
    and "parse_lines (text_lines input) empty_parse = Some st"
    and "\<forall>(name, nodes)\<in>set (ps_external_references st).
      find_export (name_string (pack_name name)) (cs_exports cs) \<noteq> None"
    and "start = length (cs_instructions cs)" and "start + 7 * length (text_lines input) \<le> 2 ^ 28 - 8"
  shows "\<exists>g keys cs' info. (parse_create_ir_graph input \<bind> optimize_graph) = Some g
    \<and> load_image content is_privileged cs = Ok (cs', Some info)
    \<and> lci_instructions info = start \<and> lci_current_num_instructions info = length keys
    \<and> length keys \<le> 7 * length (text_lines input) \<and> length (cs_instructions cs') = start + length keys
    \<and> (\<forall>k<length (ps_nodes st). kept_node (ps_nodes st ! k) \<longrightarrow>
         (\<exists>i<length keys. bare (keys ! i) = resolved (label_names st) (bare (ps_nodes st ! k))))
    \<and> (\<forall>i<length keys. find_node g (nd_id (keys ! i)) = Some (keys ! i)
         \<and> loaded_node g keys start is_privileged (cs_exports cs) (keys ! i) (cs_instructions cs' ! (start + i)))
    \<and> list_all2 (loaded_export g keys start) (ps_exports st) (lci_exports info)"
proof -
  from assms(1) obtain g g' where g: "parse_create_ir_graph input = Some g" and g': "optimize_graph g = Some g'"
    and out: "assemble g' = Some content"
    by (auto simp: assembler_main_def output_graph_def bind_eq_Some_conv)
  note ok = parsed_graph_ok [OF g] and ids = parsed_graph_ids [OF g]
  from parsed_graph [OF g] assms(2) have parsed: "parsed st" and shape: "gr_objects g = ps_nodes (wire_nodes 0 st)"
    "gr_nodes g = [0..<length (gr_objects g)]" "gr_exports g = ps_exports st"
    "gr_external_references g = map (\<lambda>(extern, nodes). (extern, ps_variables st extern)) (ps_external_references st)"
    by auto
  note opt = optimize_graph_optimized [OF g' ok]
  have same: "length (gr_objects g') = length (gr_objects g)" "gr_exports g' = ps_exports st"
    "gr_external_references g' = gr_external_references g"
    using opt shape(3) by (auto simp: optimized_def dest: list_all2_lengthD)
  have size: "length (gr_objects g') \<le> 7 * length (text_lines input)"
    using parsed_graph_size [OF g] same(1) by simp
  have "\<forall>(name, nodes)\<in>set (gr_external_references g').
      find_export (name_string (pack_name name)) (cs_exports cs) \<noteq> None"
    using assms(3) by (auto simp: same(3) shape(4))
  moreover have "start + min (length content div 40) (length (gr_objects g')) \<le> 2 ^ 28 - 8"
    using size assms(5) by linarith
  ultimately obtain keys cs' info where load: "load_image content is_privileged cs = Ok (cs', Some info)"
    and keys: "distinct (map nd_id keys)"
      "prefix (filter (\<lambda>k. device_of (the (find_node g' k)) = None) (gr_nodes g')) (map nd_id keys)"
      "\<forall>n\<in>set keys. find_node g' (nd_id n) = Some n \<and> device_of n = None"
    and info: "lci_instructions info = start" "lci_current_num_instructions info = length keys"
      "length (cs_instructions cs') = start + length keys"
    and nodes: "\<forall>i<length keys. loaded_node g' keys start is_privileged (cs_exports cs) (keys ! i)
         (cs_instructions cs' ! (start + i))"
    and exports: "list_all2 (loaded_export g' keys start) (gr_exports g') (lci_exports info)"
    using assembled_graph_loads [OF out _ _ assms(4)] opt by blast
  have "set keys \<subseteq> set (gr_objects g')" using keys(3) find_node_Some(1) by blast
  then have "card (set keys) \<le> length (gr_objects g')" by (meson card_length card_mono finite_set le_trans)
  then have fits: "length keys \<le> 7 * length (text_lines input)"
    using size keys(1) by (simp add: distinct_card distinct_map)
  have lines: "\<exists>i<length keys. bare (keys ! i) = resolved (label_names st) (bare (ps_nodes st ! k))"
    if "k < length (ps_nodes st)" "kept_node (ps_nodes st ! k)" for k
    using text_nodes [OF assms(2) shape(1) that(1)] keys(3)
    by (blast intro: text_node_loaded [OF g' ok shape(2) ids keys(2) _ _ _ that(2)])
  have found: "find_node g' (nd_id (keys ! i)) = Some (keys ! i)" if "i < length keys" for i
    using keys(3) nth_mem [OF that] by blast
  show ?thesis
    by (intro exI [of _ g'] exI [of _ keys] exI [of _ cs'] exI [of _ info])
      (use g g' load info fits lines found nodes exports in \<open>simp add: same(2)\<close>)
qed

text \<open>A program with a label, an export, an external name and an output.\<close>

definition linked_text :: "byte list" where
  "linked_text = concat (map (\<lambda>line. ascii line @ [10])
     [''EXTERN f'', ''m:'', ''x = DUP 1'', ''f = ADD x 2'', ''y = DUP m'', ''OUTD x'', ''EXPORT m''])"

lemma linked_text_length: "map_option length (assembler_main linked_text) = Some 676"
  by code_simp

lemma linked_text_lines:
  "map_option (\<lambda>st. (ps_external_references st, length (ps_nodes st), ps_exports st,
     map kept_node (ps_nodes st))) (parse_lines (text_lines linked_text) empty_parse)
     = Some ([([102], [])], 4, [[109]], [True, True, True, False])"
  by code_simp

theorem program_text_loaded_witness:
  "\<exists>content st g keys cs' info. assembler_main linked_text = Some content
     \<and> parse_lines (text_lines linked_text) empty_parse = Some st
     \<and> load_image content True sample_store = Ok (cs', Some info) \<and> length (cs_instructions cs') = 1 + length keys
     \<and> (\<exists>i<length keys. bare (keys ! i) = resolved (label_names st) (bare (ps_nodes st ! 1)))
     \<and> (\<forall>i<length keys. loaded_node g keys 1 True (cs_exports sample_store) (keys ! i) (cs_instructions cs' ! (1 + i)))
     \<and> list_all2 (loaded_export g keys 1) (ps_exports st) (lci_exports info)"
proof -
  from linked_text_length obtain content where c: "assembler_main linked_text = Some content" by auto
  from linked_text_lines obtain st where st: "parse_lines (text_lines linked_text) empty_parse = Some st"
    "ps_external_references st = [([102], [])]" "length (ps_nodes st) = 4"
    "map kept_node (ps_nodes st) = [True, True, True, False]" by auto
  have "map kept_node (ps_nodes st) ! 1" by (simp add: st(4))
  then have kept: "kept_node (ps_nodes st ! 1)" using st(3) by simp
  have "find_export (name_string (pack_name [102])) (cs_exports sample_store) \<noteq> None" by code_simp
  moreover have "length (text_lines linked_text) = 8" by code_simp
  ultimately obtain g keys cs' info where "load_image content True sample_store = Ok (cs', Some info)"
    "length (cs_instructions cs') = 1 + length keys"
    and lines: "\<forall>k<4. kept_node (ps_nodes st ! k) \<longrightarrow>
      (\<exists>i<length keys. bare (keys ! i) = resolved (label_names st) (bare (ps_nodes st ! k)))"
    and "\<forall>i<length keys. find_node g (nd_id (keys ! i)) = Some (keys ! i)
      \<and> loaded_node g keys 1 True (cs_exports sample_store) (keys ! i) (cs_instructions cs' ! (1 + i))"
    "list_all2 (loaded_export g keys 1) (ps_exports st) (lci_exports info)"
    using program_text_loaded [OF c st(1), of sample_store 1 True] st(2,3) by (auto simp: sample_store_def)
  moreover have "\<exists>i<length keys. bare (keys ! i) = resolved (label_names st) (bare (ps_nodes st ! 1))"
    using lines kept by (auto dest: spec [of _ 1])
  ultimately show ?thesis using c st(1) by blast
qed

section \<open>Numbers\<close>

text \<open>The digits that are printed are the digits that are read.\<close>

lemma digit_of_digit: "n < 10 \<Longrightarrow> digit_of 10 (ascii_digit n) = Some n"
  by (simp add: digit_of_def Let_def word_le_nat_alt unat_ascii_digit)

lemma int_digits_decimal:
  "int_digits 10 acc flag (decimal_digits n @ rest)
     = int_digits 10 (acc * 10 ^ length (decimal_digits n) + int n) False rest"
proof (induction n arbitrary: acc flag rest rule: decimal_digits.induct)
  case (1 n)
  show ?case
  proof (cases "n < 10")
    case True
    then show ?thesis by (simp add: decimal_digits.simps [of n] digit_of_digit)
  next
    case False
    have "int n = int (n div 10) * 10 + int (n mod 10)"
      by (metis div_mult_mod_eq of_nat_add of_nat_mult of_nat_numeral)
    with 1 False show ?thesis
      by (simp add: decimal_digits.simps [of n] digit_of_digit algebra_simps)
  qed
qed

lemma first_digit: "\<exists>b bs. decimal_digits n = b # bs \<and> b \<noteq> 43 \<and> b \<noteq> 45"
proof (induction n rule: decimal_digits.induct)
  case (1 n)
  have "ascii_digit d \<noteq> 43 \<and> ascii_digit d \<noteq> 45" if "d < 10" for d
    using unat_ascii_digit [OF that] by (auto dest: arg_cong [where f = unat])
  with 1 show ?case by (cases "n < 10") (auto simp: decimal_digits.simps [of n])
qed

lemma pack_signed_sint: "pack_signed (sint (v :: data_type)) = Some (le_bytes 8 v)"
  using sint_greater_eq [of v] sint_less [of v] by (simp add: pack_signed_def)

lemma parse_printed_number: "parse_arg (butlast (printf_ld v)) = Literal (sint v)"
proof -
  have digits: "int_digits 10 0 True (decimal_digits n) = Some (int n)" for n
    using int_digits_decimal [of 0 True n "[]"] by simp
  show ?thesis
  proof (cases "sint v < 0")
    case True
    then show ?thesis by (simp add: parse_arg_def printf_ld_def digits)
  next
    case False
    obtain b bs where "decimal_digits (nat (sint v)) = b # bs" "b \<noteq> 43" "b \<noteq> 45" using first_digit by blast
    with False digits [of "nat (sint v)"] show ?thesis by (simp add: parse_arg_def printf_ld_def)
  qed
qed

text \<open>
  What the machine prints for a number is, as an operand of a line, the literal of that number: the
  eight bytes written to the file for it are those of the word that was printed.
\<close>

theorem printed_number_is_literal:
  "(case parse_arg (butlast (printf_ld v)) of Literal x \<Rightarrow> pack_signed x | Label name \<Rightarrow> None) = Some (le_bytes 8 v)"
  by (simp add: parse_printed_number pack_signed_sint)

end
