(* ===== verification/Straight_Line_Programs.thy ===== *)
theory Straight_Line_Programs
  imports Text_Programs
begin

text \<open>
  The programs in which every line combines the value of the line before with a number, and the last line
  prints the value: their texts, followed through the assembler to the file.
\<close>

section \<open>The text\<close>

definition number_text :: "data_type \<Rightarrow> byte list" where
  "number_text v = butlast (printf_ld v)"

definition opcode_name :: "opcode_type \<Rightarrow> byte list" where
  "opcode_name op = ascii (opcode_to_name ! unat (opcode_val op))"

text \<open>The opcodes that compute a value from two operands.\<close>

definition two_operands :: "opcode_type \<Rightarrow> bool" where
  "two_operands op \<longleftrightarrow> op \<in> set [ADD, SUB, MUL, LT, GT, LTE, GTE, EQ, NEQ, XOR_op, AND_op, OR_op, SHL, SHR]"

definition entry_of :: "opcode_type \<Rightarrow> asm_opcode" where
  "entry_of op = OPCODE_LIST ! (unat (opcode_val op) + 2)"

lemma entry_facts:
  assumes "two_operands op"
  shows "OPCODES (upper (opcode_name op)) = Some (entry_of op)" and "opc_num_inputs (entry_of op) = 2"
    and "entry_of op \<noteq> MER_OPCODE" and "entry_of op \<noteq> DUP_OPCODE" and "entry_of op \<notin> set SPECIAL_OPCODES"
    and "opc_opcode (entry_of op) = uint (opcode_val op)"
    and "list_all (\<lambda>b. \<not> is_white b \<and> \<not> is_newline b) (opcode_name op)" and "opcode_name op \<noteq> []"
proof -
  have "list_all (\<lambda>op. OPCODES (upper (opcode_name op)) = Some (entry_of op) \<and> opc_num_inputs (entry_of op) = 2
      \<and> entry_of op \<noteq> MER_OPCODE \<and> entry_of op \<noteq> DUP_OPCODE \<and> entry_of op \<notin> set SPECIAL_OPCODES
      \<and> opc_opcode (entry_of op) = uint (opcode_val op)
      \<and> list_all (\<lambda>b. \<not> is_white b \<and> \<not> is_newline b) (opcode_name op) \<and> opcode_name op \<noteq> [])
      [ADD, SUB, MUL, LT, GT, LTE, GTE, EQ, NEQ, XOR_op, AND_op, OR_op, SHL, SHR]"
    by code_simp
  then have "OPCODES (upper (opcode_name op)) = Some (entry_of op) \<and> opc_num_inputs (entry_of op) = 2
      \<and> entry_of op \<noteq> MER_OPCODE \<and> entry_of op \<noteq> DUP_OPCODE \<and> entry_of op \<notin> set SPECIAL_OPCODES
      \<and> opc_opcode (entry_of op) = uint (opcode_val op)
      \<and> list_all (\<lambda>b. \<not> is_white b \<and> \<not> is_newline b) (opcode_name op) \<and> opcode_name op \<noteq> []"
    using assms unfolding two_operands_def Ball_set [symmetric] by (rule bspec)
  then show "OPCODES (upper (opcode_name op)) = Some (entry_of op)" "opc_num_inputs (entry_of op) = 2"
    "entry_of op \<noteq> MER_OPCODE" "entry_of op \<noteq> DUP_OPCODE" "entry_of op \<notin> set SPECIAL_OPCODES"
    "opc_opcode (entry_of op) = uint (opcode_val op)"
    "list_all (\<lambda>b. \<not> is_white b \<and> \<not> is_newline b) (opcode_name op)" "opcode_name op \<noteq> []"
    by safe
qed

lemma step_operands: "list_all (\<lambda>(op, b). two_operands op) steps \<Longrightarrow> i < length steps \<Longrightarrow> two_operands (fst (steps ! i))"
  by (auto simp: list_all_length split_beta)

lemmas step_entry = entry_facts [OF step_operands]

section \<open>Words and lines\<close>

lemma split_at_word: "list_all (\<lambda>b. \<not> sep b) w \<Longrightarrow> sep s \<Longrightarrow> split_at sep (w @ s # rest) = w # split_at sep rest"
  by (induction w) auto

lemma split_at_last: "list_all (\<lambda>b. \<not> sep b) w \<Longrightarrow> split_at sep w = [w]"
  by (induction w) auto

lemma strip_same:
  assumes "xs \<noteq> []" and "\<not> p (hd xs)" and "\<not> p (last xs)"
  shows "strip p xs = xs"
proof -
  have "dropWhile p ys = ys" if "ys \<noteq> []" "\<not> p (hd ys)" for ys :: "byte list"
    using that by (cases ys) auto
  from this [of xs] this [of "rev xs"] assms show ?thesis by (simp add: strip_def rstrip_def hd_rev)
qed

lemma digits_plain: "list_all (\<lambda>b. \<not> is_white b \<and> \<not> is_newline b) (decimal_digits n)"
proof (induction n rule: decimal_digits.induct)
  case (1 n)
  have "\<not> is_white (ascii_digit d) \<and> \<not> is_newline (ascii_digit d)" if "d < 10" for d
    using unat_ascii_digit [OF that]
    by (auto simp: is_white_def is_newline_def word_le_nat_alt dest: arg_cong [where f = unat])
  with 1 show ?case by (cases "n < 10") (auto simp: decimal_digits.simps [of n])
qed

lemma number_text_plain: "list_all (\<lambda>b. \<not> is_white b \<and> \<not> is_newline b) (number_text v)"
  using digits_plain by (auto simp: number_text_def printf_ld_def is_white_def is_newline_def)

lemma number_text_ne: "number_text v \<noteq> []"
  using decimal_digits_Cons by (auto simp: number_text_def printf_ld_def) (metis list.distinct(1))


definition variable_name :: "nat \<Rightarrow> byte list" where
  "variable_name i = ascii ''x'' @ decimal_digits i"

text \<open>Step \<open>i\<close> of the program: the operation on the previous value, at first the number \<open>a\<close>, and a number.\<close>

definition first_text :: "data_type \<Rightarrow> nat \<Rightarrow> byte list" where
  "first_text a i = (if i = 0 then number_text a else variable_name (i - 1))"

definition first_operand :: "data_type \<Rightarrow> nat \<Rightarrow> operand" where
  "first_operand a i = (if i = 0 then Literal (sint a) else Label (variable_name (i - 1)))"

definition step_line :: "data_type \<Rightarrow> nat \<Rightarrow> opcode_type \<times> data_type \<Rightarrow> byte list" where
  "step_line a i = (\<lambda>(op, b). variable_name i @ [32] @ ascii ''='' @ [32] @ opcode_name op @ [32]
     @ first_text a i @ [32] @ number_text b)"

definition program_lines :: "data_type \<Rightarrow> (opcode_type \<times> data_type) list \<Rightarrow> byte list list" where
  "program_lines a steps = map (\<lambda>i. step_line a i (steps ! i)) [0..<length steps]
     @ [ascii ''OUTD'' @ [32] @ variable_name (length steps - 1)]"

definition program_text :: "data_type \<Rightarrow> (opcode_type \<times> data_type) list \<Rightarrow> byte list" where
  "program_text a steps = concat (map (\<lambda>line. line @ [10]) (program_lines a steps))"

text \<open>The parser behind \<open>k\<close> of the lines.\<close>

definition step_node :: "data_type \<Rightarrow> (opcode_type \<times> data_type) list \<Rightarrow> nat \<Rightarrow> node" where
  "step_node a steps i = (if i < length steps
     then new_node (entry_of (fst (steps ! i))) i
       (Some (first_operand a i))
       (Some (Literal (sint (snd (steps ! i))))) None None False
     else new_node OUTD_OPCODE i (Some (Label (variable_name (i - 1)))) None None None False)"

definition program_parse :: "data_type \<Rightarrow> (opcode_type \<times> data_type) list \<Rightarrow> nat \<Rightarrow> parse_state" where
  "program_parse a steps k = \<lparr>ps_nodes = map (step_node a steps) [0..<k], ps_labels = [],
     ps_external_references = [], ps_exports = [],
     ps_variables = (\<lambda>s. filter (\<lambda>i. variable_name i = s) [0..<min k (length steps)]),
     ps_node_num = k, ps_label = None\<rparr>"

abbreviation plain :: "byte list \<Rightarrow> bool" where
  "plain w \<equiv> w \<noteq> [] \<and> list_all (\<lambda>b. \<not> is_white b \<and> \<not> is_newline b) w"

lemma plain_variable: "plain (variable_name i)"
  using digits_plain [of i] by (simp add: variable_name_def is_white_def is_newline_def)

lemma plain_number: "plain (number_text v)"
  using number_text_plain number_text_ne by simp

lemma plain_white: "plain w \<Longrightarrow> list_all (\<lambda>b. \<not> is_white b) w"
  by (simp add: list_all_iff)

lemma variable_name_inject: "variable_name i = variable_name j \<longleftrightarrow> i = j"
  by (auto simp: variable_name_def) (metis read_decimal_digits)

lemma parse_arg_variable: "parse_arg (variable_name i) = Label (variable_name i)"
proof -
  have "take 2 (lower (variable_name i)) \<noteq> ascii ''0x''" by (simp add: variable_name_def lower_def)
  then show ?thesis by (simp add: parse_arg_def) (simp add: variable_name_def digit_of_def)
qed

lemma five_words:
  assumes "plain a" "plain b" "plain c" "plain d" "plain e"
  shows "split_words (a @ [32] @ b @ [32] @ c @ [32] @ d @ [32] @ e) = [a, b, c, d, e]"
proof -
  have "is_white 32" by (simp add: is_white_def)
  note word = split_at_word [of is_white, OF plain_white this] split_at_last [OF plain_white]
  show ?thesis using assms by (simp add: split_words_def word)
qed

lemma two_words: "plain a \<Longrightarrow> plain b \<Longrightarrow> split_words (a @ [32] @ b) = [a, b]"
proof -
  have "is_white 32" by (simp add: is_white_def)
  note word = split_at_word [of is_white, OF plain_white this] split_at_last [OF plain_white]
  show "plain a \<Longrightarrow> plain b \<Longrightarrow> split_words (a @ [32] @ b) = [a, b]" by (simp add: split_words_def word)
qed

lemma strip_words:
  assumes "plain a" "plain c"
  shows "strip is_white (a @ b @ c) = a @ b @ c"
proof (rule strip_same)
  show "\<not> is_white (hd (a @ b @ c))" "\<not> is_white (last (a @ b @ c))" "a @ b @ c \<noteq> []"
    using assms hd_in_set [of a] last_in_set [of c] by (auto simp: list_all_iff)
qed

lemma step_words:
  assumes "two_operands op"
  shows "split_words (step_line a i (op, b)) = [variable_name i, ascii ''='', opcode_name op, first_text a i, number_text b]"
    and "strip is_white (step_line a i (op, b)) = step_line a i (op, b)"
    and "step_line a i (op, b) \<noteq> []" and "hd (step_line a i (op, b)) \<noteq> 35"
proof -
  have line: "step_line a i (op, b) = variable_name i @ [32] @ ascii ''='' @ [32] @ opcode_name op @ [32] @ first_text a i
      @ [32] @ number_text b"
    by (simp add: step_line_def)
  have "plain (first_text a i)" using plain_variable plain_number by (simp add: first_text_def)
  moreover have "plain (ascii ''='')" "plain (opcode_name op)"
    using entry_facts(7,8) [OF assms] by (simp_all add: is_white_def is_newline_def)
  ultimately show "split_words (step_line a i (op, b))
      = [variable_name i, ascii ''='', opcode_name op, first_text a i, number_text b]"
    unfolding line by (intro five_words plain_variable plain_number)
  show "strip is_white (step_line a i (op, b)) = step_line a i (op, b)"
    using strip_words [OF plain_variable [of i] plain_number [of b],
        of "[32] @ ascii ''='' @ [32] @ opcode_name op @ [32] @ first_text a i @ [32]"] by (simp only: line append_assoc)
  show "step_line a i (op, b) \<noteq> []" "hd (step_line a i (op, b)) \<noteq> 35" by (simp_all add: line variable_name_def)
qed

lemma variable_upper: "upper (variable_name i) \<noteq> 69 # xs" "upper (variable_name i) \<noteq> 79 # xs" "variable_name i \<noteq> 61 # xs"
  by (simp_all add: variable_name_def upper_def)

lemma first_parsed: "parse_arg (first_text a i) = first_operand a i"
  by (simp add: first_text_def first_operand_def parse_arg_variable parse_printed_number [folded number_text_def])

lemma step_parsed:
  assumes "i < length steps" and "two_operands (fst (steps ! i))"
  shows "parse_line (step_line a i (steps ! i)) (program_parse a steps i) = Some (program_parse a steps (Suc i))"
proof -
  obtain op b where step: "steps ! i = (op, b)" by force
  with assms(2) have op: "two_operands op" by simp
  let ?n = "new_node (entry_of op) i (Some (first_operand a i)) (Some (Literal (sint b))) None None False"
  note numbers = parse_printed_number [folded number_text_def]
  have "parse_line (step_line a i (op, b)) (program_parse a steps i)
      = parse_assignment [variable_name i, ascii ''='', opcode_name op, first_text a i, number_text b] (program_parse a steps i)"
    by (simp add: parse_line_def step_words [OF op] variable_upper)
  also have "\<dots> = Some (attach_label i (define_variable (variable_name i) (add_node ?n (program_parse a steps i))))"
    by (simp add: parse_assignment_def entry_facts [OF op] arg_at_def first_parsed numbers)
      (simp add: program_parse_def)
  also have "\<dots> = Some (program_parse a steps (Suc i))"
    using assms(1) step by (auto simp: attach_label_def define_variable_def add_node_def program_parse_def step_node_def)
  finally show ?thesis using step by simp
qed

lemma output_parsed:
  assumes "n = length steps"
  shows "parse_line (ascii ''OUTD'' @ [32] @ variable_name (n - 1)) (program_parse a steps n) = Some (program_parse a steps (Suc n))"
proof -
  let ?line = "ascii ''OUTD'' @ [32] @ variable_name (n - 1)"
  have outd: "plain (ascii ''OUTD'')" by (simp add: is_white_def is_newline_def)
  have words: "split_words ?line = [ascii ''OUTD'', variable_name (n - 1)]" by (rule two_words [OF outd plain_variable])
  have strip: "strip is_white ?line = ?line" by (rule strip_words [OF outd plain_variable])
  have facts: "upper (ascii ''OUTD'') = ascii ''OUTD''" "ascii ''OUTD'' \<in> set SPECIAL_OPCODES_NAMES"
    "OPCODES (ascii ''OUTD'') = Some OUTD_OPCODE"
    by code_simp+
  have "parse_line ?line (program_parse a steps n) = parse_output [ascii ''OUTD'', variable_name (n - 1)] (program_parse a steps n)"
    unfolding parse_line_def Let_def strip words using facts(1,2) by (simp add: variable_upper)
  also have "\<dots> = Some (program_parse a steps (Suc n))"
    using facts(1,3) assms
    by (simp add: parse_output_def parse_arg_variable attach_label_def add_node_def program_parse_def step_node_def)
  finally show ?thesis .
qed

lemma text_lines_concat:
  assumes "list_all (list_all (\<lambda>b. \<not> is_newline b)) lines"
  shows "text_lines (concat (map (\<lambda>line. line @ [10]) lines)) = lines @ [[]]"
  using assms
proof (induction lines)
  case (Cons line lines)
  then show ?case by (simp add: text_lines_def split_at_word is_newline_def)
qed (simp add: text_lines_def)

lemma program_lines_parsed:
  assumes "list_all (\<lambda>(op, b). two_operands op) steps" and "k \<le> length steps"
  shows "parse_lines (map (\<lambda>i. step_line a i (steps ! i)) [k..<length steps] @ rest) (program_parse a steps k)
    = parse_lines rest (program_parse a steps (length steps))"
  using assms(2)
proof (induction k rule: inc_induct)
  case (step k)
  have "two_operands (fst (steps ! k))" by (rule step_operands [OF assms(1) step(2)])
  with step show ?case by (simp add: upt_conv_Cons step_parsed)
qed simp

lemma program_parsed:
  assumes "list_all (\<lambda>(op, b). two_operands op) steps"
  shows "parse_lines (text_lines (program_text a steps)) empty_parse = Some (program_parse a steps (Suc (length steps)))"
proof -
  have line: "list_all (\<lambda>b. \<not> is_newline b) w" if "plain w" for w using that by (simp add: list_all_iff)
  have "\<not> is_newline 32" "\<not> is_newline 61" "\<not> is_newline 79" "\<not> is_newline 85" "\<not> is_newline 84" "\<not> is_newline 68"
    by (simp_all add: is_newline_def)
  note words = line [OF plain_variable] line [OF plain_number] this
  have "list_all (\<lambda>b. \<not> is_newline b) (step_line a i (steps ! i))" if "i < length steps" for i
  proof -
    obtain op b where step: "steps ! i = (op, b)" by force
    have "two_operands op" using assms that step by (auto simp: list_all_length)
    then have "plain (opcode_name op)" using entry_facts(7,8) by simp
    from line [OF this] show ?thesis
      by (simp add: step step_line_def words first_text_def)
  qed
  then have "list_all (list_all (\<lambda>b. \<not> is_newline b)) (program_lines a steps)"
    by (simp add: program_lines_def words list.pred_map list_all_iff [of _ "[0..<length steps]"])
  then have lines: "text_lines (program_text a steps) = program_lines a steps @ [[]]"
    unfolding program_text_def by (rule text_lines_concat)
  have "program_parse a steps 0 = empty_parse" by (simp add: program_parse_def empty_parse_def)
  then show ?thesis
    using program_lines_parsed [OF assms le0, of a "[ascii ''OUTD'' @ [32] @ variable_name (length steps - 1), []]"]
    by (simp add: lines program_lines_def output_parsed [simplified]) (simp add: parse_line_def strip_def rstrip_def)
qed

section \<open>The graph and the file\<close>

text \<open>A node once its inputs are resolved, and the nodes when those before \<open>k\<close> have been looked at.\<close>

definition final_node :: "data_type \<Rightarrow> (opcode_type \<times> data_type) list \<Rightarrow> nat \<Rightarrow> node" where
  "final_node a steps i = (if i < length steps
     then new_node (entry_of (fst (steps ! i))) i
       (Some (Literal (if i = 0 then sint a else sint (snd (steps ! i)))))
       (if i = 0 then Some (Literal (sint (snd (steps ! i)))) else None) None None False
     else new_node OUTD_OPCODE i None None None None False)"

definition leads_to :: "nat \<Rightarrow> node_destination option" where
  "leads_to j = Some \<lparr>dst_node = j, dst_input = 0\<rparr>"

definition wired_node :: "data_type \<Rightarrow> (opcode_type \<times> data_type) list \<Rightarrow> nat \<Rightarrow> nat \<Rightarrow> node" where
  "wired_node a steps k i = (if i < k then final_node a steps i else step_node a steps i)
     \<lparr>nd_destination_1 := (if Suc i < k then leads_to (Suc i) else None)\<rparr>"

definition program_wired :: "data_type \<Rightarrow> (opcode_type \<times> data_type) list \<Rightarrow> nat \<Rightarrow> parse_state" where
  "program_wired a steps k = (program_parse a steps (Suc (length steps)))
     \<lparr>ps_nodes := map (wired_node a steps k) [0..<Suc (length steps)]\<rparr>"

definition program_graph :: "data_type \<Rightarrow> (opcode_type \<times> data_type) list \<Rightarrow> graph" where
  "program_graph a steps = \<lparr>gr_objects = map (wired_node a steps (Suc (length steps))) [0..<Suc (length steps)],
     gr_nodes = [0..<Suc (length steps)], gr_labels = [], gr_external_references = [], gr_exports = []\<rparr>"

lemma filter_one: "j < n \<Longrightarrow> filter (\<lambda>i. i = j) [0..<n] = [j]"
  by (induction n) (auto simp: less_Suc_eq)

lemma modify_node_same: "f (ps_nodes st ! k) = ps_nodes st ! k \<Longrightarrow> modify_node k f st = st"
  by (cases st) (simp add: modify_node_def)

lemma program_wired_nodes:
  "i \<le> length steps \<Longrightarrow> ps_nodes (program_wired a steps k) ! i = wired_node a steps k i"
  "length (ps_nodes (program_wired a steps k)) = Suc (length steps)"
  by (simp_all add: program_wired_def nth_append del: upt_Suc)

lemma first_node_wired:
  assumes "steps \<noteq> []"
  shows "wire_node 0 (program_wired a steps 0) = program_wired a steps (Suc 0)"
proof -
  have "ps_nodes (program_wired a steps 0) ! 0 = step_node a steps 0"
    using program_wired_nodes(1) [of 0 steps a 0] by (simp add: wired_node_def step_node_def new_node_def)
  then have "wire_node 0 (program_wired a steps 0) = program_wired a steps 0"
    using assms by (simp add: wire_node_def wire_input_def input_at_def step_node_def new_node_def first_operand_def
      settle_literal_def modify_node_same)
  moreover have "wired_node a steps (Suc 0) i = wired_node a steps 0 i" for i
    using assms by (simp add: wired_node_def final_node_def step_node_def first_operand_def new_node_def)
  ultimately show ?thesis by (simp add: program_wired_def)
qed

text \<open>A later node clears its first input, becomes the destination of the node before, and moves its number.\<close>

lemma next_node_connected:
  assumes "k = Suc j" and "k \<le> length steps"
  shows "wire_node k (program_wired a steps k) = modify_node k (settle_literal \<circ> clear_input 0)
    (modify_node j (redirect Destination_1 (leads_to k)) (program_wired a steps k))"
proof -
  let ?st = "program_wired a steps k"
  let ?st1 = "modify_node j (redirect Destination_1 (leads_to k)) (modify_node k (clear_input 0) ?st)"
  have here: "ps_nodes ?st ! k = step_node a steps k" and parent: "nd_destination_1 (ps_nodes ?st ! j) = None"
    using program_wired_nodes(1) [of k steps a k] program_wired_nodes(1) [of j steps a k] assms
    by (simp_all add: wired_node_def step_node_def new_node_def)
  have st: "ps_labels ?st = []" "ps_variables ?st (variable_name j) = [j]" "variable_name j \<noteq> ascii ''_''"
    using filter_one [of j "length steps"] assms
    by (simp_all add: program_wired_def program_parse_def variable_name_inject) (simp add: variable_name_def)
  have input: "input_at 0 (ps_nodes ?st ! k) = Some (Label (variable_name j))" "nd_id (ps_nodes ?st ! k) = k" "j \<noteq> k"
  proof -
    have "k - 1 = j" "k \<noteq> 0" "j \<noteq> k" using assms(1) by simp_all
    then show "input_at 0 (ps_nodes ?st ! k) = Some (Label (variable_name j))" "nd_id (ps_nodes ?st ! k) = k" "j \<noteq> k"
      by (simp_all add: here input_at_def step_node_def new_node_def first_operand_def)
  qed
  have "wire_input 0 k ?st = ?st1"
    using input st parent by (simp add: wire_input_def connect_def Let_def leads_to_def modify_node_def)
  moreover have "ps_nodes ?st1 ! k = clear_input 0 (step_node a steps k)"
    using input assms here program_wired_nodes(2) [of a steps k] by (simp add: modify_node_def)
  then have "wire_input 1 k ?st1 = ?st1"
    by (simp add: wire_input_def input_at_def step_node_def new_node_def clear_input_def)
  moreover have "xs[k := x, j := y] = xs[j := y, k := x]" for xs :: "node list" and x y
    using input(3) by (simp add: list_update_swap)
  ultimately show ?thesis
    using input(3) program_wired_nodes(2) [of a steps k] assms(2) by (simp add: wire_node_def modify_node_def)
qed

lemma next_node_wired:
  assumes "list_all (\<lambda>(op, b). two_operands op) steps" and "k = Suc j" and "k \<le> length steps"
  shows "wire_node k (program_wired a steps k) = program_wired a steps (Suc k)"
proof -
  let ?st = "program_wired a steps k" and ?n = "length steps"
  note nodes = program_wired_nodes [where steps = steps and a = a and k = k]
  let ?st1 = "modify_node k (settle_literal \<circ> clear_input 0) (modify_node j (redirect Destination_1 (leads_to k)) ?st)"
  have outd: "opc_num_inputs OUTD_OPCODE = 1" by code_simp
  have settled: "settle_literal (clear_input 0 (wired_node a steps k k)) = wired_node a steps (Suc k) k"
    using assms(2,3) step_entry(2) [OF assms(1), of k] outd
    by (simp add: settle_literal_def clear_input_def step_node_def wired_node_def final_node_def new_node_def)
  have "ps_nodes ?st1 = map (wired_node a steps (Suc k)) [0..<Suc ?n]"
  proof (rule nth_equalityI)
    fix i assume "i < length (ps_nodes ?st1)"
    then have i: "i \<le> ?n" using nodes(2) by simp
    have "redirect Destination_1 (leads_to k) (wired_node a steps k j) = wired_node a steps (Suc k) j"
      using assms(2) by (simp add: wired_node_def)
    moreover have "i \<noteq> k \<Longrightarrow> i \<noteq> j \<Longrightarrow> wired_node a steps k i = wired_node a steps (Suc k) i"
      using assms(2) by (auto simp: wired_node_def)
    ultimately show "ps_nodes ?st1 ! i = map (wired_node a steps (Suc k)) [0..<Suc ?n] ! i"
      using i nodes assms(2,3) settled
      by (cases "i = k"; cases "i = j") (simp_all add: modify_node_def del: upt_Suc)
  qed (use nodes(2) in simp)
  then show ?thesis
    unfolding next_node_connected [OF assms(2,3)] by (simp add: modify_node_def program_wired_def del: upt_Suc)
qed

lemma program_wired_step:
  assumes "list_all (\<lambda>(op, b). two_operands op) steps" and "steps \<noteq> []" and "k \<le> length steps"
  shows "wire_node k (program_wired a steps k) = program_wired a steps (Suc k)"
  using first_node_wired [OF assms(2)] next_node_wired [OF assms(1) _ assms(3)] by (cases k) simp_all

lemma program_wired_all:
  assumes "list_all (\<lambda>(op, b). two_operands op) steps" and "steps \<noteq> []" and "k \<le> Suc (length steps)"
  shows "wire_nodes k (program_wired a steps k) = program_wired a steps (Suc (length steps))"
  using assms(3)
proof (induction k rule: inc_induct)
  case base
  then show ?case by (subst wire_nodes.simps) (simp add: program_wired_def)
next
  case (step k)
  then show ?case
    using program_wired_step [OF assms(1,2), of k a]
    by (subst wire_nodes.simps) (simp add: program_wired_def)
qed

lemma program_graph:
  assumes "list_all (\<lambda>(op, b). two_operands op) steps" and "steps \<noteq> []"
  shows "parse_create_ir_graph (program_text a steps) = Some (program_graph a steps)"
proof -
  have "wired_node a steps 0 i = step_node a steps i" for i
    by (simp add: wired_node_def step_node_def new_node_def)
  then have "program_wired a steps 0 = program_parse a steps (Suc (length steps))"
    by (simp add: program_wired_def) (simp add: program_parse_def)
  with program_wired_all [OF assms le0, of a]
  have "wire_nodes 0 (program_parse a steps (Suc (length steps))) = program_wired a steps (Suc (length steps))"
    by simp
  moreover have "map nd_id (map (wired_node a steps k) [0..<Suc (length steps)]) = [0..<Suc (length steps)]" for k
    by (rule nth_equalityI) (auto simp: wired_node_def final_node_def step_node_def new_node_def simp del: upt_Suc)
  moreover have "ps_labels (program_wired a steps k) = []" "ps_external_references (program_wired a steps k) = []"
    "ps_exports (program_wired a steps k) = []"
    "ps_nodes (program_wired a steps k) = map (wired_node a steps k) [0..<Suc (length steps)]" for k
    by (simp_all add: program_wired_def program_parse_def)
  ultimately show ?thesis
    using program_parsed [OF assms(1), of a]
    by (simp add: parse_create_ir_graph_def graph_of_def program_graph_def Let_def del: upt_Suc map_map)
qed

text \<open>A graph without nodes that may be optimized away stays as it is.\<close>

lemma optimize_nothing:
  assumes "\<forall>k\<in>set (gr_nodes g). \<exists>n. find_node g k = Some n \<and> \<not> nd_optimizable n"
  shows "optimize_graph g = Some g"
proof -
  have parents: "\<exists>ps. parents_of g js k = Some ps" if "set js \<subseteq> set (gr_nodes g)" for js k
    using that assms by (induction js) fastforce+
  have "optimize_nodes (parents_of g (gr_nodes g)) ks g = Some g" if "set ks \<subseteq> set (gr_nodes g)" for ks
    using that
  proof (induction ks)
    case (Cons k ks)
    obtain ps where "parents_of g (gr_nodes g) k = Some ps" using parents [OF subset_refl] by blast
    with Cons assms show ?case by (fastforce simp: optimize_node_def)
  qed simp
  then show ?thesis by (simp add: optimize_graph_def)
qed

lemma program_find:
  assumes "k \<le> length steps"
  shows "find_node (program_graph a steps) k = Some (wired_node a steps (Suc (length steps)) k)"
proof -
  have "map nd_id (gr_objects (program_graph a steps)) = [0..<length (gr_objects (program_graph a steps))]"
    by (rule nth_equalityI) (auto simp: program_graph_def wired_node_def final_node_def new_node_def simp del: upt_Suc)
  from find_node_place [OF this, of k] assms show ?thesis by (simp add: program_graph_def nth_append del: upt_Suc)
qed

lemma program_optimized: "optimize_graph (program_graph a steps) = Some (program_graph a steps)"
proof (rule optimize_nothing, rule ballI)
  fix k assume "k \<in> set (gr_nodes (program_graph a steps))"
  then have "k \<le> length steps" by (auto simp: program_graph_def)
  with program_find [OF this] show "\<exists>n. find_node (program_graph a steps) k = Some n \<and> \<not> nd_optimizable n"
    by (simp add: wired_node_def final_node_def new_node_def)
qed

text \<open>The instructions when the nodes before \<open>j\<close> have been collected and those before \<open>k\<close> visited.\<close>

definition program_asm_instruction :: "data_type \<Rightarrow> (opcode_type \<times> data_type) list \<Rightarrow> nat \<Rightarrow> nat \<Rightarrow> asm_instruction" where
  "program_asm_instruction a steps k i = \<lparr>ai_opcode = entry_of (fst (steps ! i)),
     ai_destination_1 = (if i < k then Some (if Suc i < length steps then create_destination (int (Suc i)) 0 0
       else asm_OUTPUTD) else None),
     ai_destination_2 = None, ai_literal_1 = nd_input_1 (final_node a steps i),
     ai_literal_2 = nd_input_2 (final_node a steps i)\<rparr>"

definition program_asm :: "data_type \<Rightarrow> (opcode_type \<times> data_type) list \<Rightarrow> nat \<Rightarrow> nat \<Rightarrow> asm_state" where
  "program_asm a steps j k = \<lparr>as_instructions = map (program_asm_instruction a steps k) [0..<j],
     as_constants = (if k = length steps then [constant_update (length steps - 1) Destination_1] else []),
     as_labels = [], as_external_references = [], as_idx = (\<lambda>i. if i < j then Some i else None),
     as_to_visit = [k..<j]\<rparr>"

lemma program_collected:
  assumes "list_all (\<lambda>(op, b). two_operands op) steps" and "steps \<noteq> []" and "j \<le> length steps"
  shows "collect_nodes (program_graph a steps) [j..<Suc (length steps)] (program_asm a steps j 0)
    = Some (program_asm a steps (length steps) 0)"
  using assms(3)
proof (induction j rule: inc_induct)
  case base
  have "OUTD_OPCODE \<in> set SPECIAL_OPCODES" by code_simp
  then have "node_to_instruction (wired_node a steps (Suc (length steps)) (length steps)) = None"
    by (simp add: node_to_instruction_def wired_node_def final_node_def new_node_def)
  then show ?case by (simp add: program_find)
next
  case (step j)
  have "entry_of (fst (steps ! j)) \<notin> set SPECIAL_OPCODES"
    by (rule step_entry(5) [OF assms(1) step(2)])
  then have "node_to_instruction (wired_node a steps (Suc (length steps)) j) = Some (program_asm_instruction a steps 0 j)"
    using step(2) by (simp add: node_to_instruction_def wired_node_def program_asm_instruction_def final_node_def new_node_def)
  moreover have "append_node j (program_asm_instruction a steps 0 j) (program_asm a steps j 0) = program_asm a steps (Suc j) 0"
    using assms(2) by (auto simp: append_node_def program_asm_def fun_eq_iff)
  moreover have "[j..<Suc (length steps)] = j # [Suc j..<Suc (length steps)]" using step(2) by (simp add: upt_conv_Cons)
  ultimately show ?case using step by (simp add: program_find del: upt_Suc)
qed

lemma program_written:
  assumes "k < length steps" and "Some v = ai_destination_1 (program_asm_instruction a steps (Suc k) k)"
    and "c = (if Suc k = length steps then [constant_update k Destination_1] else [])"
  shows "write_destination k Destination_1 v ((program_asm a steps (length steps) k)
      \<lparr>as_to_visit := [Suc k..<length steps], as_constants := c\<rparr>) = program_asm a steps (length steps) (Suc k)"
proof -
  have "(map (program_asm_instruction a steps k) [0..<length steps])[k := program_asm_instruction a steps (Suc k) k]
      = map (program_asm_instruction a steps (Suc k)) [0..<length steps]"
    using assms(1) by (intro nth_equalityI) (auto simp: nth_list_update program_asm_instruction_def)
  moreover have "set_destination Destination_1 v (program_asm_instruction a steps k k) = program_asm_instruction a steps (Suc k) k"
    using assms(2) by (simp add: program_asm_instruction_def)
  moreover have "length steps - Suc 0 = k" if "Suc k = length steps" using that by simp
  ultimately show ?thesis using assms(1,3) by (simp add: write_destination_def program_asm_def)
qed

lemma program_destination:
  assumes "list_all (\<lambda>(op, b). two_operands op) steps" and "k < length steps"
  shows "visit_destination (program_graph a steps) (wired_node a steps (Suc (length steps)) k) k Destination_1
      ((program_asm a steps (length steps) k)\<lparr>as_to_visit := [Suc k..<length steps]\<rparr>)
    = Some (program_asm a steps (length steps) (Suc k))"
proof -
  let ?n = "length steps"
  let ?st = "(program_asm a steps ?n k)\<lparr>as_to_visit := [Suc k..<?n]\<rparr>" and ?target = "wired_node a steps (Suc ?n) (Suc k)"
  have node: "nd_destination_1 (wired_node a steps (Suc ?n) k) = leads_to (Suc k)"
    using assms(2) by (simp add: wired_node_def)
  have blank: "as_constants ?st = []" "?st\<lparr>as_constants := []\<rparr> = ?st" using assms(2) by (simp_all add: program_asm_def)
  note visit = visit_destination_def node leads_to_def program_find program_asm_instruction_def
  show ?thesis
  proof (cases "Suc k < ?n")
    case True
    have target: "nd_opcode ?target = entry_of (fst (steps ! Suc k))" "nd_input_1 ?target \<noteq> None" "nd_input_2 ?target = None"
      using True by (simp_all add: wired_node_def final_node_def new_node_def)
    have "OUTD_OPCODE \<in> set SPECIAL_OPCODES" "OUTS_OPCODE \<in> set SPECIAL_OPCODES" by code_simp+
    then have "nd_opcode ?target \<noteq> OUTD_OPCODE" "nd_opcode ?target \<noteq> OUTS_OPCODE"
      using step_entry(5) [OF assms(1) True] target(1) by auto
    moreover have "matching_of ?target = Some 0"
      using step_entry(2,3) [OF assms(1) True] target by (simp add: matching_of_def)
    moreover have "as_idx ?st (Suc k) = Some (Suc k)" using True by (simp add: program_asm_def)
    ultimately show ?thesis
      using True blank(2) program_written [OF assms(2), of "create_destination (int (Suc k)) 0 0" a "[]"] by (simp add: visit)
  next
    case False
    then have "Suc k = ?n" using assms(2) by simp
    then have "nd_opcode ?target = OUTD_OPCODE" by (simp add: wired_node_def final_node_def new_node_def)
    with blank(1) show ?thesis
      using program_written [OF assms(2), of asm_OUTPUTD a "[constant_update k Destination_1]"] \<open>Suc k = ?n\<close>
      by (simp add: visit)
  qed
qed

lemma program_visited:
  assumes "list_all (\<lambda>(op, b). two_operands op) steps" and "k < length steps"
  shows "visit_node (program_graph a steps) k ((program_asm a steps (length steps) k)\<lparr>as_to_visit := [Suc k..<length steps]\<rparr>)
    = Some (program_asm a steps (length steps) (Suc k))"
proof -
  let ?g = "program_graph a steps" and ?node = "wired_node a steps (Suc (length steps)) k"
  have "label_of ?g x = None" for x
    by (simp add: label_of_def program_graph_def split: option.split operand.split)
  moreover have "visit_extern ?g k k st = st" for st
    by (simp add: visit_extern_def extern_of_def program_graph_def)
  moreover have "nd_opcode ?node = entry_of (fst (steps ! k))" "visit_destination ?g ?node k Destination_2 st = Some st" for st
    using assms(2) by (simp_all add: wired_node_def final_node_def new_node_def visit_destination_def)
  moreover have "as_idx ((program_asm a steps (length steps) k)\<lparr>as_to_visit := [Suc k..<length steps]\<rparr>) k = Some k"
    using assms(2) by (simp add: program_asm_def)
  ultimately show ?thesis
    using assms(2) step_entry(5) [OF assms] program_destination [OF assms, of a]
    by (simp add: visit_node_def program_find visit_label_def)
qed

lemma program_visited_all:
  assumes "list_all (\<lambda>(op, b). two_operands op) steps" and "k \<le> length steps"
  shows "visit_nodes (program_graph a steps) (program_asm a steps (length steps) k)
    = Some (program_asm a steps (length steps) (length steps))"
  using assms(2)
proof (induction k rule: inc_induct)
  case base
  then show ?case by (subst visit_nodes.simps) (simp add: program_asm_def)
next
  case (step k)
  have "as_to_visit (program_asm a steps (length steps) k) = k # [Suc k..<length steps]"
    using step(2) by (simp add: program_asm_def upt_conv_Cons)
  then show ?case
    using step program_visited [OF assms(1), of k a] by (subst visit_nodes.simps) simp
qed

lemma program_instructions:
  assumes "list_all (\<lambda>(op, b). two_operands op) steps" and "steps \<noteq> []"
  shows "graph_to_instructions (program_graph a steps) = Some (program_asm a steps (length steps) (length steps), [])"
proof -
  have "program_asm a steps 0 0 = empty_asm" using assms(2) by (simp add: program_asm_def empty_asm_def)
  then have "collect_nodes (program_graph a steps) (gr_nodes (program_graph a steps)) empty_asm
      = Some (program_asm a steps (length steps) 0)"
    using program_collected [OF assms le0, of a] by (simp add: program_graph_def)
  then show ?thesis
    using program_visited_all [OF assms(1) le0, of a]
    by (simp add: graph_to_instructions_def) (simp add: program_graph_def)
qed

definition program_instruction :: "data_type \<Rightarrow> (opcode_type \<times> data_type) list \<Rightarrow> nat \<Rightarrow> instruction" where
  "program_instruction a steps i = \<lparr>inst_opcode = opcode_val (fst (steps ! i)),
     inst_destination_1 = (if Suc i < length steps then CREATE_DESTINATION (of_nat (Suc i)) 0 0 else OUTPUTD_DESTINATION),
     inst_destination_2 = DEV_NULL_DESTINATION, inst_marker = 0,
     inst_literal_1 = (if i = 0 then a else snd (steps ! i)),
     inst_literal_2 = (if i = 0 then snd (steps ! i) else 0), inst_instruction_literal = (if i = 0 then 2 else 1)\<rparr>"

definition program_image :: "data_type \<Rightarrow> (opcode_type \<times> data_type) list \<Rightarrow> sephi_image" where
  "program_image a steps = \<lparr>img_constants = [\<lparr>dtu_instruction_number = of_nat (length steps - 1), dtu_flags = 1\<rparr>],
     img_to_fix = [], img_references = [], img_exports = [],
     img_instructions = map (program_instruction a steps) [0..<length steps]\<rparr>"

lemma program_image_of:
  assumes "list_all (\<lambda>(op, b). two_operands op) steps"
  shows "image_of (program_asm a steps (length steps) (length steps)) [] = program_image a steps"
proof -
  note opcode = step_entry(6) [OF assms]
  have "instruction_of (program_asm_instruction a steps (length steps) i) = program_instruction a steps i"
    if "i < length steps" for i
    using that opcode [OF that] create_destination_word [of "int (Suc i)" 0 0]
    by (simp add: instruction_of_def program_asm_instruction_def program_instruction_def final_node_def new_node_def
      destination_word_def operand_word_def literal_count_def create_destination_word asm_OUTPUTD_def asm_DEV_NULL_def
      OUTPUTD_DESTINATION_def DEV_NULL_DESTINATION_def INPUT_ONE_def MATCHING_ONE_def)
  moreover have "update_of (constant_update i Destination_1) = \<lparr>dtu_instruction_number = of_nat i, dtu_flags = 1\<rparr>" for i
    by (simp add: update_of_def constant_update_def blank_update_def combine_flags_def)
  ultimately show ?thesis by (simp add: image_of_def program_asm_def program_image_def)
qed

lemma program_assembled:
  assumes "list_all (\<lambda>(op, b). two_operands op) steps" and "steps \<noteq> []" and "length steps < 2 ^ 28"
  shows "assembler_main (program_text a steps) = Some (image_bytes (program_image a steps))"
    and "image_fits (program_image a steps)"
proof -
  have some: "\<exists>bs. concat_options f xs = Some bs" if "\<forall>x\<in>set xs. f x \<noteq> None" for f :: "asm_instruction \<Rightarrow> byte list option" and xs
    using that by (induction xs) auto
  have packed: "pack_unsigned 4 asm_OUTPUTD \<noteq> None" "pack_unsigned 4 asm_DEV_NULL \<noteq> None"
    "pack_unsigned 4 (create_destination i 0 0) \<noteq> None" for i
    using create_destination_bound by (simp_all add: pack_unsigned_def asm_OUTPUTD_def asm_DEV_NULL_def del: power_numeral)
  have literals: "pack_signed (sint v) \<noteq> None" for v :: data_type
    by (simp add: pack_signed_sint)
  have "serialize_instruction (program_asm_instruction a steps (length steps) i) \<noteq> None" if "i < length steps" for i
  proof -
    have "pack_unsigned 4 (opc_opcode (entry_of (fst (steps ! i)))) \<noteq> None"
      using step_entry(6) [OF assms(1) that] uint_bounded [of "opcode_val (fst (steps ! i))"] by (simp add: pack_unsigned_def)
    then show ?thesis
      using that packed(1,2) packed(3) [of 1] packed(3) [of "1 + int i"] literals [of a] literals [of "snd (steps ! i)"] literals [of 0]
      by (auto simp: serialize_instruction_def program_asm_instruction_def final_node_def new_node_def Let_def)
  qed
  then have "\<exists>bs. concat_options serialize_instruction (map (program_asm_instruction a steps (length steps)) [0..<length steps]) = Some bs"
    by (intro some) auto
  moreover have "\<exists>bs. generate_header [constant_update (length steps - 1) Destination_1] [] [] [] = Some bs"
    using assms(3) by (simp add: generate_header_def pack_unsigned_def update_to_binary_def constant_update_def blank_update_def)
  ultimately have "\<exists>content. assemble (program_graph a steps) = Some content"
    by (auto simp: assemble_def program_instructions [OF assms(1,2)] program_asm_def)
  then obtain content where content: "assemble (program_graph a steps) = Some content" by blast
  from assemble_image [OF this] show "image_fits (program_image a steps)"
    and "assembler_main (program_text a steps) = Some (image_bytes (program_image a steps))"
    using content by (auto simp: program_instructions [OF assms(1,2)] program_image_of [OF assms(1)]
        assembler_main_def output_graph_def program_graph [OF assms(1,2)] program_optimized)
qed

end
