(* ===== verification/Running_Programs.thy ===== *)
theory Running_Programs
  imports Machine Straight_Line_Programs
begin

text \<open>
  The same programs as the operating system of the machine: loaded, and run by the five processes in any
  order.
\<close>

section \<open>The loaded program\<close>

definition step_destination :: "nat \<Rightarrow> destination_type" where
  "step_destination i = CREATE_DESTINATION (of_nat i) 0 0"

lemma step_destination_parts:
  assumes "i < 2 ^ 28"
  shows "DESTINATION_TO_ADDRESS (step_destination i) = of_nat i" "DESTINATION_TO_INPUT (step_destination i) = 0"
    "DESTINATION_TO_MATCHING_FUNCTION (step_destination i) = 0"
proof -
  have "(of_nat i :: u32) < 2 ^ 28" using assms by (simp add: word_less_nat_alt unat_of_nat)
  from destination_roundtrip [OF this, of 0 0]
  show "DESTINATION_TO_ADDRESS (step_destination i) = of_nat i" "DESTINATION_TO_INPUT (step_destination i) = 0"
    "DESTINATION_TO_MATCHING_FUNCTION (step_destination i) = 0"
    by (simp_all add: step_destination_def)
qed

lemma step_destination_no_device:
  assumes "i < 2 ^ 28 - 8"
  shows "step_destination i \<noteq> OUTPUTD_DESTINATION" "step_destination i \<noteq> OUTPUTS_DESTINATION"
    "step_destination i \<noteq> REGISTER_INPUT_HANDLER_DESTINATION"
    "step_destination i \<noteq> DEREGISTER_INPUT_HANDLER_DESTINATION" "step_destination i \<noteq> DEV_NULL_DESTINATION"
proof -
  have "unat (DESTINATION_TO_ADDRESS (step_destination i)) < 2 ^ 28 - 8"
    using assms step_destination_parts(1) [of i] by (simp add: unat_of_nat)
  moreover have "list_all (\<lambda>d. unat (DESTINATION_TO_ADDRESS d) \<ge> 2 ^ 28 - 8) [OUTPUTD_DESTINATION, OUTPUTS_DESTINATION,
      REGISTER_INPUT_HANDLER_DESTINATION, DEREGISTER_INPUT_HANDLER_DESTINATION, DEV_NULL_DESTINATION]"
    by (simp add: constant_defs OUTPUTD_DESTINATION_def OUTPUTS_DESTINATION_def REGISTER_INPUT_HANDLER_DESTINATION_def
      DEREGISTER_INPUT_HANDLER_DESTINATION_def DEV_NULL_DESTINATION_def CREATE_DESTINATION_def DESTINATION_TO_ADDRESS_def)
  ultimately show "step_destination i \<noteq> OUTPUTD_DESTINATION" "step_destination i \<noteq> OUTPUTS_DESTINATION"
    "step_destination i \<noteq> REGISTER_INPUT_HANDLER_DESTINATION"
    "step_destination i \<noteq> DEREGISTER_INPUT_HANDLER_DESTINATION" "step_destination i \<noteq> DEV_NULL_DESTINATION"
    by auto
qed

lemma program_relocated:
  assumes "length steps < 2 ^ 28" and "i < length steps"
  shows "relocate_instruction (img_constants (program_image a steps)) (img_to_fix (program_image a steps)) 0 True (of_nat i)
      (program_instruction a steps i) = program_instruction a steps i"
proof (rule instruction.equality)
  let ?new = "relocate_instruction (img_constants (program_image a steps)) (img_to_fix (program_image a steps)) 0 True (of_nat i)
      (program_instruction a steps i)"
  have same: "increment_destination_address (step_destination j) 0 = step_destination j" if "j < 2 ^ 28" for j
    using step_destination_parts [OF that] by (simp add: increment_destination_address_def) (simp add: step_destination_def)
  have listed: "is_in_list (img_constants (program_image a steps)) (of_nat i) FIRST_DESTINATION" if "\<not> Suc i < length steps"
  proof -
    have "i = length steps - 1" using that assms(2) by simp
    moreover have "is_first_destination 1" by code_simp
    ultimately show ?thesis by (simp add: is_in_list_iff program_image_def)
  qed
  show "inst_destination_1 ?new = inst_destination_1 (program_instruction a steps i)"
    using same [of "Suc i"] listed assms by (auto simp: relocate_fields program_instruction_def step_destination_def)
qed (simp_all add: relocate_fields program_instruction_def, simp_all add: program_image_def)

lemma program_loaded:
  assumes "length steps < 2 ^ 28"
  shows "relocate_all (program_image a steps) 0 True = map (program_instruction a steps) [0..<length steps]"
proof (rule nth_equalityI)
  fix i assume "i < length (relocate_all (program_image a steps) 0 True)"
  then have "i < length steps" by (simp add: length_relocate_all program_image_def)
  with program_relocated [OF assms this, of a]
  show "relocate_all (program_image a steps) 0 True ! i = map (program_instruction a steps) [0..<length steps] ! i"
    by (simp add: relocate_all_def) (simp add: program_image_def)
qed (simp add: relocate_all_def program_image_def)

lemma two_operands_inputs: "two_operands op \<Longrightarrow> num_inputs_of (opcode_val op) = Ok 2"
  by (auto simp: two_operands_def num_inputs_of_def opcode_to_num_inputs_def)

text \<open>The packet of an instruction with the value before it as its first operand.\<close>

definition step_packet :: "data_type \<Rightarrow> (opcode_type \<times> data_type) list \<Rightarrow> data_type \<Rightarrow> nat \<Rightarrow> execution_packet" where
  "step_packet a steps v i = \<lparr>pkt_data_1 = v, pkt_data_2 = snd (steps ! i), pkt_opcode = opcode_val (fst (steps ! i)),
     pkt_tag = NO_TAG, pkt_destination_1 = inst_destination_1 (program_instruction a steps i),
     pkt_destination_2 = DEV_NULL_DESTINATION, pkt_input = step_destination i, pkt_marker = 0\<rparr>"

lemma program_ready:
  assumes "list_all (\<lambda>(op, b). two_operands op) steps" and "steps \<noteq> []"
  shows "add_ready_instructions 0 (map (program_instruction a steps) [0..<length steps]) = Ok [step_packet a steps a 0]"
proof -
  have rest: "add_ready_instructions j (map (program_instruction a steps) [k..<length steps]) = Ok []"
    if "0 < k" "k \<le> length steps" for j k
    using that(2,1)
  proof (induction k arbitrary: j rule: inc_induct)
    case (step k)
    have "num_inputs_of (opcode_val (fst (steps ! k))) = Ok 2"
      by (rule two_operands_inputs [OF step_operands [OF assms(1) step(2)]])
    with step show ?case by (simp add: upt_conv_Cons) (simp add: program_instruction_def)
  qed simp
  have "[0..<length steps] = 0 # [1..<length steps]" using assms(2) by (simp add: upt_conv_Cons)
  then show ?thesis
    using rest [of 1 1] assms(2)
    by (simp add: Suc_le_eq) (simp add: program_instruction_def ready_packet_def step_packet_def step_destination_def)
qed

section \<open>The run\<close>

text \<open>The machine between two steps: what it has printed, and the packets the instruction store adds.\<close>

definition program_machine :: "table_list_type list \<Rightarrow> data_type \<Rightarrow> (opcode_type \<times> data_type) list \<Rightarrow> 'w
    \<Rightarrow> execution_packet list \<Rightarrow> byte list \<Rightarrow> 'w machine" where
  "program_machine junk a steps w packets out =
     \<lparr>mc_world = w,
      mc_store = \<lparr>cs_instructions = map (program_instruction a steps) [0..<length steps], cs_exports = []\<rparr>,
      mc_processing_unit = pu_init, mc_waiting_table = init_waiting_table junk SIZE_MATCHING_STORE, mc_stdout = out,
      mc_packets_to_add = packets, mc_answers_to_add = [], mc_outputs_to_add = [],
      mc_tokens_to_add = [], mc_pairs_to_add = [], mc_execution_token_output = [], mc_matching_unit_input = [],
      mc_ready_token_pair = [], mc_preprocessed_executable_packet = [], mc_processed_executable_packet = []\<rparr>"

lemma program_starts:
  assumes "list_all (\<lambda>(op, b). two_operands op) steps" and "steps \<noteq> []" and "length steps < 2 ^ 28"
    and "se_open (su_files E w) os_filename = Some fd"
    and "read_content (se_malloc (su_files E w)) fd = Ok (assembler_main (program_text a steps))"
  shows "machine_start E junk os_filename w = Ok (Some (program_machine junk a steps w [step_packet a steps a 0] []))"
proof -
  let ?store = "\<lparr>cs_instructions = map (program_instruction a steps) [0..<length steps], cs_exports = []\<rparr>"
  note assembled = program_assembled [OF assms(1-3), of a]
  have "load_image (image_bytes (program_image a steps)) True empty_store = Ok (?store, Some (loaded_as 0 (program_image a steps)))"
    using image_roundtrip_bytes [OF assembled(2)] program_loaded [OF assms(3), of a]
    by (simp add: load_image_def empty_store_def loaded_as_def Let_def) (simp add: program_image_def)
  then show ?thesis
    using assms(4,5) assembled(1) program_ready [OF assms(1,2), of a]
    by (simp add: machine_start_def instruction_store_start_def load_file_def program_machine_def)
qed

lemma step_executed:
  assumes "list_all (\<lambda>(op, b). two_operands op) steps" and "i < length steps" and "length steps < 2 ^ 28"
    and "alu_spec (fst (steps ! i)) (sint v) (sint (snd (steps ! i))) = Some r"
    and "trap_flag \<longrightarrow> length steps \<le> 100"
  shows "processing_unit_step trap_flag env (step_packet a steps v i) st
    = Ok (st, [\<lparr>tok_destination = inst_destination_1 (program_instruction a steps i), tok_data = word_of_int r, tok_tag = NO_TAG\<rparr>])"
proof -
  let ?p = "step_packet a steps v i" and ?op = "fst (steps ! i)"
  have opcode: "pkt_opcode ?p = opcode_val ?op" by (simp add: step_packet_def)
  have "alu_spec ?op (sint (pkt_data_1 ?p)) (sint (pkt_data_2 ?p)) = Some r"
    using assms(4) by (simp add: step_packet_def)
  from function_unit_alu [OF opcode this, of env "pu_random_calls st"] obtain result where
    result: "function_unit env (pu_random_calls st) ?p = Ok (result, pu_random_calls st)"
    "send_result result = [\<lparr>tok_destination = inst_destination_1 (program_instruction a steps i),
       tok_data = word_of_int r, tok_tag = NO_TAG\<rparr>]"
    by (auto simp: value_tokens_def step_packet_def BOTH_OUTPUT_MARKER_def)
  have "two_operands ?op" by (rule step_operands [OF assms(1,2)])
  then have "opcode_val ?op \<noteq> opcode_val RTD" by (auto simp: two_operands_def)
  moreover have "\<not> TRAP_CODE_LIMIT \<le> ucast (DESTINATION_TO_ADDRESS (pkt_input ?p))" if trap_flag
  proof -
    have "unat (DESTINATION_TO_ADDRESS (pkt_input ?p)) < 100"
      using that assms(2,5) step_destination_parts(1) [of i] by (simp add: step_packet_def unat_of_nat)
    then show ?thesis unfolding trap_check by (simp add: user_address_def)
  qed
  ultimately show ?thesis
    using result opcode by (auto simp: processing_unit_step_def emit_result_def Let_def simp del: opcode_val.simps)
qed

lemma step_fired:
  assumes "list_all (\<lambda>(op, b). two_operands op) steps" and "0 < i" and "i < length steps" and "length steps < 2 ^ 28"
  shows "instruction_store_step env \<lparr>token_1 = \<lparr>tok_destination = step_destination i, tok_data = v, tok_tag = NO_TAG\<rparr>,
      token_2 = t\<rparr> \<lparr>cs_instructions = map (program_instruction a steps) [0..<length steps], cs_exports = es\<rparr>
    = Ok (\<lparr>cs_instructions = map (program_instruction a steps) [0..<length steps], cs_exports = es\<rparr>, [step_packet a steps v i])"
proof -
  have "two_operands (fst (steps ! i))" by (rule step_operands [OF assms(1,3)])
  moreover from this have "opcode_val (fst (steps ! i)) \<noteq> opcode_val LOD" by (auto simp: two_operands_def)
  moreover from calculation(1) have "num_inputs_of (opcode_val (fst (steps ! i))) = Ok 2" by (rule two_operands_inputs)
  moreover have "unat (DESTINATION_TO_ADDRESS (step_destination i)) = i" "DESTINATION_TO_ADDRESS (step_destination i) = of_nat i"
    using assms(3,4) step_destination_parts(1) [of i] by (simp_all add: unat_of_nat)
  ultimately show ?thesis
    using assms(2,3) by (simp add: instruction_store_step_def Let_def program_instruction_def step_packet_def
        step_destination_def del: opcode_val.simps)
qed

lemma turn_first: "unit_turn E u m = Some (Ok m1) \<Longrightarrow> (machine_turn E ^^ n) m1 m2 \<Longrightarrow> (machine_turn E ^^ Suc n) m m2"
  by (rule relpowp_Suc_I2) (auto simp: machine_turn_def)

text \<open>From the packet of a step to its result behind the processing unit, and on to the packet of the next step.\<close>

lemma step_turns:
  fixes E :: "'w surroundings"
  assumes "list_all (\<lambda>(op, b). two_operands op) steps" and "i < length steps" and "length steps < 2 ^ 28"
    and "alu_spec (fst (steps ! i)) (sint v) (sint (snd (steps ! i))) = Some r"
    and "su_trap_flag E \<longrightarrow> length steps \<le> 100"
    and "(machine_turn E ^^ n) ((program_machine junk a steps w [] out)\<lparr>mc_execution_token_output :=
        [\<lparr>tok_destination = inst_destination_1 (program_instruction a steps i), tok_data = word_of_int r, tok_tag = NO_TAG\<rparr>]\<rparr>) final"
  shows "(machine_turn E ^^ (5 + n)) (program_machine junk a steps w [step_packet a steps v i] out) final"
proof -
  let ?p = "step_packet a steps v i" and ?idle = "program_machine junk a steps w [] out"
  let ?t = "\<lparr>tok_destination = inst_destination_1 (program_instruction a steps i), tok_data = word_of_int r, tok_tag = NO_TAG\<rparr>"
  have 1: "unit_turn E Instruction_store (program_machine junk a steps w [?p] out)
      = Some (Ok (?idle\<lparr>mc_preprocessed_executable_packet := [?p]\<rparr>))"
    by (simp add: turn_defs program_machine_def MAX_QUEUE_SIZE_def)
  have "two_operands (fst (steps ! i))" by (rule step_operands [OF assms(1,2)])
  then have "input_module_work E x ?p = Some (Ok (x, [?p]))" for x
    by (auto simp: input_module_work_def names_queue_def descriptors_of_def input_module_step_def step_packet_def
        two_operands_def opcode_of_Some)
  then have 2: "unit_turn E Input_module (?idle\<lparr>mc_preprocessed_executable_packet := [?p]\<rparr>)
      = Some (Ok (?idle\<lparr>mc_answers_to_add := [?p]\<rparr>))"
    by (simp add: turn_defs program_machine_def)
  have 3: "unit_turn E Input_module (?idle\<lparr>mc_answers_to_add := [?p]\<rparr>)
      = Some (Ok (?idle\<lparr>mc_processed_executable_packet := [?p]\<rparr>))"
    by (simp add: turn_defs program_machine_def MAX_QUEUE_SIZE_def)
  have 4: "unit_turn E Processing_unit (?idle\<lparr>mc_processed_executable_packet := [?p]\<rparr>)
      = Some (Ok (?idle\<lparr>mc_outputs_to_add := [?t]\<rparr>))"
    using step_executed [OF assms(1-5)] by (simp add: turn_defs program_machine_def)
  have 5: "unit_turn E Processing_unit (?idle\<lparr>mc_outputs_to_add := [?t]\<rparr>)
      = Some (Ok (?idle\<lparr>mc_execution_token_output := [?t]\<rparr>))"
    by (simp add: turn_defs program_machine_def MAX_QUEUE_SIZE_def)
  from turn_first [OF 1 turn_first [OF 2 turn_first [OF 3 turn_first [OF 4 turn_first [OF 5 assms(6)]]]]]
  show ?thesis by (simp only: eval_nat_numeral One_nat_def BitM.simps numeral_One plus_nat.simps)
qed

lemma next_step_turns:
  fixes E :: "'w surroundings"
  assumes "list_all (\<lambda>(op, b). two_operands op) steps" and "0 < i" and "i < length steps" and "length steps < 2 ^ 28 - 8"
    and "(machine_turn E ^^ n) (program_machine junk a steps w [step_packet a steps v i] out) final"
  shows "(machine_turn E ^^ (5 + n)) ((program_machine junk a steps w [] out)\<lparr>mc_execution_token_output :=
        [\<lparr>tok_destination = step_destination i, tok_data = v, tok_tag = NO_TAG\<rparr>]\<rparr>) final"
proof -
  let ?p = "step_packet a steps v i" and ?idle = "program_machine junk a steps w [] out"
  let ?t = "\<lparr>tok_destination = step_destination i, tok_data = v, tok_tag = NO_TAG\<rparr>"
  let ?pair = "\<lparr>token_1 = ?t, token_2 = su_junk_token E\<rparr>"
  have small: "i < 2 ^ 28" "i < 2 ^ 28 - 8" "length steps < 2 ^ 28" using assms(3,4) by simp_all
  have "io_switch_step stack (token_bytes pad ?t) = Ok ([], [token_bytes pad ?t])" for stack pad
    using step_destination_no_device [OF small(2)] by (simp add: io_switch_step_def token_codec.dec_enc Let_def)
  then have 1: "unit_turn E Io_switch (?idle\<lparr>mc_execution_token_output := [?t]\<rparr>) = Some (Ok (?idle\<lparr>mc_tokens_to_add := [?t]\<rparr>))"
    by (simp add: turn_defs program_machine_def token_codec.dec_enc)
  have 2: "unit_turn E Io_switch (?idle\<lparr>mc_tokens_to_add := [?t]\<rparr>) = Some (Ok (?idle\<lparr>mc_matching_unit_input := [?t]\<rparr>))"
    by (simp add: turn_defs program_machine_def MAX_QUEUE_SIZE_def)
  have "matching_unit_step junk_token ?t table = Ok (table, [\<lparr>token_1 = ?t, token_2 = junk_token\<rparr>])" for junk_token table
    using step_destination_parts(3) [OF small(1)] by (simp add: matching_unit_step_def MATCHING_ONE_def)
  then have 3: "unit_turn E Matching_unit (?idle\<lparr>mc_matching_unit_input := [?t]\<rparr>) = Some (Ok (?idle\<lparr>mc_pairs_to_add := [?pair]\<rparr>))"
    by (simp add: turn_defs program_machine_def)
  have 4: "unit_turn E Matching_unit (?idle\<lparr>mc_pairs_to_add := [?pair]\<rparr>) = Some (Ok (?idle\<lparr>mc_ready_token_pair := [?pair]\<rparr>))"
    by (simp add: turn_defs program_machine_def MAX_QUEUE_SIZE_def)
  have 5: "unit_turn E Instruction_store (?idle\<lparr>mc_ready_token_pair := [?pair]\<rparr>)
      = Some (Ok (program_machine junk a steps w [?p] out))"
    using step_fired [OF assms(1-3) small(3)] by (simp add: turn_defs program_machine_def)
  from turn_first [OF 1 turn_first [OF 2 turn_first [OF 3 turn_first [OF 4 turn_first [OF 5 assms(5)]]]]]
  show ?thesis by (simp only: eval_nat_numeral One_nat_def BitM.simps numeral_One plus_nat.simps)
qed

text \<open>The value of a program: the operations, each wrapped to 64 bits.\<close>

fun program_value :: "data_type \<Rightarrow> (opcode_type \<times> data_type) list \<Rightarrow> data_type option" where
  "program_value v [] = Some v"
| "program_value v ((op, b) # steps) = (case alu_spec op (sint v) (sint b) of
       None \<Rightarrow> None
     | Some r \<Rightarrow> program_value (word_of_int r) steps)"

lemma program_turns:
  fixes E :: "'w surroundings"
  assumes "list_all (\<lambda>(op, b). two_operands op) steps" and "length steps < 2 ^ 28 - 8"
    and "su_trap_flag E \<longrightarrow> length steps \<le> 100"
    and "i < length steps" and "program_value v (drop i steps) = Some u"
  shows "(machine_turn E ^^ (10 * (length steps - i) - 4)) (program_machine junk a steps w [step_packet a steps v i] [])
    (program_machine junk a steps w [] (printf_ld u))"
  using assms(4,5)
proof (induction "length steps - i" arbitrary: i v)
  case (Suc k)
  have small: "length steps < 2 ^ 28" using assms(2) by simp
  have "drop i steps = steps ! i # drop (Suc i) steps" using Suc.prems(1) by (simp add: Cons_nth_drop_Suc)
  then obtain r where r: "alu_spec (fst (steps ! i)) (sint v) (sint (snd (steps ! i))) = Some r"
    and rest: "program_value (word_of_int r) (drop (Suc i) steps) = Some u"
    using Suc.prems(2) by (cases "steps ! i") (auto split: option.splits)
  note here = step_turns [OF assms(1) Suc.prems(1) small r assms(3)]
  show ?case
  proof (cases "Suc i < length steps")
    case True
    have "(machine_turn E ^^ (10 * (length steps - Suc i) - 4))
        (program_machine junk a steps w [step_packet a steps (word_of_int r) (Suc i)] [])
        (program_machine junk a steps w [] (printf_ld u))"
      using Suc.hyps(2) by (intro Suc.hyps(1) [OF _ True rest]) simp
    from next_step_turns [OF assms(1) zero_less_Suc True assms(2) this]
    have "(machine_turn E ^^ (5 + (5 + (10 * (length steps - Suc i) - 4))))
        (program_machine junk a steps w [step_packet a steps v i] []) (program_machine junk a steps w [] (printf_ld u))"
      using True by (intro here) (simp add: program_instruction_def step_destination_def)
    moreover have "5 + (5 + (10 * (length steps - Suc i) - 4)) = 10 * (length steps - i) - 4" using True by simp
    ultimately show ?thesis by (simp only:)
  next
    case False
    then have last_step: "length steps - i = 1" "drop (Suc i) steps = []" using Suc.prems(1) by simp_all
    let ?t = "\<lparr>tok_destination = OUTPUTD_DESTINATION, tok_data = word_of_int r, tok_tag = NO_TAG\<rparr> :: token_type"
    have "io_switch_step stack (token_bytes pad ?t) = Ok (printf_ld u, [])" for stack pad
      using rest last_step(2) by (simp add: io_switch_step_def token_codec.dec_enc Let_def)
    then have "unit_turn E Io_switch ((program_machine junk a steps w [] [])\<lparr>mc_execution_token_output := [?t]\<rparr>)
        = Some (Ok (program_machine junk a steps w [] (printf_ld u)))"
      by (simp add: turn_defs program_machine_def)
    from turn_first [OF this, of 0] have "(machine_turn E ^^ 1)
        ((program_machine junk a steps w [] [])\<lparr>mc_execution_token_output := [?t]\<rparr>) (program_machine junk a steps w [] (printf_ld u))"
      by (simp only: relpowp.simps One_nat_def simp_thms)
    then have "(machine_turn E ^^ (5 + 1)) (program_machine junk a steps w [step_packet a steps v i] [])
        (program_machine junk a steps w [] (printf_ld u))"
      using False by (intro here) (simp add: program_instruction_def del: relpowp_1)
    with last_step show ?thesis by simp
  qed
qed simp

lemma program_rests: "machine_rest E (program_machine junk a steps w [] out)"
proof -
  have "unit_turn E u (program_machine junk a steps w [] out) = None" for u
    by (cases u) (simp_all add: turn_defs program_machine_def)
  then show ?thesis by (simp add: machine_rest_def machine_outside_def program_machine_def)
qed

text \<open>
  C3: from the text to what is printed. A text of any number of lines, each of which combines the value of
  the line before with a number (a shift by 63 bits at most), with a last line that prints the value, is
  accepted by the assembler; the file is loaded as the operating system; and whatever the order in which
  the five processes run, none of them dies, no call is made with the descriptor of a queue, and after ten
  turns a line all have come to rest, and the machine has printed what the operations give, wrapped to 64
  bits. With trap mode this is for at most 100 lines: the instructions from number 100 on would be
  single-stepped.
\<close>

theorem straight_line_program_runs:
  fixes E :: "'w surroundings"
  assumes "list_all (\<lambda>(op, b). two_operands op) steps" and "steps \<noteq> []" and "length steps < 2 ^ 28 - 8"
    and "program_value a steps = Some u" and "su_trap_flag E \<longrightarrow> length steps \<le> 100"
    and "se_open (su_files E w) os_filename = Some fd"
    and "read_content (se_malloc (su_files E w)) fd = Ok (assembler_main (program_text a steps))"
    and "fixed_files E" and "n = 10 * length steps - 4"
  shows "assembler_main (program_text a steps) \<noteq> None
    \<and> (\<exists>m final. machine_start E junk os_filename w = Ok (Some m)
         \<and> (machine_turn E ^^ n) m final \<and> machine_rest E final \<and> mc_stdout final = printf_ld u
         \<and> (\<forall>k s. (machine_turn E ^^ k) m s \<longrightarrow> k \<le> n \<and> (machine_turn E ^^ (n - k)) s final
              \<and> \<not> machine_outside E s \<and> (\<forall>u r. unit_turn E u s = Some r \<longrightarrow> is_ok r)))"
proof (intro conjI exI)
  let ?m = "program_machine junk a steps w [step_packet a steps a 0] []"
  let ?final = "program_machine junk a steps w [] (printf_ld u)"
  have small: "length steps < 2 ^ 28" using assms(3) by simp
  show "assembler_main (program_text a steps) \<noteq> None" by (simp add: program_assembled(1) [OF assms(1,2) small])
  show "machine_start E junk os_filename w = Ok (Some ?m)" by (rule program_starts [OF assms(1,2) small assms(6,7)])
  have run: "(machine_turn E ^^ n) ?m ?final"
    using program_turns [OF assms(1,3,5), of 0 a u] assms(2,4,9) by simp
  note rest = program_rests
  from run show "(machine_turn E ^^ n) ?m ?final" .
  show "machine_rest E ?final" by (rule rest)
  show "mc_stdout ?final = printf_ld u" by (simp add: program_machine_def)
  have "is_ok r" if "(machine_turn E ^^ (n - k)) s ?final" "unit_turn E v s = Some r" for k s v r
    using turn_on_the_way [OF that(1) rest that(2) assms(8)] by auto
  moreover have "\<not> machine_outside E s" if "(machine_turn E ^^ (n - k)) s ?final" for k s
    using outside_to_the_end [OF that] rest [of E] unfolding machine_rest_def by blast
  ultimately show "\<forall>k s. (machine_turn E ^^ k) ?m s \<longrightarrow> k \<le> n \<and> (machine_turn E ^^ (n - k)) s ?final
      \<and> \<not> machine_outside E s \<and> (\<forall>u r. unit_turn E u s = Some r \<longrightarrow> is_ok r)"
    using runs_join [OF run rest assms(8)] by blast
qed

text \<open>Six times the difference of seven and nine, with trap mode compiled in.\<close>

definition product_steps :: "(opcode_type \<times> data_type) list" where
  "product_steps = [(SUB, 9), (MUL, 6)]"

definition product_surroundings :: "(byte list \<times> byte list) surroundings" where
  "product_surroundings = small_surroundings\<lparr>su_trap_flag := True, su_files := (\<lambda>w. \<lparr>se_malloc = zero_malloc,
     se_open = (\<lambda>name. if name = [111, 115] then Some (image_file (program_image 7 product_steps)) else None)\<rparr>)\<rparr>"

theorem straight_line_program_runs_witness:
  "\<exists>m final. machine_start product_surroundings [] [111, 115] ([], []) = Ok (Some m)
     \<and> (machine_turn product_surroundings ^^ 16) m final \<and> mc_stdout final = [45, 49, 50, 10]"
proof -
  have steps: "list_all (\<lambda>(op, b). two_operands op) product_steps" "product_steps \<noteq> []"
    "length product_steps < 2 ^ 28 - 8" "length product_steps < 2 ^ 28" "length product_steps \<le> 100" "16 = 10 * length product_steps - 4"
    by (simp_all add: product_steps_def two_operands_def)
  have result: "program_value 7 product_steps = Some (- 12)" by (simp add: product_steps_def) 
  have "length (image_bytes (program_image 7 product_steps)) = 104"
    by (simp add: image_bytes_def program_image_def header_codec instruction_codec.length_enc update_codec product_steps_def)
  then have content: "read_content (se_malloc (su_files product_surroundings w)) (image_file (program_image 7 product_steps))
      = Ok (assembler_main (program_text 7 product_steps))" for w
    using read_image_file [of "program_image 7 product_steps"]
    by (simp add: program_assembled(1) [OF steps(1,2,4)] product_surroundings_def)
  have "printf_ld (- 12) = [45, 49, 50, 10]" by code_simp
  with straight_line_program_runs [OF steps(1,2,3) result _ _ content _ steps(6), of "([], [])" "[111, 115]" "[]"] steps(5)
  show ?thesis by (auto simp: product_surroundings_def fixed_files_def)
qed

end
