(* ===== verification/Strip.thy ===== *)
theory Strip
  imports Assembler_Image Io_Switch Instruction_Store
begin

text \<open>
  strip.py: the names of the external references and exports of several sephi files become numbers, the
  same name the same number in all of them, so that the files still fit together. The files are given by
  their contents; a path that is given twice is stripped twice by the script, here it is taken once.
\<close>

section \<open>The program\<close>

text \<open>
  mapping, a dictionary from names, with the bytes of their field, to new names; and the counter i, by
  the number it gives next.
\<close>

record strip_state =
  sp_mapping :: "byte list \<Rightarrow> byte list option"
  sp_next :: nat

definition empty_strip :: strip_state where
  "empty_strip = \<lparr>sp_mapping = (\<lambda>_. None), sp_next = 0\<rparr>"

definition new_name_of :: "byte list \<Rightarrow> strip_state \<Rightarrow> byte list \<times> strip_state" where
  "new_name_of name st = (case sp_mapping st name of
       Some new_name \<Rightarrow> (new_name, st)
     | None \<Rightarrow> (let new_name = decimal_digits (sp_next st)
         in (new_name, st\<lparr>sp_mapping := (sp_mapping st)(name \<mapsto> new_name), sp_next := sp_next st + 1\<rparr>)))"

text \<open>bytes.startswith, and struct.iter_unpack: the pieces of a buffer, which they must fill.\<close>

definition startswith :: "byte list \<Rightarrow> byte list \<Rightarrow> bool" where
  "startswith name start \<longleftrightarrow> take (length start) name = start"

definition iter_unpack :: "nat \<Rightarrow> byte list \<Rightarrow> byte list list option" where
  "iter_unpack size_of buffer = (if length buffer mod size_of \<noteq> 0 then None
     else Some (map (\<lambda>i. slice (size_of * i) size_of buffer) [0..<length buffer div size_of]))"

text \<open>The two loops over a table; the result is the new table.\<close>

fun strip_references :: "byte list list \<Rightarrow> strip_state \<Rightarrow> byte list \<times> strip_state" where
  "strip_references [] st = ([], st)"
| "strip_references (entry # entries) st =
     (let r = reference_of_bytes entry;
          (new_name, st1) = new_name_of (ext_name r) st;
          (new_external, st2) = strip_references entries st1
      in (reference_bytes (r\<lparr>ext_name := pack_name new_name\<rparr>) @ new_external, st2))"

definition is_main_name :: "byte list \<Rightarrow> bool" where
  "is_main_name name \<longleftrightarrow> startswith name main_arg_name \<or> startswith name main_return_location_name"

fun strip_exports :: "byte list list \<Rightarrow> strip_state \<Rightarrow> byte list \<times> strip_state" where
  "strip_exports [] st = ([], st)"
| "strip_exports (entry # entries) st =
     (let e = export_of_bytes entry;
          (new_name, st1) = (if is_main_name (exp_name e) then (exp_name e, st) else new_name_of (exp_name e) st);
          (new_export, st2) = strip_exports entries st1
      in (export_bytes (e\<lparr>exp_name := pack_name new_name\<rparr>) @ new_export, st2))"

definition strip_file :: "byte list \<Rightarrow> strip_state \<Rightarrow> (byte list \<times> strip_state) option" where
  "strip_file content st =
     (if length content < 16 then None
      else let header = header_of_bytes (slice 0 16 content);
             start_external = 16 + unat (hdr_num_constant header) * 8 + unat (hdr_num_to_fix header) * 8;
             start_exported = start_external + unat (hdr_num_external_ref header) * 264;
             end_exported = start_exported + unat (hdr_num_exported header) * 260;
             old_external = slice start_external (start_exported - start_external) content;
             old_export = slice start_exported (end_exported - start_exported) content
        in do {
          externals \<leftarrow> iter_unpack 264 old_external;
          let (new_external, st1) = strip_references externals st;
          _ \<leftarrow> (if length new_external = length old_external then Some () else None);
          exports \<leftarrow> iter_unpack 260 old_export;
          let (new_export, st2) = strip_exports exports st1;
          _ \<leftarrow> (if length new_export = length old_export then Some () else None);
          let new_content = take start_external content @ new_external @ new_export @ drop end_exported content;
          if length new_content = length content then Some (new_content, st2) else None })"

text \<open>main: the contents of the files afterwards; a file that is refused ends the program.\<close>

fun strip_all :: "byte list list \<Rightarrow> strip_state \<Rightarrow> byte list list option" where
  "strip_all [] st = Some []"
| "strip_all (content # contents) st = do {
     (new_content, st') \<leftarrow> strip_file content st;
     new_contents \<leftarrow> strip_all contents st';
     Some (new_content # new_contents) }"

definition strip_main :: "byte list list \<Rightarrow> byte list list option" where
  "strip_main files_to_strip = strip_all files_to_strip empty_strip"

section \<open>What it does to images\<close>

text \<open>The number of a name is its place among the names met.\<close>

definition number_of :: "byte list list \<Rightarrow> byte list \<Rightarrow> byte list" where
  "number_of names name = decimal_digits (length (takeWhile (\<lambda>n. n \<noteq> name) names))"

definition numbered :: "byte list list \<Rightarrow> strip_state \<Rightarrow> bool" where
  "numbered names st \<longleftrightarrow> distinct names \<and> sp_next st = length names
     \<and> sp_mapping st = (\<lambda>name. if name \<in> set names then Some (number_of names name) else None)"

lemma numbered_empty: "numbered [] empty_strip"
  by (simp add: numbered_def empty_strip_def)

lemma number_of_append: "name \<in> set names \<Longrightarrow> number_of (names @ extra) name = number_of names name"
  by (simp add: number_of_def takeWhile_append1)

lemma number_of_new: "name \<notin> set names \<Longrightarrow> number_of (names @ [name]) name = decimal_digits (length names)"
  by (subst number_of_def, subst takeWhile_append2) auto

text \<open>\<open>names\<close> have been met, and then those of \<open>extra\<close> for the first time.\<close>

definition met :: "byte list set \<Rightarrow> byte list list \<Rightarrow> byte list list \<Rightarrow> strip_state \<Rightarrow> bool" where
  "met found names extra st \<longleftrightarrow> numbered (names @ extra) st \<and> set extra = found - set names"

lemma new_name_of_spec:
  assumes "numbered names st"
  shows "\<exists>extra st'. new_name_of name st = (number_of (names @ extra) name, st') \<and> met {name} names extra st'"
proof (cases "name \<in> set names")
  case True
  with assms show ?thesis
    by (intro exI [of _ "[]"] exI [of _ st]) (simp add: new_name_of_def numbered_def met_def insert_absorb)
next
  case False
  let ?st = "st\<lparr>sp_mapping := (sp_mapping st)(name \<mapsto> decimal_digits (sp_next st)), sp_next := sp_next st + 1\<rparr>"
  have "sp_mapping ?st = (\<lambda>n. if n \<in> set (names @ [name]) then Some (number_of (names @ [name]) n) else None)"
    using assms False by (auto simp: numbered_def number_of_append number_of_new fun_eq_iff)
  then have "numbered (names @ [name]) ?st" using assms False by (simp add: numbered_def)
  moreover have "sp_mapping st name = None" "sp_next st = length names"
    using assms False by (simp_all add: numbered_def)
  then have "new_name_of name st = (number_of (names @ [name]) name, ?st)"
    using False by (simp add: new_name_of_def number_of_new Let_def)
  ultimately show ?thesis
    using False by (intro exI [of _ "[name]"] exI [of _ ?st]) (auto simp: met_def)
qed

lemma met_trans:
  assumes "met A names extra st" and "met B (names @ extra) extra2 st'"
  shows "met (A \<union> B) names (extra @ extra2) st'"
  using assms by (auto simp: met_def)

text \<open>The tables with the new names, given all the names.\<close>

definition renamed_reference :: "byte list list \<Rightarrow> external_reference \<Rightarrow> external_reference" where
  "renamed_reference names r = r\<lparr>ext_name := pack_name (number_of names (ext_name r))\<rparr>"

definition renamed_export :: "byte list list \<Rightarrow> export_symbol \<Rightarrow> export_symbol" where
  "renamed_export names e = (if is_main_name (exp_name e) then e
     else e\<lparr>exp_name := pack_name (number_of names (exp_name e))\<rparr>)"

definition stripped :: "byte list list \<Rightarrow> sephi_image \<Rightarrow> sephi_image" where
  "stripped names img = img\<lparr>img_references := map (renamed_reference names) (img_references img),
     img_exports := map (renamed_export names) (img_exports img)\<rparr>"

lemma strip_references_spec:
  assumes "numbered names st" and "\<forall>r\<in>set rs. length (ext_name r) = 256"
  shows "\<exists>extra st'. strip_references (map reference_bytes rs) st
       = (concat (map (\<lambda>r. reference_bytes (renamed_reference (names @ extra) r)) rs), st')
     \<and> met (ext_name ` set rs) names extra st'"
  using assms
proof (induction rs arbitrary: names st)
  case Nil
  then show ?case by (intro exI [of _ "[]"] exI [of _ st]) (simp add: met_def)
next
  case (Cons r rs)
  from new_name_of_spec [OF Cons.prems(1)] obtain extra1 st1 where
    one: "new_name_of (ext_name r) st = (number_of (names @ extra1) (ext_name r), st1)"
    and met1: "met {ext_name r} names extra1 st1" by blast
  then have "numbered (names @ extra1) st1" by (simp add: met_def)
  from Cons.IH [OF this] Cons.prems(2) obtain extra2 st2 where
    rest: "strip_references (map reference_bytes rs) st1
       = (concat (map (\<lambda>r. reference_bytes (renamed_reference ((names @ extra1) @ extra2) r)) rs), st2)"
    and met2: "met (ext_name ` set rs) (names @ extra1) extra2 st2" by auto
  have "ext_name r \<in> set (names @ extra1)" using met1 by (auto simp: met_def)
  from number_of_append [OF this] one rest Cons.prems(2) have "strip_references (map reference_bytes (r # rs)) st
       = (concat (map (\<lambda>r. reference_bytes (renamed_reference (names @ extra1 @ extra2) r)) (r # rs)), st2)"
    by (simp add: reference_codec renamed_reference_def)
  moreover have "met (ext_name ` set (r # rs)) names (extra1 @ extra2) st2"
    using met_trans [OF met1 met2] by simp
  ultimately show ?case by blast
qed

lemma pack_name_full: "length name = 256 \<Longrightarrow> pack_name name = name"
  by (simp add: pack_name_def)

lemma strip_exports_spec:
  assumes "numbered names st" and "\<forall>e\<in>set es. length (exp_name e) = 256"
  shows "\<exists>extra st'. strip_exports (map export_bytes es) st
       = (concat (map (\<lambda>e. export_bytes (renamed_export (names @ extra) e)) es), st')
     \<and> met {n \<in> exp_name ` set es. \<not> is_main_name n} names extra st'"
  using assms
proof (induction es arbitrary: names st)
  case Nil
  then show ?case by (intro exI [of _ "[]"] exI [of _ st]) (simp add: met_def)
next
  case (Cons e es)
  let ?main = "is_main_name (exp_name e)"
  obtain extra1 st1 where
    one: "(if ?main then (exp_name e, st) else new_name_of (exp_name e) st)
        = (if ?main then exp_name e else number_of (names @ extra1) (exp_name e), st1)"
    and met1: "met (if ?main then {} else {exp_name e}) names extra1 st1"
  proof (cases ?main)
    case True
    with Cons.prems(1) that [of "[]" st] show ?thesis by (simp add: met_def)
  next
    case False
    with new_name_of_spec [OF Cons.prems(1), of "exp_name e"] that show ?thesis by auto
  qed
  then have "numbered (names @ extra1) st1" by (simp add: met_def)
  from Cons.IH [OF this] Cons.prems(2) obtain extra2 st2 where
    rest: "strip_exports (map export_bytes es) st1
       = (concat (map (\<lambda>e. export_bytes (renamed_export ((names @ extra1) @ extra2) e)) es), st2)"
    and met2: "met {n \<in> exp_name ` set es. \<not> is_main_name n} (names @ extra1) extra2 st2" by auto
  have "\<not> ?main \<Longrightarrow> exp_name e \<in> set (names @ extra1)" using met1 by (auto simp: met_def)
  with number_of_append [of "exp_name e" "names @ extra1" extra2]
  have same: "\<not> ?main \<Longrightarrow> number_of (names @ extra1 @ extra2) (exp_name e) = number_of (names @ extra1) (exp_name e)"
    by simp
  have "strip_exports (map export_bytes (e # es)) st
       = (concat (map (\<lambda>e. export_bytes (renamed_export (names @ extra1 @ extra2) e)) (e # es)), st2)"
    using one rest Cons.prems(2) same
    by (cases ?main) (simp_all add: export_codec renamed_export_def pack_name_full)
  moreover have "{n \<in> exp_name ` set (e # es). \<not> is_main_name n}
      = (if ?main then {} else {exp_name e}) \<union> {n \<in> exp_name ` set es. \<not> is_main_name n}" by auto
  with met_trans [OF met1 met2]
  have "met {n \<in> exp_name ` set (e # es). \<not> is_main_name n} names (extra1 @ extra2) st2" by simp
  ultimately show ?case by blast
qed

section \<open>What it does to files\<close>

definition names_of :: "sephi_image \<Rightarrow> byte list set" where
  "names_of img = ext_name ` set (img_references img) \<union> {n \<in> exp_name ` set (img_exports img). \<not> is_main_name n}"

lemma stripped_append:
  assumes "names_of img \<subseteq> set names"
  shows "stripped (names @ extra) img = stripped names img"
  using assms number_of_append [of _ names extra]
  by (auto simp: stripped_def names_of_def renamed_reference_def renamed_export_def subset_iff intro!: map_cong)

lemma iter_unpack_concat:
  assumes "\<forall>x\<in>set xs. length (enc x) = m" and "0 < m"
  shows "iter_unpack m (concat (map enc xs)) = Some (map enc xs)"
proof -
  have len: "length (concat (map enc xs)) = m * length xs" by (rule length_concat_map [OF assms(1)])
  have "map (\<lambda>i. slice (m * i) m (concat (map enc xs))) [0..<length xs] = map enc xs"
    by (rule nth_equalityI) (use slice_concat_map [OF assms(1), of _ "[]"] in simp_all)
  then show ?thesis unfolding iter_unpack_def len using assms(2) by simp
qed

lemma strip_file_parts:
  assumes "content = p @ r @ e @ i" and "header = header_of_bytes (slice 0 16 content)" and "16 \<le> length content"
    and "16 + unat (hdr_num_constant header) * 8 + unat (hdr_num_to_fix header) * 8 = length p"
    and "unat (hdr_num_external_ref header) * 264 = length r" and "unat (hdr_num_exported header) * 260 = length e"
    and "iter_unpack 264 r = Some externals" and "strip_references externals st = (r', st1)" and "length r' = length r"
    and "iter_unpack 260 e = Some exports" and "strip_exports exports st1 = (e', st2)" and "length e' = length e"
  shows "strip_file content st = Some (p @ r' @ e' @ i, st2)"
proof -
  have "slice (length p) (length r) content = r" "slice (length p + length r) (length e) content = e"
    "take (length p) content = p" "drop (length p + length r + length e) content = i"
    by (simp_all add: slice_def assms(1))
  with assms(3-) show ?thesis
    unfolding strip_file_def assms(2) [symmetric] Let_def by (simp add: assms(1))
qed

lemma stripped_fits: "image_fits img \<Longrightarrow> image_fits (stripped names img)"
  by (auto simp: image_fits_def stripped_def renamed_reference_def renamed_export_def length_pack_name)

lemma strip_file_image:
  assumes fits: "image_fits img" and st: "numbered names st"
  shows "\<exists>extra st'. strip_file (image_bytes img) st = Some (image_bytes (stripped (names @ extra) img), st')
    \<and> met (names_of img) names extra st'"
proof -
  let ?cf = "concat (map update_bytes (img_constants img)) @ concat (map update_bytes (img_to_fix img))"
  let ?r = "concat (map reference_bytes (img_references img))" and ?e = "concat (map export_bytes (img_exports img))"
  let ?i = "concat (map (instruction_bytes 0) (img_instructions img))"
  have names: "\<forall>r\<in>set (img_references img). length (ext_name r) = 256"
    "\<forall>e\<in>set (img_exports img). length (exp_name e) = 256" using fits by (simp_all add: image_fits_def)
  have refs: "\<forall>r\<in>set (img_references img). length (reference_bytes r) = 264"
    and exps: "\<forall>e\<in>set (img_exports img). length (export_bytes e) = 260"
    using names by (simp_all add: reference_codec export_codec)
  have lens: "length ?cf = 8 * length (img_constants img) + 8 * length (img_to_fix img)"
    "length ?r = 264 * length (img_references img)" "length ?e = 260 * length (img_exports img)"
    using length_concat_map [of _ update_bytes 8] length_concat_map [OF refs] length_concat_map [OF exps]
    by (simp_all add: update_codec)
  from strip_references_spec [OF st names(1)] obtain extra1 st1 where
    s1: "strip_references (map reference_bytes (img_references img)) st
       = (concat (map (\<lambda>r. reference_bytes (renamed_reference (names @ extra1) r)) (img_references img)), st1)"
    and met1: "met (ext_name ` set (img_references img)) names extra1 st1" by blast
  then have "numbered (names @ extra1) st1" by (simp add: met_def)
  from strip_exports_spec [OF this names(2)] obtain extra2 st2 where
    s2: "strip_exports (map export_bytes (img_exports img)) st1
       = (concat (map (\<lambda>e. export_bytes (renamed_export ((names @ extra1) @ extra2) e)) (img_exports img)), st2)"
    and met2: "met {n \<in> exp_name ` set (img_exports img). \<not> is_main_name n} (names @ extra1) extra2 st2" by blast
  let ?names = "names @ extra1 @ extra2"
  have "ext_name r \<in> set (names @ extra1)" if "r \<in> set (img_references img)" for r
    using met1 that by (auto simp: met_def)
  from number_of_append [OF this] have same: "map (\<lambda>r. reference_bytes (renamed_reference (names @ extra1) r)) (img_references img)
      = map (\<lambda>r. reference_bytes (renamed_reference ?names r)) (img_references img)"
    by (auto simp: renamed_reference_def)
  let ?nr = "concat (map (\<lambda>r. reference_bytes (renamed_reference ?names r)) (img_references img))"
  let ?ne = "concat (map (\<lambda>e. export_bytes (renamed_export ?names e)) (img_exports img))"
  have new: "length ?nr = length ?r" "length ?ne = length ?e"
    unfolding lens using names
    by (auto intro!: length_concat_map simp: reference_codec export_codec renamed_reference_def
        renamed_export_def length_pack_name)
  have bytes: "image_bytes img = (header_bytes img @ ?cf) @ ?r @ ?e @ ?i"
    "image_bytes (stripped ?names img) = (header_bytes img @ ?cf) @ ?nr @ ?ne @ ?i"
    by (simp_all add: image_bytes_def stripped_def header_bytes_def comp_def)
  have start: "length (header_bytes img @ ?cf) = 16 + length (img_constants img) * 8 + length (img_to_fix img) * 8"
    unfolding length_append [of "header_bytes img"] lens header_codec(1) by simp
  have header: "header_of_bytes (slice 0 16 (image_bytes img)) = header_of_bytes (header_bytes img)"
    unfolding bytes by (simp add: slice_def header_codec)
  have counts: "unat (of_nat (length (img_constants img)) :: u16) = length (img_constants img)"
    "unat (of_nat (length (img_to_fix img)) :: u16) = length (img_to_fix img)"
    "unat (of_nat (length (img_references img)) :: u16) = length (img_references img)"
    "unat (of_nat (length (img_exports img)) :: u16) = length (img_exports img)"
    using fits by (simp_all add: image_fits_def unat_of_nat_u16)
  have "strip_file (image_bytes img) st = Some (image_bytes (stripped ?names img), st2)"
    unfolding bytes(2)
  proof (rule strip_file_parts [OF bytes(1) refl])
    show "16 \<le> length (image_bytes img)" unfolding bytes length_append header_codec(1) by simp
  qed (use s1 s2 new in \<open>simp_all only: header header_codec(2) counts start lens sephi_header.select_convs same
      append.assoc mult.commute iter_unpack_concat [OF refs] iter_unpack_concat [OF exps] zero_less_numeral\<close>)
  moreover have "met (names_of img) names (extra1 @ extra2) st2"
    using met_trans [OF met1 met2] by (simp add: names_of_def)
  ultimately show ?thesis by blast
qed

lemma met_names: "met found names extra st \<Longrightarrow> found \<subseteq> set (names @ extra)"
  by (auto simp: met_def)

lemma strip_all_images:
  assumes "\<forall>img\<in>set imgs. image_fits img" and "numbered names st"
  shows "\<exists>extra st'. strip_all (map image_bytes imgs) st
      = Some (map (\<lambda>img. image_bytes (stripped (names @ extra) img)) imgs)
    \<and> met (\<Union> (names_of ` set imgs)) names extra st'"
  using assms
proof (induction imgs arbitrary: names st)
  case Nil
  then show ?case by (intro exI [of _ "[]"] exI [of _ st]) (simp add: met_def)
next
  case (Cons img imgs)
  from strip_file_image [OF _ Cons.prems(2), of img] Cons.prems(1) obtain extra1 st1 where
    one: "strip_file (image_bytes img) st = Some (image_bytes (stripped (names @ extra1) img), st1)"
    and met1: "met (names_of img) names extra1 st1" by auto
  then have "numbered (names @ extra1) st1" by (simp add: met_def)
  from Cons.IH [OF _ this] Cons.prems(1) obtain extra2 st2 where
    rest: "strip_all (map image_bytes imgs) st1
        = Some (map (\<lambda>img. image_bytes (stripped ((names @ extra1) @ extra2) img)) imgs)"
    and met2: "met (\<Union> (names_of ` set imgs)) (names @ extra1) extra2 st2" by auto
  have "stripped (names @ extra1 @ extra2) img = stripped (names @ extra1) img"
    using stripped_append [OF met_names [OF met1], of extra2] by simp
  with one rest have "strip_all (map image_bytes (img # imgs)) st
      = Some (map (\<lambda>img. image_bytes (stripped (names @ extra1 @ extra2) img)) (img # imgs))" by simp
  moreover have "met (\<Union> (names_of ` set (img # imgs))) names (extra1 @ extra2) st2"
    using met_trans [OF met1 met2] by simp
  ultimately show ?case by blast
qed

lemma strip_main_images:
  assumes "\<forall>img\<in>set imgs. image_fits img"
  shows "\<exists>names. strip_main (map image_bytes imgs) = Some (map (\<lambda>img. image_bytes (stripped names img)) imgs)
    \<and> distinct names \<and> set names = \<Union> (names_of ` set imgs)"
proof -
  from strip_all_images [OF assms numbered_empty] obtain names st where
    "strip_all (map image_bytes imgs) empty_strip = Some (map (\<lambda>img. image_bytes (stripped ([] @ names) img)) imgs)"
    and met: "met (\<Union> (names_of ` set imgs)) [] names st" by blast
  moreover have "distinct names" "set names = \<Union> (names_of ` set imgs)"
    using met by (simp_all add: met_def numbered_def)
  ultimately show ?thesis by (auto simp: strip_main_def)
qed

text \<open>Numbers of different names differ, also as names of 256 bytes.\<close>

lemma decimal_digits_inject: "decimal_digits m = decimal_digits n \<longleftrightarrow> m = n"
  by (metis read_decimal_digits)

lemma number_of_inject:
  assumes "m \<in> set names" and "n \<in> set names"
  shows "number_of names m = number_of names n \<longleftrightarrow> m = n"
proof -
  have place: "names ! length (takeWhile (\<lambda>x. x \<noteq> k) names) = k" if "k \<in> set names" for k
  proof -
    have "takeWhile (\<lambda>x. x \<noteq> k) names \<noteq> names" using that by (simp add: takeWhile_eq_all_conv)
    then have "length (takeWhile (\<lambda>x. x \<noteq> k) names) < length names"
      by (metis length_takeWhile_le nat_less_le take_all_iff takeWhile_eq_take)
    then show ?thesis using nth_length_takeWhile [of "\<lambda>x. x \<noteq> k" names] by blast
  qed
  then show ?thesis using assms by (metis number_of_def decimal_digits_inject)
qed

text \<open>
  C28: stripping never fails on images, and changes nothing in them but names: the names get different
  numbers, a reference or export the number of its name in every file, only the exports whose names
  begin like those of the main function keep theirs - but not the references to them.
\<close>

theorem strip_renames:
  assumes "\<forall>img\<in>set imgs. image_fits img"
  shows "\<exists>names. strip_main (map image_bytes imgs) = Some (map (\<lambda>img. image_bytes (stripped names img)) imgs)
    \<and> set names = (\<Union>img\<in>set imgs. names_of img) \<and> inj_on (number_of names) (set names)
    \<and> (\<forall>img\<in>set imgs. image_of_bytes (image_bytes (stripped names img)) = Some (stripped names img))"
proof -
  from strip_main_images [OF assms] obtain names where
    "strip_main (map image_bytes imgs) = Some (map (\<lambda>img. image_bytes (stripped names img)) imgs)"
    "set names = \<Union> (names_of ` set imgs)" by blast
  moreover have "inj_on (number_of names) (set names)"
    by (rule inj_onI) (simp add: number_of_inject)
  moreover have "image_of_bytes (image_bytes (stripped names img)) = Some (stripped names img)" if "img \<in> set imgs" for img
    using that assms by (intro image_roundtrip_bytes stripped_fits) blast
  ultimately show ?thesis by blast
qed

section \<open>Linking the stripped files\<close>

text \<open>
  The name of an export node after stripping, and the store with such names.
\<close>

definition stripped_name :: "byte list list \<Rightarrow> byte list \<Rightarrow> byte list" where
  "stripped_name names s = (if is_main_name (pack_name s) then s else number_of names (pack_name s))"

definition stripped_node :: "byte list list \<Rightarrow> export_node \<Rightarrow> export_node" where
  "stripped_node names node = node\<lparr>node_name := stripped_name names (node_name node)\<rparr>"

definition stripped_store :: "byte list list \<Rightarrow> code_store \<Rightarrow> code_store" where
  "stripped_store names cs = cs\<lparr>cs_exports := map (stripped_node names) (cs_exports cs)\<rparr>"

definition stripped_info :: "byte list list \<Rightarrow> loaded_code_info \<Rightarrow> loaded_code_info" where
  "stripped_info names info = info\<lparr>lci_exports := map (stripped_node names) (lci_exports info)\<rparr>"

text \<open>A name as the assembler writes it: a string, filled up with NUL bytes.\<close>

definition canonical :: "byte list \<Rightarrow> bool" where
  "canonical name \<longleftrightarrow> pack_name (name_string name) = name"

lemma decimal_digits_length: "n < 10 ^ k \<Longrightarrow> 0 < k \<Longrightarrow> length (decimal_digits n) \<le> k"
proof (induction k arbitrary: n)
  case (Suc k)
  show ?case
  proof (cases "k = 0")
    case True
    with Suc.prems show ?thesis by (simp add: decimal_digits.simps [of n])
  next
    case False
    have "n div 10 < 10 ^ k" using Suc.prems by (simp add: less_mult_imp_div_less mult.commute)
    from Suc.IH [OF this] False show ?thesis by (simp add: decimal_digits.simps [of n])
  qed
qed simp

lemma decimal_digits_no_nul: "0 \<notin> set (decimal_digits n)"
proof (induction n rule: decimal_digits.induct)
  case (1 n)
  have "ascii_digit d \<noteq> 0" if "d < 10" for d using unat_ascii_digit [OF that] by auto
  with 1 show ?case by (cases "n < 10") (auto simp: decimal_digits.simps [of n])
qed

lemma name_string_pack:
  assumes "0 \<notin> set s" and "length s < 256"
  shows "name_string (pack_name s) = s"
proof -
  have "take 255 (pack_name s) = s @ replicate (255 - length s) 0"
    using assms(2) by (simp add: pack_name_def)
  moreover have "takeWhile (\<lambda>b. b \<noteq> 0) (s @ replicate (255 - length s) 0) = s"
    by (subst takeWhile_append2) (use assms(1) in \<open>auto simp: takeWhile_replicate\<close>)
  ultimately show ?thesis by (simp add: name_string_def c_string_def REFERENCE_MAX_SIZE_def)
qed

text \<open>
  What is asked of the names: they are as the assembler writes them, none of those that get a number
  begins like a name of the main function, and there are not absurdly many.
\<close>

definition linkable :: "byte list list \<Rightarrow> bool" where
  "linkable names \<longleftrightarrow> list_all canonical names \<and> list_all (\<lambda>n. \<not> is_main_name n) names \<and> length names < 10 ^ 255"

lemma number_string:
  assumes "linkable names"
  shows "name_string (pack_name (number_of names n)) = number_of names n"
proof -
  let ?k = "length (takeWhile (\<lambda>x. x \<noteq> n) names)"
  have "length names < 10 ^ 255" using assms unfolding linkable_def by blast
  with length_takeWhile_le have "?k < 10 ^ 255" by (rule le_less_trans)
  then have "length (decimal_digits ?k) \<le> 255" by (rule decimal_digits_length) simp
  then show ?thesis by (intro name_string_pack) (auto simp: number_of_def decimal_digits_no_nul)
qed

text \<open>The names of exports that have been loaded.\<close>

definition known_name :: "byte list list \<Rightarrow> byte list \<Rightarrow> bool" where
  "known_name names s \<longleftrightarrow> (\<exists>n. canonical n \<and> (n \<in> set names \<or> is_main_name n) \<and> s = name_string n)"

lemma number_not_main:
  assumes "is_main_name (pack_name s)"
  shows "number_of names n \<noteq> s"
proof
  assume eq: "number_of names n = s"
  obtain b bs where digits: "number_of names n = b # bs" "b \<noteq> 95"
  proof -
    obtain b bs where d: "number_of names n = b # bs" using decimal_digits_Cons unfolding number_of_def by blast
    have "95 \<notin> set (decimal_digits k)" for k
    proof (induction k rule: decimal_digits.induct)
      case (1 k)
      have "ascii_digit d \<noteq> 95" if "d < 10" for d using unat_ascii_digit [OF that] that by auto
      with 1 show ?case by (cases "k < 10") (auto simp: decimal_digits.simps [of k])
    qed
    then have "95 \<notin> set (number_of names n)" by (simp add: number_of_def)
    with d that show ?thesis by auto
  qed
  have start: "hd name = hd p" if "startswith name p" "p \<noteq> []" for name p
    using that by (cases name; cases p) (auto simp: startswith_def)
  have "hd (pack_name s) = 95"
    using assms start [of "pack_name s" main_arg_name] start [of "pack_name s" main_return_location_name]
    unfolding is_main_name_def by (auto simp: main_arg_name_def main_return_location_name_def)
  then show False using digits eq by (auto simp: pack_name_def)
qed

lemma stripped_name_inject:
  assumes "linkable names" and "n \<in> set names" and "known_name names s"
  shows "stripped_name names s = number_of names n \<longleftrightarrow> s = name_string n"
proof -
  from assms(1,2) have n: "canonical n" "\<not> is_main_name n" by (auto simp: linkable_def list_all_iff)
  from assms(3) obtain m where m: "canonical m" "m \<in> set names \<or> is_main_name m" "s = name_string m"
    by (auto simp: known_name_def)
  then have pack: "pack_name s = m" by (simp add: canonical_def)
  have same: "s = name_string n \<longleftrightarrow> m = n"
  proof
    assume "s = name_string n"
    then have "pack_name s = n" using n(1) by (simp add: canonical_def)
    with pack show "m = n" by simp
  qed (simp add: m(3))
  show ?thesis
  proof (cases "is_main_name m")
    case True
    then have "number_of names n \<noteq> s" using number_not_main pack by simp
    with True n(2) same show ?thesis by (auto simp: stripped_name_def pack)
  next
    case False
    with m(2) number_of_inject [of m names n] assms(2) same show ?thesis by (simp add: stripped_name_def pack)
  qed
qed

definition known_store :: "byte list list \<Rightarrow> export_node list \<Rightarrow> bool" where
  "known_store names nodes \<longleftrightarrow> list_all (\<lambda>node. known_name names (node_name node)) nodes"

lemma find_export_stripped:
  assumes "linkable names" and "n \<in> set names" and "known_store names nodes"
  shows "find_export (name_string (pack_name (number_of names n))) (map (stripped_node names) nodes)
    = map_option (stripped_node names) (find_export (name_string n) nodes)"
  using assms(3)
proof (induction nodes)
  case (Cons node nodes)
  then have "known_name names (node_name node)" "known_store names nodes" by (simp_all add: known_store_def)
  with Cons.IH stripped_name_inject [OF assms(1,2)] show ?case
    by (simp add: number_string [OF assms(1)] stripped_node_def)
qed simp

lemma stripped_fields [simp]:
  "ext_name (renamed_reference names r) = pack_name (number_of names (ext_name r))"
  "ext_destination (renamed_reference names r) = ext_destination r"
  "node_current_destination (stripped_node names node) = node_current_destination node"
  by (simp_all add: renamed_reference_def stripped_node_def)

lemma resolve_references_stripped:
  assumes "linkable names" and "known_store names nodes" and "ext_name ` set rs \<subseteq> set names"
  shows "resolve_references start n_new (map (stripped_node names) nodes) (map (renamed_reference names) rs) insts
    = resolve_references start n_new nodes rs insts"
  using assms(3)
proof (induction rs arbitrary: insts)
  case (Cons r rs)
  then have "ext_name r \<in> set names" "ext_name ` set rs \<subseteq> set names" by auto
  from find_export_stripped [OF assms(1) this(1) assms(2)] Cons.IH [OF this(2)] show ?case
    by (cases "find_export (name_string (ext_name r)) nodes") (simp_all add: Let_def)
qed simp

lemma find_export_stripped_None:
  assumes "linkable names" and "known_store names nodes" and "ext_name r \<in> set names"
  shows "find_export (name_string (ext_name (renamed_reference names r))) (map (stripped_node names) nodes) = None
    \<longleftrightarrow> find_export (name_string (ext_name r)) nodes = None"
  using find_export_stripped [OF assms(1,3,2)] by simp

text \<open>The names of an image that is to be loaded.\<close>

definition named_image :: "byte list list \<Rightarrow> sephi_image \<Rightarrow> bool" where
  "named_image names img \<longleftrightarrow> image_fits img \<and> names_of img \<subseteq> set names
     \<and> (\<forall>e\<in>set (img_exports img). canonical (exp_name e))"

lemma new_export_stripped:
  assumes "linkable names" and "named_image names img" and "e \<in> set (img_exports img)"
  shows "new_export_node start (renamed_export names e) = stripped_node names (new_export_node start e)"
    and "known_name names (node_name (new_export_node start e))"
proof -
  have e: "canonical (exp_name e)" "is_main_name (exp_name e) \<or> exp_name e \<in> set names"
    using assms(2,3) by (auto simp: named_image_def names_of_def)
  then have "pack_name (name_string (exp_name e)) = exp_name e" by (simp add: canonical_def)
  then show "new_export_node start (renamed_export names e) = stripped_node names (new_export_node start e)"
    by (simp add: new_export_node_def renamed_export_def stripped_node_def stripped_name_def number_string [OF assms(1)])
  show "known_name names (node_name (new_export_node start e))"
    using e by (auto simp: known_name_def new_export_node_def)
qed

lemma load_image_stripped:
  assumes names: "linkable names" and img: "named_image names img" and cs: "known_store names (cs_exports cs)"
  shows "load_image (image_bytes (stripped names img)) is_privileged (stripped_store names cs)
    = map_outcome (\<lambda>(cs', info). (stripped_store names cs', map_option (stripped_info names) info))
        (load_image (image_bytes img) is_privileged cs)"
proof -
  let ?img = "stripped names img" and ?cs = "stripped_store names cs"
  have fits: "image_fits img" and sub: "ext_name ` set (img_references img) \<subseteq> set names"
    using img by (auto simp: named_image_def names_of_def)
  have read: "image_of_bytes (image_bytes img) = Some img" "image_of_bytes (image_bytes ?img) = Some ?img"
    using image_roundtrip_bytes [OF fits] image_roundtrip_bytes [OF stripped_fits [OF fits]] by simp_all
  have missing: "(\<exists>r\<in>set (img_references ?img). find_export (name_string (ext_name r)) (cs_exports ?cs) = None)
      \<longleftrightarrow> (\<exists>r\<in>set (img_references img). find_export (name_string (ext_name r)) (cs_exports cs) = None)"
    using find_export_stripped_None [OF names cs] sub
    by (auto simp: stripped_def stripped_store_def simp del: stripped_fields(1))
  have same: "length (img_instructions ?img) = length (img_instructions img)" "cs_instructions ?cs = cs_instructions cs"
    "relocate_all ?img start is_privileged = relocate_all img start is_privileged" for start
    by (simp_all add: stripped_def stripped_store_def relocate_all_def)
  have resolve: "resolve_references start n_new (cs_exports ?cs) (img_references ?img) insts
      = resolve_references start n_new (cs_exports cs) (img_references img) insts" for start n_new insts
    using resolve_references_stripped [OF names cs sub] by (simp add: stripped_def stripped_store_def)
  have nodes: "map (new_export_node start) (img_exports ?img)
      = map (stripped_node names) (map (new_export_node start) (img_exports img))" for start
    using new_export_stripped(1) [OF names img] by (simp add: stripped_def)
  show ?thesis
  proof (cases "\<exists>r\<in>set (img_references img). find_export (name_string (ext_name r)) (cs_exports cs) = None")
    case True
    with missing show ?thesis by (simp add: load_image_def read)
  next
    case False
    with missing have none: "\<not> (\<exists>r\<in>set (img_references ?img). find_export (name_string (ext_name r)) (cs_exports ?cs) = None)"
      by simp
    show ?thesis
    proof (cases "resolve_references (length (cs_instructions cs)) (length (img_instructions img)) (cs_exports cs)
        (img_references img) (cs_instructions cs @ relocate_all img (length (cs_instructions cs)) is_privileged)")
      case (Ok x)
      then show ?thesis
        unfolding load_image_def read option.case if_not_P [OF none] if_not_P [OF False] Let_def same resolve nodes
        by (cases x) (simp add: stripped_store_def stripped_info_def)
    qed (unfold load_image_def read option.case if_not_P [OF none] if_not_P [OF False] Let_def same resolve nodes,
      simp_all)
  qed
qed

text \<open>A load of a named image into a store with known names leaves one.\<close>

lemma load_image_known:
  assumes "linkable names" and "named_image names img" and "known_store names (cs_exports cs)"
    and "load_image (image_bytes img) is_privileged cs = Ok (cs', info)"
  shows "known_store names (cs_exports cs')"
proof -
  have "image_of_bytes (image_bytes img) = Some img"
    using assms(2) by (auto simp: named_image_def intro: image_roundtrip_bytes)
  with assms(4) have "cs_exports cs' = cs_exports cs
      \<or> cs_exports cs' = cs_exports cs @ map (new_export_node (of_nat (length (cs_instructions cs)))) (img_exports img)"
    by (auto simp: load_image_def Let_def outcome_bind_Ok_iff split: if_splits)
  then show ?thesis
    using assms(3) new_export_stripped(2) [OF assms(1,2)] by (auto simp: known_store_def list_all_iff)
qed

text \<open>Files loaded one after the other, each with its privilege: the store and what each load returns.\<close>

fun load_images :: "(byte list \<times> bool) list \<Rightarrow> code_store \<Rightarrow> (code_store \<times> loaded_code_info option list) outcome" where
  "load_images [] cs = Ok (cs, [])"
| "load_images ((content, is_privileged) # files) cs =
     outcome_bind (load_image content is_privileged cs) (\<lambda>(cs', info).
     outcome_bind (load_images files cs') (\<lambda>(cs'', infos). Ok (cs'', info # infos)))"

lemma load_images_stripped:
  assumes names: "linkable names" and "\<forall>(img, is_privileged)\<in>set files. named_image names img"
    and "known_store names (cs_exports cs)"
  shows "load_images (map (\<lambda>(img, is_privileged). (image_bytes (stripped names img), is_privileged)) files) (stripped_store names cs)
    = map_outcome (\<lambda>(cs', infos). (stripped_store names cs', map (map_option (stripped_info names)) infos))
        (load_images (map (\<lambda>(img, is_privileged). (image_bytes img, is_privileged)) files) cs)"
  using assms(2,3)
proof (induction files arbitrary: cs)
  case (Cons entry files)
  obtain img is_privileged where pair: "entry = (img, is_privileged)" by (rule prod.exhaust)
  with Cons.prems have img: "named_image names img" and rest: "\<forall>(img, is_privileged)\<in>set files. named_image names img"
    by auto
  note step = load_image_stripped [OF names img Cons.prems(2), of is_privileged]
  show ?case
  proof (cases "load_image (image_bytes img) is_privileged cs")
    case (Ok x)
    obtain cs' info where x: "x = (cs', info)" by (rule prod.exhaust)
    from load_image_known [OF names img Cons.prems(2)] Ok x have "known_store names (cs_exports cs')" by simp
    from Cons.IH [OF rest this] step Ok x show ?thesis
      by (cases "load_images (map (\<lambda>(img, is_privileged). (image_bytes img, is_privileged)) files) cs'")
        (auto simp: pair)
  qed (use step in \<open>simp_all add: pair\<close>)
qed simp

text \<open>The packets that call the main function of a loaded file are the same.\<close>

lemma stripped_name_main:
  assumes "is_main_name (pack_name s)"
  shows "stripped_name names t = s \<longleftrightarrow> t = s"
  using assms number_not_main [OF assms, of names "pack_name t"] by (auto simp: stripped_name_def)

lemma last_export_stripped:
  assumes "is_main_name (pack_name s)"
  shows "last_export s (map (stripped_node names) nodes) = map_option (stripped_node names) (last_export s nodes)"
proof -
  have "fold (\<lambda>cur found. if node_name cur = s then Some cur else found) (map (stripped_node names) nodes)
      (map_option (stripped_node names) found)
    = map_option (stripped_node names) (fold (\<lambda>cur found. if node_name cur = s then Some cur else found) nodes found)" for found
  proof (induction nodes arbitrary: found)
    case (Cons node nodes)
    have "node_name (stripped_node names node) = s \<longleftrightarrow> node_name node = s"
      by (simp add: stripped_node_def stripped_name_main [OF assms])
    with Cons.IH [of "Some node"] Cons.IH [of found] show ?case by simp
  qed simp
  from this [of None] show ?thesis by (simp add: last_export_def)
qed

lemma main_names: "is_main_name (pack_name main_arg_name)" "is_main_name (pack_name main_return_location_name)"
  by (simp_all add: is_main_name_def startswith_def pack_name_def main_arg_name_def main_return_location_name_def)

lemma call_packets_stripped:
  "call_packets inst arg tag address (map (stripped_node names) nodes) = call_packets inst arg tag address nodes"
  by (simp add: call_packets_def last_export_stripped main_names split: option.splits)

lemma names_bounded:
  assumes "\<forall>img\<in>set imgs. image_fits img"
  shows "card (\<Union> (names_of ` set imgs)) \<le> length imgs * 131072"
proof -
  have one: "card (names_of img) \<le> 131072" if "img \<in> set imgs" for img
  proof -
    have "card (names_of img) \<le> card (ext_name ` set (img_references img))
        + card {n \<in> exp_name ` set (img_exports img). \<not> is_main_name n}"
      unfolding names_of_def by (rule card_Un_le)
    moreover have "card (ext_name ` set (img_references img)) \<le> length (img_references img)"
      by (metis card_length length_map set_map)
    moreover have "card {n \<in> exp_name ` set (img_exports img). \<not> is_main_name n} \<le> card (exp_name ` set (img_exports img))"
      by (rule card_mono) auto
    moreover have "card (exp_name ` set (img_exports img)) \<le> length (img_exports img)"
      by (metis card_length length_map set_map)
    moreover have "length (img_references img) < 65536" "length (img_exports img) < 65536"
      using assms that by (auto simp: image_fits_def)
    ultimately show ?thesis by linarith
  qed
  have "card (\<Union> (names_of ` set imgs)) \<le> (\<Sum>img\<in>set imgs. card (names_of img))" by (rule card_UN_le) simp
  also have "\<dots> \<le> (\<Sum>img\<in>set imgs. 131072)" by (rule sum_mono) (rule one)
  also have "\<dots> \<le> length imgs * 131072" by (simp add: card_length)
  finally show ?thesis .
qed

text \<open>
  C14: stripped files fit together as they did: loaded in the same order and with the same privileges, they
  are accepted or refused alike, their instructions are the same, and so are the packets that call a
  main function. It is asked that the names are strings filled up with NUL bytes, and that no file
  refers to an export of a main function, because such a reference would get a number and the export not.
\<close>

theorem stripped_files_link_alike:
  assumes "strip_main (map image_bytes imgs) = Some contents" and "\<forall>img\<in>set imgs. image_fits img"
    and "\<forall>img\<in>set imgs. (\<forall>r\<in>set (img_references img). canonical (ext_name r) \<and> \<not> is_main_name (ext_name r))
      \<and> (\<forall>e\<in>set (img_exports img). canonical (exp_name e))"
    and "length privileges = length imgs" and "length imgs < 2 ^ 64"
  shows "\<exists>names. load_images (zip contents privileges) empty_store
      = map_outcome (\<lambda>(cs, infos). (stripped_store names cs, map (map_option (stripped_info names)) infos))
          (load_images (zip (map image_bytes imgs) privileges) empty_store)
    \<and> (\<forall>cs. cs_instructions (stripped_store names cs) = cs_instructions cs)
    \<and> (\<forall>inst arg tag address info. call_packets inst arg tag address (lci_exports (stripped_info names info))
         = call_packets inst arg tag address (lci_exports info))"
proof -
  from strip_main_images [OF assms(2)] assms(1) obtain names where
    contents: "contents = map (\<lambda>img. image_bytes (stripped names img)) imgs"
    and names: "distinct names" "set names = \<Union> (names_of ` set imgs)" by auto
  have "length names \<le> length imgs * 131072"
    using names_bounded [OF assms(2)] names distinct_card by metis
  also have "\<dots> < 2 ^ 64 * 131072" using assms(5) by simp
  also have "\<dots> < 10 ^ 255" by simp
  finally have "linkable names"
    using assms(3) names(2) by (fastforce simp: linkable_def list_all_iff names_of_def)
  moreover have "named_image names img" if "img \<in> set imgs" for img
    using that assms(2,3) names(2) by (auto simp: named_image_def)
  then have "\<forall>(img, is_privileged)\<in>set (zip imgs privileges). named_image names img"
    by (auto dest: set_zip_leftD)
  moreover have "known_store names (cs_exports empty_store)" by (simp add: known_store_def empty_store_def)
  ultimately have "load_images (map (\<lambda>(img, p). (image_bytes (stripped names img), p)) (zip imgs privileges))
      (stripped_store names empty_store)
    = map_outcome (\<lambda>(cs', infos). (stripped_store names cs', map (map_option (stripped_info names)) infos))
        (load_images (map (\<lambda>(img, p). (image_bytes img, p)) (zip imgs privileges)) empty_store)"
    by (rule load_images_stripped)
  moreover have "stripped_store names empty_store = empty_store"
    by (simp add: stripped_store_def empty_store_def)
  ultimately show ?thesis
    by (intro exI [of _ names]) (simp add: contents zip_map1 split_def stripped_store_def stripped_info_def
        call_packets_stripped)
qed

text \<open>A library and a program that refers to it.\<close>

definition library_image :: sephi_image where
  "library_image = \<lparr>img_constants = [], img_to_fix = [], img_references = [],
     img_exports = [\<lparr>exp_local_destination = 0, exp_name = pack_name [102]\<rparr>], img_instructions = [sample_instruction DUP]\<rparr>"

definition program_image :: sephi_image where
  "program_image = \<lparr>img_constants = [], img_to_fix = [],
     img_references = [\<lparr>ext_destination = \<lparr>dtu_instruction_number = 0, dtu_flags = 1\<rparr>, ext_name = pack_name [102]\<rparr>],
     img_exports = [\<lparr>exp_local_destination = 0, exp_name = pack_name main_arg_name\<rparr>],
     img_instructions = [sample_instruction DUP]\<rparr>"

lemma canonical_pack: "0 \<notin> set s \<Longrightarrow> length s < 256 \<Longrightarrow> canonical (pack_name s)"
  by (simp add: canonical_def name_string_pack)

lemma sample_images: "\<forall>img\<in>set [library_image, program_image]. image_fits img"
  "\<forall>img\<in>set [library_image, program_image].
     (\<forall>r\<in>set (img_references img). canonical (ext_name r) \<and> \<not> is_main_name (ext_name r))
      \<and> (\<forall>e\<in>set (img_exports img). canonical (exp_name e))"
proof -
  have "canonical (pack_name [102])" "canonical (pack_name main_arg_name)"
    by (rule canonical_pack; simp add: main_arg_name_def)+
  moreover have "\<not> is_main_name (pack_name [102])"
    by (simp add: is_main_name_def startswith_def pack_name_def main_arg_name_def main_return_location_name_def)
  ultimately show "\<forall>img\<in>set [library_image, program_image].
     (\<forall>r\<in>set (img_references img). canonical (ext_name r) \<and> \<not> is_main_name (ext_name r))
      \<and> (\<forall>e\<in>set (img_exports img). canonical (exp_name e))"
    by (simp add: library_image_def program_image_def)
  show "\<forall>img\<in>set [library_image, program_image]. image_fits img"
    by (simp add: library_image_def program_image_def image_fits_def length_pack_name)
qed

lemma sample_images_loaded:
  "map_outcome (length \<circ> cs_instructions \<circ> fst)
     (load_images (zip (map image_bytes [library_image, program_image]) [True, False]) empty_store) = Ok 2"
proof -
  have read: "image_of_bytes (image_bytes img) = Some img" if "img \<in> set [library_image, program_image]" for img
    using that sample_images(1) image_roundtrip_bytes by blast
  have name: "name_string (pack_name [102]) = [102]" by (rule name_string_pack) simp_all
  show ?thesis
    using read [of library_image] read [of program_image]
    by (simp add: load_image_def Let_def library_image_def program_image_def relocate_all_def empty_store_def
        new_export_node_def name)
qed

theorem strip_renames_witness:
  "\<exists>names. strip_main (map image_bytes [library_image, program_image])
       = Some (map (\<lambda>img. image_bytes (stripped names img)) [library_image, program_image])
     \<and> set names = {pack_name [102]} \<and> inj_on (number_of names) (set names)"
proof -
  have "names_of library_image = {pack_name [102]}" "names_of program_image = {pack_name [102]}"
    using sample_images(2) main_names(1) by (auto simp: names_of_def library_image_def program_image_def)
  then show ?thesis using strip_renames [OF sample_images(1)] by auto
qed

theorem stripped_files_link_alike_witness:
  "\<exists>contents names. strip_main (map image_bytes [library_image, program_image]) = Some contents
     \<and> load_images (zip contents [True, False]) empty_store
       = map_outcome (\<lambda>(cs, infos). (stripped_store names cs, map (map_option (stripped_info names)) infos))
           (load_images (zip (map image_bytes [library_image, program_image]) [True, False]) empty_store)
     \<and> map_outcome (length \<circ> cs_instructions \<circ> fst)
         (load_images (zip (map image_bytes [library_image, program_image]) [True, False]) empty_store) = Ok 2"
proof -
  from strip_main_images [OF sample_images(1)] obtain contents where
    c: "strip_main (map image_bytes [library_image, program_image]) = Some contents" by auto
  from stripped_files_link_alike [OF c sample_images, of "[True, False]"] c sample_images_loaded
  show ?thesis by fastforce
qed

end
