(* ===== verification/Spec2Isabelle.thy ===== *)
theory Spec2Isabelle
  imports Machine Queue_Concurrency Shared_Memory_Machine Process_Tree Machine_Histories Trap_Table_Memory Running_Programs Strip
begin

text \<open>
  A verification of the machine in service/src: a tagged-token dataflow machine after the Manchester
  prototype, with an operating system in its own instruction set, a loader for user programs and a trap
  mode that lets the operating system inspect results before they are used.

  \<^bold>\<open>The program.\<close> manchester.c forks five processes and joins them by five bounded queues in shared
  memory (queue.c) into a ring. The instruction store (instruction_store.c, sephi.h) loads files of
  instructions and turns pairs of tokens into execution packets; the input module (input_module.c)
  answers the file opcodes by system calls; the processing unit (processing_unit.c, khash.h) executes
  packets, and in trap mode holds results back in a hash table until code of the operating system has
  released them; the I/O switch (io_switch.c) prints the tokens for the output devices; the matching unit
  (matching_unit.c) pairs the tokens of one instruction and tag. types.h and types.c are shared by all.

  \<^bold>\<open>Theories and code.\<close>
  \<^item> \<open>Prelude_AF\<close>: outcomes (Ok, Exit for exit(), Fault for an access outside an object), regions of
    memory, C strings, little-endian words.
  \<^item> \<open>Machine_Types\<close>: types.h and types.c; opcodes are kept as the 32-bit values a file holds.
  \<^item> \<open>Store_Interface\<close>, \<open>Queue_Interface\<close>, \<open>Ring_Process\<close>: the interfaces as locales - a store under
    keys, a bounded first-in first-out queue, the layout of a struct, and a process of the ring -, with
    the lemmas that follow from each contract alone. The waiting table and the hash table of the trap mode
    are stores, the ring buffer and the typed queues over it are queues, the structs of types.h are
    layouts, the five processes are processes of the ring; the interpretations are next to the models.
  \<^item> \<open>Shared_Queue\<close>: queue.c on the bytes of the mapping, each call running alone, and the system
    resources a queue holds. \<open>Queue_Concurrency\<close>: the calls of any number of processes, interleaved
    at single steps (a semaphore operation, locking, one byte of a memcpy, a pointer update).
  \<^item> \<open>Struct_Layouts\<close>: the structs of types.h as bytes, and the queues that carry them.
  \<^item> \<open>Matching_Unit\<close>: the loop of run_matching_unit with its table of chains.
  \<^item> \<open>Trap_Table\<close>, \<open>Trap_Table_Laws\<close>: khash.h as instantiated for the trap mode; open addressing with
    triangular probing, the packed flags, rehashing in place. \<open>Trap_Table_Memory\<close>: kh_resize and kh_put
    when malloc or realloc fails, and the store of single_step_token behind them.
  \<^item> \<open>Processing_Unit\<close>, \<open>Trap_Mode\<close>: function_unit, the loop of run_processing_unit, and the trap mode
    over whole runs against a specification with a map of held tokens.
  \<^item> \<open>Sephi_Loader\<close>, \<open>Instruction_Store\<close>: load_file on the bytes of a file, add_ready_instructions, the
    LOD instruction, the start and the loop of run_instruction_store. \<open>Loaded_Code\<close>: the packets a LOD
    makes ready, their numbers, and what trap mode makes of them.
  \<^item> \<open>Input_Module\<close>, \<open>Io_Switch\<close>: the loops of these processes. The system calls are a record of
    functions on a state of the world; a call that does not return gives None. \<open>Queue_Descriptors\<close>: the
    same calls on the descriptors of the shared memory of the queues, which queue_new leaves open and all
    processes inherit; there the input module reads and writes the rings themselves.
  \<^item> \<open>Machine\<close>: main and start_machine; the five loops as turns chosen by a scheduler, the timeout, the
    death of a child and the kill calls. \<open>Shared_Memory_Machine\<close>: the same machine on the rings of bytes
    that queue_new makes, with the structs copied in and out. \<open>Process_Tree\<close>: the forks, the wait and
    the kill calls of start_machine as steps of processes, also of a child whose function returns. \<open>Machine_Histories\<close>:
    what each process has taken so far, which ties the runs of the single loops to the machine.
  \<^item> \<open>Assembler_Parser\<close>, \<open>Assembler_Wiring\<close>: assembler.py from the text to the graph -
    parse_create_ir_graph, its lines first, then the destinations of the nodes -, and main.
    \<open>Assembler_Chains\<close>, \<open>Assembler_Delivery\<close>, \<open>Assembler_Lines\<close>, \<open>Assembler_Texts\<close>: the chains of
    DUP nodes, which uses they reach, what a line does to the parser, and the graph of a whole text.
  \<^item> \<open>Assembler\<close>, \<open>Assembler_Work\<close>, \<open>Assembler_Image\<close>, \<open>Assembler_Optimisation\<close>,
    \<open>Assembled_Programs\<close>: assembler.py from the graph of nodes to the file - optimize_graph, the work list
    of graph_to_instructions, the tables and the packing -, the file as an image of sephi.h, and the
    assembler followed by the loader. \<open>Text_Programs\<close>: from the text to the store of the
    machine. \<open>Straight_Line_Programs\<close>, \<open>Running_Programs\<close>: the programs of steps, each on the value of the
    step before, from the text to what the running machine prints.
  \<^item> \<open>Strip\<close>: strip.py, which replaces the names in several files by numbers, followed by the loader.

  \<^bold>\<open>State and steps.\<close> Each process is a function that takes one element of its queue and its own state and
  gives the new state and the elements it adds, in the order of the code's queue_add calls; a call that
  blocks is None. The loops are runs of these functions over lists of elements in the theories of the
  processes, and turns of the processes in \<open>Machine\<close>, where taking an element and adding a result are
  separate steps and adding waits for room. What the code reads from outside - random(), time(), the files,
  the system calls, uninitialised memory, what malloc and realloc leave - is a parameter. Between the turns
  the world can change (a step of \<open>machine_step\<close>), so a read that waits for input can return later.

  \<^bold>\<open>The queues as files.\<close> WRT, LSK, RED, CLS and SDF take any number as a descriptor, and the numbers of the
  queues' shared memory are among them (Phase 2 of README.md, third bug). \<open>queue_descriptors_forge\<close> shows
  what that means: any element that waits in a queue can be replaced by any other. Nothing about the
  contents of the queues, the privileges or trap mode holds after such a call. In \<open>Machine\<close> the
  descriptors are \<open>su_queue_fds\<close>, and the input module has no turn when the packet it has taken names one of
  them (\<open>machine_outside\<close>); in \<open>Shared_Memory_Machine\<close> it has one, which works on the rings, and the
  theorem that compares the two machines is on the runs without such turns (\<open>spared_turn\<close>). So every theorem
  on the whole machine is one on its runs up to the first such call, and says so.

  \<^bold>\<open>What is shown.\<close>
  \<^item> Queues: alone, queue_add and queue_remove are append and take on a bounded list; interleaved, every
    history is linearizable, copies stay in the mapping and never overlap, and calls end or wait for good
    reason.
  \<^item> Matching: the table behaves as a map, tokens are conserved - but for those with the unused matching
    function 3, which the code drops -, and emitted pairs are well formed.
  \<^item> Execution: the opcodes are the signed arithmetic modulo \<open>2 ^ 64\<close>, the tag and control operations
    their specifications; every packet is answered at exactly its receivers; which packets let something
    undefined reach a token - those with a shift by 64 or more, with an opcode of another unit or with none
    of the enum -, and that no others do; the hash table is a map, with all its loops ending; in trap mode
    results leave only from packets with an address of trap code or once as answers.
  \<^item> Files: each file opcode makes its system call with its operands and is answered with what the call
    gives; the descriptors of the queues let a program forge what waits in them.
  \<^item> Loading: the loader reads what the assembler writes; a loaded file is appended, relocated and
    patched, and nothing loaded before changes; user code has no privileged opcode, unless its file
    has a reference with the undocumented flag 0x80; the one input on which the loader writes outside its
    array. The instructions that start loaded code carry their numbers in the file, not in the store, and
    those below 100 go around trap mode.
  \<^item> Programs: every graph the assembler accepts is loaded, when its external names are known, as
    instructions that are the nodes of the graph wired as in the graph - but for a second destination with the number 0, which the assembler
    loses; the optimisation redirects destinations past redundant DUPs only. The graph of a text leads
    the value of a variable from the last node that defines it to all its uses, and from other nodes that
    define it to the first three; a text of n lines has at most 7 n nodes. Stripped files fit together as
    they did before, as long as nobody refers to a main function. A text of any number of steps, each on
    the value of the step before, is followed through assembler, loader and the running machine to the
    printed line: all schedules end there.
  \<^item> The machine, up to the first call on the descriptor of a queue: packets with a privileged opcode are
    those of instructions of the operating system, if no file has a reference with the flag 0x80; queues
    never overflow, and when nothing moves everything is done, or all queues are full, or a system call does
    not return; the order in which the scheduler runs the processes does not change the result, if the files
    and the world do not change by themselves; which processes can die and at what; after a death the
    kill calls leave no child. Each process is the run of its loop over what it has taken, so that the
    theorems on the loops are theorems on the machine, that on trap mode for example. All this holds of
    the machine in shared memory too, which simulates the one on lists in both directions. A start that
    fails leaves processes behind.

  \<^bold>\<open>Bounds and fuel.\<close> The searches of khash are run with twice as much fuel as the table has buckets, and the
  theorem on runs of table operations shows that this is enough for every table that can arise, up to
  \<open>2 ^ 28\<close> operations; the loop of read_all is a total function, since each round fills the buffer
  further; the loop of SDF is a partial function, with a theorem that it returns on a file that ends. The
  work list of the assembler ends since each round takes a node from it and adds only new ones, and its loop
  over the nodes of a text since the nodes it adds itself have no inputs. The
  queues have 1024 elements and the waiting table 2048 chains, as in the code.

  \<^bold>\<open>Assumed.\<close> malloc and realloc succeed where the code does not check them; queue_new and fork succeed
  in start_machine, which does not check them either; the hash table of the running machine finds memory
  to grow (what happens otherwise is in \<open>Trap_Table_Memory\<close>); the mutex and the semaphores work as POSIX says,
  and memory accesses under the mutex are in order; the parts of the text printed by a step are printed at
  once. Signed overflow wraps, as the compiler's code does. random() and time() are given by the number of
  the call, so their values do not depend on the moment, and the order of the processes does not change
  them; the second token of a pair that passes the matching unit, which is not initialised, is the same in
  the whole run. The packets of SDF name both descriptors, so it is outside when either is that of a queue.
  Of the shared memory of a queue only the data are bytes: a call on its descriptor that reads the mutex
  or the pointers, writes them, or makes the file longer, has no result.

  \<^bold>\<open>Not modelled.\<close> The code under DEBUG, the table of opcode names excepted; the string and
  set variants of khash.h, which the program does not use; of the assembler the log, the command line and
  graph_to_dot, which draws graphs; texts that are not ASCII, and numbers of more than 4300 digits, which
  newer versions of Python refuse; the compiler (compiler.py, grammar.lark), whose input is a tree made by a
  parser generator that is not part of the repository, and whose output depends on the order in which
  Python goes through sets; the programs written for the machine, and the test drivers.
\<close>

end
